(* ===== verification/Prelude_Ripple.thy ===== *)
theory Prelude_Ripple
  imports Main "HOL-Library.Word" "HOL-Library.Signed_Division" "HOL-Library.Multiset"
begin

text \<open>
  Shared vocabulary of the development: the integer types of the sources, the C++ integer
  division, association lists that stand for the standard containers, and the generic lemmas
  on lists, maps and words that the component theories use through the simplifier.
\<close>

section \<open>Machine types\<close>

type_synonym uint8 = "8 word"
type_synonym uint32 = "32 word"
type_synonym uint64 = "64 word"

text \<open>Network time (\<^verbatim>\<open>NetClock\<close>) is a 32-bit count of seconds since 2000-01-01.\<close>

type_synonym net_time = uint32

text \<open>Durations of the internal steady clock are signed counts of milliseconds.\<close>

type_synonym millis = int

named_theorems timing_defs \<open>definitions of the close-time and threshold arithmetic\<close>
named_theorems frame_simps \<open>what an operation leaves unchanged\<close>

section \<open>Integer division of C++\<close>

text \<open>
  C++ divides towards zero; \<^const>\<open>signed_divide\<close> (\<open>sdiv\<close>) is that operation on
  \<^typ>\<open>int\<close>.
\<close>

lemma sdiv_nonneg [simp]: "0 \<le> (a::int) \<Longrightarrow> 0 \<le> b \<Longrightarrow> a sdiv b = a div b"
  by (cases "a = 0"; cases "b = 0") (simp_all add: signed_divide_int_def)

lemma div_ge_iff_mult_le:
  fixes a b c :: nat
  assumes "0 < b"
  shows "c \<le> a div b \<longleftrightarrow> c * b \<le> a"
  using assms by (simp add: less_eq_div_iff_mult_less_eq)

lemma int_le_div_iff:
  fixes a b c :: int
  assumes "0 < b"
  shows "c \<le> a div b \<longleftrightarrow> c * b \<le> a"
proof
  assume "c \<le> a div b"
  then have "c * b \<le> (a div b) * b" using assms by simp
  also have "\<dots> \<le> a" using assms pos_mod_sign[of b a] div_mult_mod_eq[of a b] by linarith
  finally show "c * b \<le> a" .
next
  assume "c * b \<le> a"
  then have "(c * b) div b \<le> a div b" using assms by (rule zdiv_mono1)
  then show "c \<le> a div b" using assms by simp
qed

section \<open>Words read as naturals\<close>

lemma unat_plus_no_overflow:
  fixes a b :: "'a::len word"
  assumes "unat a + unat b < 2 ^ LENGTH('a)"
  shows "unat (a + b) = unat a + unat b"
  using assms by (simp add: unat_word_ariths)

lemma unat_minus_le:
  fixes a b :: "'a::len word"
  assumes "unat b \<le> unat a"
  shows "unat (a - b) = unat a - unat b"
  using assms by (simp add: unat_sub word_le_nat_alt)

lemma word_less_plus_1:
  fixes a :: "'a::len word"
  assumes "a \<noteq> - 1"
  shows "a < a + 1"
proof -
  have "a + 1 \<noteq> 0" using assms by (metis eq_neg_iff_add_eq_0)
  then have "unat (a + 1) = Suc (unat a)" by (metis add.commute unatSuc)
  then show ?thesis by (simp add: word_less_nat_alt)
qed

end
