(* ===== verification/LedgerTiming.thy ===== *)
theory LedgerTiming
  imports Prelude_Ripple
begin

text \<open>
  Close-time arithmetic and the two threshold decisions of the consensus round:
  \<^verbatim>\<open>ripple/consensus/LedgerTiming.h\<close> (binning of close times),
  \<^verbatim>\<open>ripple/consensus/ConsensusParms.h\<close> (the tuning constants) and
  \<^verbatim>\<open>ripple/consensus/Consensus.cpp\<close> (\<^verbatim>\<open>shouldCloseLedger\<close>,
  \<^verbatim>\<open>checkConsensusReached\<close>, \<^verbatim>\<open>checkConsensus\<close>).
  Close times and resolutions are 32-bit words, as \<^verbatim>\<open>NetClock::rep\<close> is; steady-clock
  durations are integers of milliseconds; proposer counts are naturals.
\<close>

section \<open>Close-time resolutions\<close>

definition ledgerPossibleTimeResolutions :: "uint32 list" where
  [timing_defs]: "ledgerPossibleTimeResolutions = [10, 20, 30, 60, 90, 120]"

definition ledgerDefaultTimeResolution :: uint32 where
  [timing_defs]: "ledgerDefaultTimeResolution = ledgerPossibleTimeResolutions ! 2"

definition increaseLedgerTimeResolutionEvery :: uint32 where
  [timing_defs]: "increaseLedgerTimeResolutionEvery = 8"

definition decreaseLedgerTimeResolutionEvery :: uint32 where
  [timing_defs]: "decreaseLedgerTimeResolutionEvery = 1"

text \<open>\<^verbatim>\<open>std::find\<close>: the position of the first occurrence, or the end position.\<close>

fun find_pos :: "'a \<Rightarrow> 'a list \<Rightarrow> nat" where
  "find_pos x [] = 0"
| "find_pos x (y # ys) = (if x = y then 0 else Suc (find_pos x ys))"

definition getNextLedgerTimeResolution :: "uint32 \<Rightarrow> bool \<Rightarrow> uint32 \<Rightarrow> uint32" where
  "getNextLedgerTimeResolution previousResolution previousAgree ledgerSeq =
     (let bins = ledgerPossibleTimeResolutions;
          iter = find_pos previousResolution bins
      in if iter = length bins then previousResolution
         else if \<not> previousAgree \<and> ledgerSeq mod decreaseLedgerTimeResolutionEvery = 0
                 \<and> iter + 1 \<noteq> length bins
         then bins ! (iter + 1)
         else if previousAgree \<and> ledgerSeq mod increaseLedgerTimeResolutionEvery = 0
                 \<and> iter \<noteq> 0
         then bins ! (iter - 1)
         else previousResolution)"

definition roundCloseTime :: "net_time \<Rightarrow> uint32 \<Rightarrow> net_time" where
  "roundCloseTime closeTime closeResolution =
     (if closeTime = 0 then closeTime
      else let t = closeTime + closeResolution div 2 in t - t mod closeResolution)"

definition effCloseTime :: "net_time \<Rightarrow> uint32 \<Rightarrow> net_time \<Rightarrow> net_time" where
  "effCloseTime closeTime resolution priorCloseTime =
     (if closeTime = 0 then closeTime
      else max (roundCloseTime closeTime resolution) (priorCloseTime + 1))"

section \<open>Consensus parameters and decisions\<close>

record ConsensusParms =
  validationVALID_WALL :: nat
  validationVALID_LOCAL :: nat
  validationVALID_EARLY :: nat
  proposeFRESHNESS :: nat
  proposeINTERVAL :: nat
  minCONSENSUS_PCT :: nat
  ledgerIDLE_INTERVAL :: millis
  ledgerMIN_CONSENSUS :: millis
  ledgerMIN_CLOSE :: millis
  ledgerGRANULARITY :: millis
  avMIN_CONSENSUS_TIME :: millis
  avINIT_CONSENSUS_PCT :: nat
  avMID_CONSENSUS_TIME :: nat
  avMID_CONSENSUS_PCT :: nat
  avLATE_CONSENSUS_TIME :: nat
  avLATE_CONSENSUS_PCT :: nat
  avSTUCK_CONSENSUS_TIME :: nat
  avSTUCK_CONSENSUS_PCT :: nat
  avCT_CONSENSUS_PCT :: nat
  useRoundedCloseTime :: bool

text \<open>The member initialisers. Durations in seconds stay in seconds, the others in milliseconds.\<close>

definition defaultParms :: ConsensusParms where
  "defaultParms = \<lparr>
     validationVALID_WALL = 5 * 60, validationVALID_LOCAL = 3 * 60, validationVALID_EARLY = 3 * 60,
     proposeFRESHNESS = 20, proposeINTERVAL = 12,
     minCONSENSUS_PCT = 80,
     ledgerIDLE_INTERVAL = 15000, ledgerMIN_CONSENSUS = 1950, ledgerMIN_CLOSE = 2000,
     ledgerGRANULARITY = 1000, avMIN_CONSENSUS_TIME = 5000,
     avINIT_CONSENSUS_PCT = 50, avMID_CONSENSUS_TIME = 50, avMID_CONSENSUS_PCT = 65,
     avLATE_CONSENSUS_TIME = 85, avLATE_CONSENSUS_PCT = 70,
     avSTUCK_CONSENSUS_TIME = 200, avSTUCK_CONSENSUS_PCT = 95,
     avCT_CONSENSUS_PCT = 75, useRoundedCloseTime = True \<rparr>"

datatype ConsensusState = No | MovedOn | Yes

definition shouldCloseLedger ::
  "bool \<Rightarrow> nat \<Rightarrow> nat \<Rightarrow> nat \<Rightarrow> millis \<Rightarrow> millis \<Rightarrow> millis \<Rightarrow> millis \<Rightarrow> ConsensusParms \<Rightarrow> bool" where
  "shouldCloseLedger anyTransactions prevProposers proposersClosed proposersValidated
     prevRoundTime timeSincePrevClose openTime idleInterval parms =
     (if prevRoundTime < -1000 \<or> prevRoundTime > 600000 \<or> timeSincePrevClose > 600000 then True
      else if proposersClosed + proposersValidated > prevProposers div 2 then True
      else if \<not> anyTransactions then timeSincePrevClose \<ge> idleInterval
      else if openTime < ledgerMIN_CLOSE parms then False
      else if openTime < prevRoundTime sdiv 2 then False
      else True)"

definition checkConsensusReached :: "nat \<Rightarrow> nat \<Rightarrow> bool \<Rightarrow> nat \<Rightarrow> bool" where
  "checkConsensusReached agreeing ntotal count_self minConsensusPct =
     (if ntotal = 0 then True
      else let agreeing' = (if count_self then agreeing + 1 else agreeing);
               ntotal' = (if count_self then ntotal + 1 else ntotal);
               currentPercentage = (agreeing' * 100) div ntotal'
           in currentPercentage \<ge> minConsensusPct)"

definition checkConsensus ::
  "nat \<Rightarrow> nat \<Rightarrow> nat \<Rightarrow> nat \<Rightarrow> millis \<Rightarrow> millis \<Rightarrow> ConsensusParms \<Rightarrow> bool \<Rightarrow> ConsensusState" where
  "checkConsensus prevProposers currentProposers currentAgree currentFinished
     previousAgreeTime currentAgreeTime parms proposing =
     (if currentAgreeTime \<le> ledgerMIN_CONSENSUS parms then No
      else if currentProposers < prevProposers * 3 div 4
              \<and> currentAgreeTime < previousAgreeTime + ledgerMIN_CONSENSUS parms then No
      else if checkConsensusReached currentAgree currentProposers proposing (minCONSENSUS_PCT parms)
           then Yes
      else if checkConsensusReached currentFinished currentProposers False (minCONSENSUS_PCT parms)
           then MovedOn
      else No)"

section \<open>Resolution bins\<close>

lemma find_pos_le: "find_pos x xs \<le> length xs"
  by (induction xs) auto

lemma find_pos_less_iff [simp]: "find_pos x xs < length xs \<longleftrightarrow> x \<in> set xs"
  by (induction xs) auto

lemma find_pos_eq_length [simp]: "find_pos x xs = length xs \<longleftrightarrow> x \<notin> set xs"
  by (metis find_pos_le find_pos_less_iff le_neq_implies_less nat_neq_iff)

lemma nth_find_pos [simp]: "x \<in> set xs \<Longrightarrow> xs ! find_pos x xs = x"
  by (induction xs) auto

lemma find_pos_nth: "distinct xs \<Longrightarrow> i < length xs \<Longrightarrow> find_pos (xs ! i) xs = i"
proof (induction xs arbitrary: i)
  case (Cons x xs)
  then show ?case by (cases i) (auto simp: nth_mem)
qed simp

lemma bins_distinct: "distinct ledgerPossibleTimeResolutions"
  by (simp add: ledgerPossibleTimeResolutions_def)

lemma bins_length [simp]: "length ledgerPossibleTimeResolutions = 6"
  by (simp add: ledgerPossibleTimeResolutions_def)

lemma next_resolution_cases:
  assumes "r \<in> set ledgerPossibleTimeResolutions"
  defines "i \<equiv> find_pos r ledgerPossibleTimeResolutions"
  shows "getNextLedgerTimeResolution r agree sq =
    ledgerPossibleTimeResolutions !
      (if \<not> agree then min 5 (i + 1) else if sq mod 8 = 0 then i - 1 else i)"
  using assms(1) unfolding i_def
  by (auto simp: getNextLedgerTimeResolution_def timing_defs Let_def)

text \<open>Runs of disagreeing rounds, each with its own ledger sequence number.\<close>

lemma find_pos_bins: "i < 6 \<Longrightarrow> find_pos (ledgerPossibleTimeResolutions ! i) ledgerPossibleTimeResolutions = i"
  by (simp add: find_pos_nth bins_distinct)

lemma bin_mem: "i < 6 \<Longrightarrow> ledgerPossibleTimeResolutions ! i \<in> set ledgerPossibleTimeResolutions"
  by (simp add: nth_mem)

lemma disagreeing_step:
  "i < 6 \<Longrightarrow> getNextLedgerTimeResolution (ledgerPossibleTimeResolutions ! i) False sq =
     ledgerPossibleTimeResolutions ! min 5 (i + 1)"
  by (simp add: next_resolution_cases bin_mem find_pos_bins)

lemma disagreeing_run:
  "i < 6 \<Longrightarrow> fold (\<lambda>sq r. getNextLedgerTimeResolution r False sq) sqs (ledgerPossibleTimeResolutions ! i)
     = ledgerPossibleTimeResolutions ! min 5 (i + length sqs)"
proof (induction sqs arbitrary: i)
  case Nil
  then have "min 5 i = i" by simp
  then show ?case by simp
next
  case (Cons sq sqs)
  have "min 5 (min 5 (i + 1) + length sqs) = min 5 (i + length (sq # sqs))" by simp
  then show ?case using Cons.IH[of "min 5 (i + 1)"] Cons.prems by (simp add: disagreeing_step)
qed

section \<open>Rounding of close times\<close>

lemma unat_roundCloseTime:
  assumes "t \<noteq> 0" "unat t + unat res div 2 < 2 ^ 32"
  shows "unat (roundCloseTime t res) =
    (unat t + unat res div 2) - (unat t + unat res div 2) mod unat res"
proof -
  have s: "unat (t + res div 2) = unat t + unat res div 2"
    using assms(2) by (subst unat_plus_no_overflow) (simp_all add: unat_div)
  have "unat ((t + res div 2) mod res) \<le> unat (t + res div 2)"
    by (simp add: unat_mod)
  then show ?thesis
    using assms(1) s by (simp add: roundCloseTime_def Let_def unat_minus_le unat_mod)
qed

lemma roundCloseTime_multiple:
  assumes "unat res dvd unat r" "0 < unat res" "unat r + unat res div 2 < 2 ^ 32"
  shows "roundCloseTime r res = r"
proof (cases "r = 0")
  case False
  have "unat res div 2 < unat res" using assms(2) by simp
  then have "(unat r + unat res div 2) mod unat res = unat res div 2"
    using assms(1) by (metis dvd_eq_mod_eq_0 mod_add_left_eq add_0 mod_less)
  then have "unat (roundCloseTime r res) = unat r"
    using unat_roundCloseTime[OF False assms(3)] by simp
  then show ?thesis by (simp add: word_unat_eq_iff)
qed (simp add: roundCloseTime_def)

lemma roundCloseTime_zero [simp]: "roundCloseTime 0 res = 0"
  by (simp add: roundCloseTime_def)

section \<open>Thresholds\<close>

lemma checkConsensusReached_iff:
  "0 < n \<Longrightarrow> checkConsensusReached a n False pct \<longleftrightarrow> pct * n \<le> a * 100"
  by (simp add: checkConsensusReached_def div_ge_iff_mult_le)

lemma checkConsensusReached_self_iff:
  "0 < n \<Longrightarrow> checkConsensusReached a n True pct \<longleftrightarrow> pct * (n + 1) \<le> (a + 1) * 100"
  unfolding checkConsensusReached_def by (simp add: div_ge_iff_mult_le del: mult_Suc mult_Suc_right)

lemma checkConsensusReached_mono:
  "a \<le> a' \<Longrightarrow> checkConsensusReached a n s pct \<Longrightarrow> checkConsensusReached a' n s pct"
  by (cases "n = 0"; cases s)
    (auto simp: checkConsensusReached_def Let_def elim!: order_trans intro!: div_le_mono)

lemma checkConsensus_Yes:
  "checkConsensus pp n a f pt ct parms prop = Yes \<Longrightarrow>
     checkConsensusReached a n prop (minCONSENSUS_PCT parms)"
  by (auto simp: checkConsensus_def split: if_splits)

lemma minCONSENSUS_PCT_default [simp]: "minCONSENSUS_PCT defaultParms = 80"
  by (simp add: defaultParms_def)

lemma card_position_classes:
  assumes "finite N" "pos u \<noteq> pos v" "u \<in> N" "v \<in> N"
  shows "card {p \<in> N - {u}. pos p = pos u} + card {p \<in> N - {v}. pos p = pos v} + 2 \<le> card N"
proof -
  let ?A = "{p \<in> N. pos p = pos u}" and ?B = "{p \<in> N. pos p = pos v}"
  have "{p \<in> N - {u}. pos p = pos u} = ?A - {u}" "{p \<in> N - {v}. pos p = pos v} = ?B - {v}"
    by auto
  moreover have "card ?A = Suc (card (?A - {u}))" "card ?B = Suc (card (?B - {v}))"
    by (rule card.remove; use assms in simp)+
  moreover have "card ?A + card ?B = card (?A \<union> ?B)"
    using assms by (intro card_Un_disjoint[symmetric]) auto
  moreover have "card (?A \<union> ?B) \<le> card N"
    using assms by (intro card_mono) auto
  ultimately show ?thesis by simp
qed

section \<open>Properties\<close>

text \<open>
  C1. Agreement on one position. Proposing nodes that see each other's positions and all the
  other proposers of a fixed group cannot both declare consensus (\<^verbatim>\<open>ConsensusState::Yes\<close>)
  on different positions: whatever their histories and timings are, two \<^verbatim>\<open>Yes\<close>
  verdicts of \<^verbatim>\<open>checkConsensus\<close> with the shipped parameters are for the same position.
\<close>

theorem checkConsensus_agreement:
  fixes pos :: "'node \<Rightarrow> 'position"
  assumes "finite N" "u \<in> N" "v \<in> N" "u \<noteq> v"
    and "checkConsensus pp (card (N - {u})) (card {p \<in> N - {u}. pos p = pos u})
           f pt ct defaultParms True = Yes"
    and "checkConsensus pp' (card (N - {v})) (card {p \<in> N - {v}. pos p = pos v})
           f' pt' ct' defaultParms True = Yes"
  shows "pos u = pos v"
proof (rule ccontr)
  assume ne: "pos u \<noteq> pos v"
  let ?a = "card {p \<in> N - {u}. pos p = pos u}" and ?b = "card {p \<in> N - {v}. pos p = pos v}"
  have cu: "card N = Suc (card (N - {u}))" and cv: "card N = Suc (card (N - {v}))"
    by (rule card.remove[OF assms(1,2)], rule card.remove[OF assms(1,3)])
  have "card (N - {u}) \<noteq> 0" "card (N - {v}) \<noteq> 0"
    using assms(1-4) by (auto simp: card_eq_0_iff simp del: card_Diff_insert)
  then have "80 * card N \<le> (?a + 1) * 100" "80 * card N \<le> (?b + 1) * 100"
    using checkConsensus_Yes[OF assms(5)] checkConsensus_Yes[OF assms(6)] cu cv
    by (simp_all add: checkConsensusReached_self_iff)
  moreover have "?a + ?b + 2 \<le> card N"
    using card_position_classes[OF assms(1) ne assms(2,3)] .
  moreover have "0 < card N" using cu by simp
  ultimately show False by simp
qed

lemma four_nodes:
  "{0, 1, 2, 3} - {0} = {1, 2, 3::nat}" "{0, 1, 2, 3} - {1} = {0, 2, 3::nat}"
  "{p \<in> {1, 2, 3::nat}. p div 10 = 0 div 10} = {1, 2, 3}"
  "{p \<in> {0, 2, 3::nat}. p div 10 = 1 div 10} = {0, 2, 3}"
  by auto

theorem checkConsensus_agreement_witness:
  "checkConsensus 3 (card ({0, 1, 2, 3::nat} - {0}))
      (card {p \<in> {0, 1, 2, 3::nat} - {0}. p div 10 = 0 div 10}) 0 2000 2000 defaultParms True = Yes
   \<and> checkConsensus 3 (card ({0, 1, 2, 3::nat} - {1}))
      (card {p \<in> {0, 1, 2, 3::nat} - {1}. p div 10 = 1 div 10}) 0 2000 3000 defaultParms True = Yes
   \<and> (0::nat) div 10 = 1 div 10"
proof -
  have yes: "checkConsensus 3 (card ({0, 1, 2, 3::nat} - {0}))
      (card {p \<in> {0, 1, 2, 3::nat} - {0}. p div 10 = 0 div 10}) 0 2000 2000 defaultParms True = Yes"
    "checkConsensus 3 (card ({0, 1, 2, 3::nat} - {1}))
      (card {p \<in> {0, 1, 2, 3::nat} - {1}. p div 10 = 1 div 10}) 0 2000 3000 defaultParms True = Yes"
    by (simp_all only: four_nodes)
      (simp_all add: checkConsensus_def checkConsensusReached_def defaultParms_def)
  have "finite {0, 1, 2, 3::nat}" "0 \<in> {0, 1, 2, 3::nat}" "1 \<in> {0, 1, 2, 3::nat}" "(0::nat) \<noteq> 1"
    by simp_all
  from checkConsensus_agreement[where pos = "\<lambda>p. p div 10", OF this yes] yes show ?thesis by blast
qed

text \<open>
  C2. Close-time rounding. For a non-zero close time and a resolution that do not overflow the
  32-bit network clock, \<^verbatim>\<open>roundCloseTime\<close> returns the multiple of the resolution
  nearest to the close time (halfway cases go up), and rounding again changes nothing.
\<close>

theorem roundCloseTime_nearest:
  assumes "t \<noteq> 0" "0 < res" "unat t + unat res < 2 ^ 32"
  shows "unat res dvd unat (roundCloseTime t res)
    \<and> unat (roundCloseTime t res) \<le> unat t + unat res div 2
    \<and> unat t + unat res div 2 < unat (roundCloseTime t res) + unat res
    \<and> roundCloseTime (roundCloseTime t res) res = roundCloseTime t res"
proof -
  let ?s = "unat t + unat res div 2"
  have res: "0 < unat res" using assms(2) by (simp add: word_less_nat_alt)
  have r: "unat (roundCloseTime t res) = ?s - ?s mod unat res"
    using assms by (intro unat_roundCloseTime) auto
  have dvd: "unat res dvd unat (roundCloseTime t res)"
    unfolding r by (rule dvd_minus_mod)
  have "?s < unat (roundCloseTime t res) + unat res"
    unfolding r using res mod_less_divisor[of "unat res" ?s] by linarith
  moreover have le: "unat (roundCloseTime t res) \<le> ?s" unfolding r by simp
  moreover have "roundCloseTime (roundCloseTime t res) res = roundCloseTime t res"
    using dvd res le assms(3) by (intro roundCloseTime_multiple) linarith+
  ultimately show ?thesis using dvd by blast
qed

theorem roundCloseTime_nearest_witness:
  "unat (30::uint32) dvd unat (roundCloseTime 105 30)
    \<and> unat (roundCloseTime 105 30) \<le> unat (105::uint32) + unat (30::uint32) div 2
    \<and> unat (105::uint32) + unat (30::uint32) div 2 < unat (roundCloseTime 105 30) + unat (30::uint32)
    \<and> roundCloseTime (roundCloseTime 105 30) 30 = roundCloseTime 105 30"
  by (rule roundCloseTime_nearest) simp_all



text \<open>
  C4. The close-time resolution follows agreement. From a valid bin the next resolution is again
  a valid bin; it never gets finer after a round that disagreed on the close time, never gets
  coarser after one that agreed, and gets finer only at every eighth ledger. Any run of at least
  five disagreeing rounds ends in the coarsest bin, so binning always becomes as forgiving as it
  can.
\<close>

theorem getNextLedgerTimeResolution_adapts:
  assumes "r \<in> set ledgerPossibleTimeResolutions"
  shows "getNextLedgerTimeResolution r agree sq \<in> set ledgerPossibleTimeResolutions
    \<and> (\<not> agree \<longrightarrow> r \<le> getNextLedgerTimeResolution r agree sq
          \<and> (r < 120 \<longrightarrow> r < getNextLedgerTimeResolution r agree sq))
    \<and> (agree \<longrightarrow> getNextLedgerTimeResolution r agree sq \<le> r)
    \<and> (agree \<and> sq mod 8 \<noteq> 0 \<longrightarrow> getNextLedgerTimeResolution r agree sq = r)
    \<and> (5 \<le> length sqs \<longrightarrow>
          fold (\<lambda>sq r. getNextLedgerTimeResolution r False sq) sqs r = 120)"
proof -
  have "5 \<le> length sqs \<Longrightarrow> fold (\<lambda>sq r. getNextLedgerTimeResolution r False sq) sqs r = 120"
    using disagreeing_run[of "find_pos r ledgerPossibleTimeResolutions" sqs]
      find_pos_less_iff[of r ledgerPossibleTimeResolutions] assms
    by (simp add: min_def) (simp add: ledgerPossibleTimeResolutions_def)
  moreover have "getNextLedgerTimeResolution r agree sq \<in> set ledgerPossibleTimeResolutions
    \<and> (\<not> agree \<longrightarrow> r \<le> getNextLedgerTimeResolution r agree sq
          \<and> (r < 120 \<longrightarrow> r < getNextLedgerTimeResolution r agree sq))
    \<and> (agree \<longrightarrow> getNextLedgerTimeResolution r agree sq \<le> r)
    \<and> (agree \<and> sq mod 8 \<noteq> 0 \<longrightarrow> getNextLedgerTimeResolution r agree sq = r)"
    using assms by (auto simp: getNextLedgerTimeResolution_def timing_defs Let_def)
  ultimately show ?thesis by blast
qed

theorem getNextLedgerTimeResolution_adapts_witness:
  "getNextLedgerTimeResolution 30 False 77 \<in> set ledgerPossibleTimeResolutions
    \<and> 30 < getNextLedgerTimeResolution 30 False 77
    \<and> fold (\<lambda>sq r. getNextLedgerTimeResolution r False sq) [78, 79, 80, 81, 82] 30 = 120"
  using getNextLedgerTimeResolution_adapts[of 30 False 77 "[78, 79, 80, 81, 82]"]
  by (simp add: ledgerPossibleTimeResolutions_def)

end
