(* ===== verification/DisputedTx.thy ===== *)
theory DisputedTx
  imports LedgerTiming
begin

text \<open>
  The data that travels between the peers of a consensus round:
  \<^verbatim>\<open>ripple/consensus/ConsensusProposal.h\<close> (a position with its sequence number) and
  \<^verbatim>\<open>ripple/consensus/DisputedTx.h\<close> (the votes of the peers on one transaction).
  The template arguments are fixed: node, transaction, set and ledger identifiers are
  naturals, as the hashes of the sources are.
\<close>

type_synonym NodeID = nat
type_synonym TxID = nat
type_synonym TxSetID = nat
type_synonym LedgerID = nat

section \<open>Unsigned conversions\<close>

text \<open>An \<^verbatim>\<open>int\<close> compared with a \<^verbatim>\<open>size_t\<close> is converted to 64 unsigned bits first.\<close>

definition size_t_of_int :: "int \<Rightarrow> nat" where
  "size_t_of_int x = nat (x mod 2 ^ 64)"

lemma size_t_of_int_nonneg [simp]: "0 \<le> x \<Longrightarrow> x < 2 ^ 64 \<Longrightarrow> size_t_of_int x = nat x"
  by (simp add: size_t_of_int_def)

section \<open>Proposals\<close>

record ConsensusProposal =
  prevLedger :: LedgerID
  position :: TxSetID
  closeTime :: net_time
  seenTime :: net_time
  proposeSeq :: uint32
  nodeID :: NodeID

definition seqJoin :: uint32 where "seqJoin = 0"
definition seqLeave :: uint32 where "seqLeave = 0xffffffff"

definition isInitial :: "ConsensusProposal \<Rightarrow> bool" where
  "isInitial p = (proposeSeq p = seqJoin)"

definition isBowOut :: "ConsensusProposal \<Rightarrow> bool" where
  "isBowOut p = (proposeSeq p = seqLeave)"

definition isStale :: "ConsensusProposal \<Rightarrow> net_time \<Rightarrow> bool" where
  "isStale p cutoff = (seenTime p \<le> cutoff)"

definition changePosition ::
  "ConsensusProposal \<Rightarrow> TxSetID \<Rightarrow> net_time \<Rightarrow> net_time \<Rightarrow> ConsensusProposal" where
  "changePosition p newPosition newCloseTime now =
     p\<lparr>position := newPosition, closeTime := newCloseTime, seenTime := now,
       proposeSeq := (if proposeSeq p \<noteq> seqLeave then proposeSeq p + 1 else proposeSeq p)\<rparr>"

definition bowOut :: "ConsensusProposal \<Rightarrow> net_time \<Rightarrow> ConsensusProposal" where
  "bowOut p now = p\<lparr>seenTime := now, proposeSeq := seqLeave\<rparr>"

section \<open>Disputed transactions\<close>

text \<open>A transaction is an item of the transaction tree: its key and its serialized bytes.\<close>

record Tx =
  txid :: TxID
  txdata :: "uint8 list"

record DisputedTx =
  yays :: int
  nays :: int
  ourVote :: bool
  dtx :: Tx
  votes :: "NodeID \<rightharpoonup> bool"

definition newDisputedTx :: "Tx \<Rightarrow> bool \<Rightarrow> DisputedTx" where
  "newDisputedTx t v = \<lparr>yays = 0, nays = 0, ourVote = v, dtx = t, votes = Map.empty\<rparr>"

definition setVote :: "DisputedTx \<Rightarrow> NodeID \<Rightarrow> bool \<Rightarrow> DisputedTx" where
  "setVote d peer votesYes =
     (case votes d peer of
        None \<Rightarrow>
          if votesYes then d\<lparr>votes := (votes d)(peer \<mapsto> votesYes), yays := yays d + 1\<rparr>
          else d\<lparr>votes := (votes d)(peer \<mapsto> votesYes), nays := nays d + 1\<rparr>
      | Some old \<Rightarrow>
          if votesYes \<and> \<not> old
          then d\<lparr>nays := nays d - 1, yays := yays d + 1, votes := (votes d)(peer \<mapsto> True)\<rparr>
          else if \<not> votesYes \<and> old
          then d\<lparr>nays := nays d + 1, yays := yays d - 1, votes := (votes d)(peer \<mapsto> False)\<rparr>
          else d)"

definition unVote :: "DisputedTx \<Rightarrow> NodeID \<Rightarrow> DisputedTx" where
  "unVote d peer =
     (case votes d peer of
        None \<Rightarrow> d
      | Some v \<Rightarrow>
          (if v then d\<lparr>yays := yays d - 1\<rparr> else d\<lparr>nays := nays d - 1\<rparr>)
            \<lparr>votes := (votes d)(peer := None)\<rparr>)"

text \<open>The percentage of yes votes needed at a given progress of the round.\<close>

definition vote_threshold :: "int \<Rightarrow> ConsensusParms \<Rightarrow> nat" where
  "vote_threshold percentTime p =
     (if size_t_of_int percentTime < avMID_CONSENSUS_TIME p then avINIT_CONSENSUS_PCT p
      else if size_t_of_int percentTime < avLATE_CONSENSUS_TIME p then avMID_CONSENSUS_PCT p
      else if size_t_of_int percentTime < avSTUCK_CONSENSUS_TIME p then avLATE_CONSENSUS_PCT p
      else avSTUCK_CONSENSUS_PCT p)"

definition vote_weight :: "DisputedTx \<Rightarrow> int" where
  "vote_weight d = (yays d * 100 + (if ourVote d then 100 else 0)) sdiv (nays d + yays d + 1)"

definition updateVote :: "DisputedTx \<Rightarrow> int \<Rightarrow> bool \<Rightarrow> ConsensusParms \<Rightarrow> DisputedTx \<times> bool" where
  "updateVote d percentTime proposing p =
     (if ourVote d \<and> nays d = 0 then (d, False)
      else if \<not> ourVote d \<and> yays d = 0 then (d, False)
      else let newPosition =
                 (if proposing then size_t_of_int (vote_weight d) > vote_threshold percentTime p
                  else yays d > nays d)
           in if newPosition = ourVote d then (d, False)
              else (d\<lparr>ourVote := newPosition\<rparr>, True))"

section \<open>The tally invariant\<close>

text \<open>The two counters are the numbers of peers whose recorded vote is yes or no.\<close>

definition votes_ok :: "DisputedTx \<Rightarrow> bool" where
  "votes_ok d \<longleftrightarrow> finite (dom (votes d))
     \<and> yays d = int (card {n. votes d n = Some True})
     \<and> nays d = int (card {n. votes d n = Some False})"

lemma votes_ok_new [simp]: "votes_ok (newDisputedTx t v)"
  by (simp add: votes_ok_def newDisputedTx_def)

lemma votes_ok_finite: "votes_ok d \<Longrightarrow> finite {n. votes d n = Some b}"
  unfolding votes_ok_def by (rule finite_subset[of _ "dom (votes d)"]) auto

lemma voters_upd:
  "{n. (m(k \<mapsto> v)) n = Some b} =
     (if v = b then insert k {n. m n = Some b} else {n. m n = Some b} - {k})"
  by auto

lemma voters_del: "{n. (m(k := None)) n = Some b} = {n. m n = Some b} - {k}"
  by auto

lemma setVote_frame [simp, frame_simps]:
  "dtx (setVote d peer v) = dtx d" "ourVote (setVote d peer v) = ourVote d"
  by (auto simp: setVote_def split: option.split)

lemma votes_setVote [simp]: "votes (setVote d peer v) = (votes d)(peer \<mapsto> v)"
  by (auto simp: setVote_def fun_eq_iff split: option.split)

lemma unVote_frame [simp, frame_simps]:
  "dtx (unVote d peer) = dtx d" "ourVote (unVote d peer) = ourVote d"
  by (auto simp: unVote_def split: option.split)

lemma votes_unVote [simp]: "votes (unVote d peer) = (votes d)(peer := None)"
  by (auto simp: unVote_def fun_eq_iff split: option.split)

lemma updateVote_frame [simp, frame_simps]:
  "dtx (fst (updateVote d t p c)) = dtx d" "votes (fst (updateVote d t p c)) = votes d"
  "yays (fst (updateVote d t p c)) = yays d" "nays (fst (updateVote d t p c)) = nays d"
  by (simp_all add: updateVote_def Let_def)

lemma updateVote_changed:
  "snd (updateVote d t p c) \<longleftrightarrow> ourVote (fst (updateVote d t p c)) \<noteq> ourVote d"
  by (auto simp: updateVote_def Let_def)

lemma votes_ok_updateVote [simp]: "votes_ok (fst (updateVote d t p c)) = votes_ok d"
  by (simp add: votes_ok_def)

lemma card_voters_minus:
  assumes "votes_ok d"
  shows "int (card ({n. votes d n = Some b} - {peer})) =
    int (card {n. votes d n = Some b}) - (if votes d peer = Some b then 1 else 0)"
proof (cases "votes d peer = Some b")
  case True
  then show ?thesis
    using votes_ok_finite[OF assms, of b] card.remove[of "{n. votes d n = Some b}" peer] by simp
next
  case False
  then have "{n. votes d n = Some b} - {peer} = {n. votes d n = Some b}" by auto
  with False show ?thesis by simp
qed

lemma votes_ok_setVote [intro]:
  assumes "votes_ok d"
  shows "votes_ok (setVote d peer v)"
  using assms votes_ok_finite[OF assms]
    card_voters_minus[OF assms, of True peer] card_voters_minus[OF assms, of False peer]
  unfolding votes_ok_def votes_setVote voters_upd
  by (cases "votes d peer"; cases v; cases "the (votes d peer)")
    (simp_all add: setVote_def insert_absorb)

lemma votes_ok_unVote [intro]:
  assumes "votes_ok d"
  shows "votes_ok (unVote d peer)"
  using assms card_voters_minus[OF assms, of True peer] card_voters_minus[OF assms, of False peer]
  unfolding votes_ok_def votes_unVote voters_del
  by (cases "votes d peer"; cases "the (votes d peer)") (simp_all add: unVote_def)

lemma votes_ok_nonneg: "votes_ok d \<Longrightarrow> 0 \<le> yays d \<and> 0 \<le> nays d"
  by (simp add: votes_ok_def)

section \<open>What the round may rely on\<close>

text \<open>
  The consensus round changes a dispute only through the operations above. A property of
  disputes that they establish and keep is therefore kept by every handler of the round; the
  round's theory proves that once, for any such property.
\<close>

locale dispute_invariant =
  fixes P :: "DisputedTx \<Rightarrow> bool"
  assumes P_new: "P (newDisputedTx t v)"
    and P_setVote: "P d \<Longrightarrow> P (setVote d peer v)"
    and P_unVote: "P d \<Longrightarrow> P (unVote d peer)"
    and P_updateVote: "P d \<Longrightarrow> P (fst (updateVote d pct proposing parms))"
begin

lemma P_fold_setVote: "P d \<Longrightarrow> P (fold (\<lambda>(n, v) d. setVote d n v) nvs d)"
  by (induction nvs arbitrary: d) (auto intro: P_setVote)

end

interpretation tally: dispute_invariant votes_ok
  by unfold_locales auto

section \<open>Sequences of operations\<close>

datatype vote_op = SetVote NodeID bool | UnVote NodeID | UpdateVote int bool ConsensusParms

fun run_vote :: "vote_op \<Rightarrow> DisputedTx \<Rightarrow> DisputedTx" where
  "run_vote (SetVote n v) d = setVote d n v"
| "run_vote (UnVote n) d = unVote d n"
| "run_vote (UpdateVote t proposing p) d = fst (updateVote d t proposing p)"

text \<open>The abstract account of the same operations: the last recorded vote of each peer.\<close>

fun abs_vote :: "vote_op \<Rightarrow> (NodeID \<rightharpoonup> bool) \<Rightarrow> (NodeID \<rightharpoonup> bool)" where
  "abs_vote (SetVote n v) m = m(n \<mapsto> v)"
| "abs_vote (UnVote n) m = m(n := None)"
| "abs_vote (UpdateVote t proposing p) m = m"

lemma votes_run_vote [simp]: "votes (run_vote x d) = abs_vote x (votes d)"
  by (cases x) auto

lemma dtx_run_vote [simp]: "dtx (run_vote x d) = dtx d"
  by (cases x) auto

lemma votes_ok_run_vote: "votes_ok d \<Longrightarrow> votes_ok (run_vote x d)"
  by (cases x) auto

lemma votes_fold_run_vote: "votes (fold run_vote xs d) = fold abs_vote xs (votes d)"
  by (induction xs arbitrary: d) auto

lemma votes_ok_fold_run_vote: "votes_ok d \<Longrightarrow> votes_ok (fold run_vote xs d)"
  by (induction xs arbitrary: d) (auto intro: votes_ok_run_vote)

section \<open>Our own vote\<close>

lemma vote_weight_nonneg: "votes_ok d \<Longrightarrow>
    vote_weight d = (yays d * 100 + (if ourVote d then 100 else 0)) div (nays d + yays d + 1)"
  using votes_ok_nonneg[of d] by (simp add: vote_weight_def)

lemma vote_weight_bounds:
  assumes "votes_ok d"
  shows "0 \<le> vote_weight d \<and> vote_weight d \<le> 100"
proof -
  note nn = votes_ok_nonneg[OF assms]
  have "\<not> 101 \<le> vote_weight d"
    using nn unfolding vote_weight_nonneg[OF assms] by (subst int_le_div_iff) auto
  moreover have "0 \<le> vote_weight d"
    using nn unfolding vote_weight_nonneg[OF assms] by (subst int_le_div_iff) auto
  ultimately show ?thesis by simp
qed

lemma weight_exceeds_iff:
  assumes "votes_ok d"
  shows "size_t_of_int (vote_weight d) > thr \<longleftrightarrow>
    (int thr + 1) * (nays d + yays d + 1) \<le> 100 * (yays d + (if ourVote d then 1 else 0))"
proof -
  note nn = votes_ok_nonneg[OF assms]
  have "size_t_of_int (vote_weight d) > thr \<longleftrightarrow> int thr + 1 \<le> vote_weight d"
    using vote_weight_bounds[OF assms] by auto
  also have "\<dots> \<longleftrightarrow> (int thr + 1) * (nays d + yays d + 1)
      \<le> yays d * 100 + (if ourVote d then 100 else 0)"
    using nn unfolding vote_weight_nonneg[OF assms]
    by (subst int_le_div_iff) auto
  finally show ?thesis by (simp add: algebra_simps)
qed

lemma vote_threshold_mono:
  assumes "0 \<le> t1" "t1 \<le> t2" "t2 < 2 ^ 64"
  shows "vote_threshold t1 defaultParms \<le> vote_threshold t2 defaultParms"
proof -
  have "size_t_of_int t1 \<le> size_t_of_int t2" using assms by simp
  then show ?thesis by (auto simp: vote_threshold_def defaultParms_def)
qed

lemma ourVote_updateVote_proposing:
  assumes "votes_ok d"
  shows "ourVote (fst (updateVote d t True p)) \<longleftrightarrow>
    (if ourVote d \<and> nays d = 0 then True
     else if \<not> ourVote d \<and> yays d = 0 then False
     else (int (vote_threshold t p) + 1) * (nays d + yays d + 1)
            \<le> 100 * (yays d + (if ourVote d then 1 else 0)))"
  unfolding updateVote_def Let_def weight_exceeds_iff[OF assms] by auto

section \<open>Properties\<close>

text \<open>
  C9. Vote counting. After any sequence of \<^verbatim>\<open>setVote\<close>, \<^verbatim>\<open>unVote\<close> and
  \<^verbatim>\<open>updateVote\<close> on a fresh dispute, the vote table holds the last recorded vote of
  each peer, \<^verbatim>\<open>yays_\<close> and \<^verbatim>\<open>nays_\<close> are the numbers of peers whose last
  vote is yes and no, and the disputed transaction is unchanged.
\<close>

theorem dispute_tally:
  "votes (fold run_vote xs (newDisputedTx t v)) = fold abs_vote xs Map.empty
   \<and> yays (fold run_vote xs (newDisputedTx t v)) = int (card {n. fold abs_vote xs Map.empty n = Some True})
   \<and> nays (fold run_vote xs (newDisputedTx t v)) = int (card {n. fold abs_vote xs Map.empty n = Some False})
   \<and> dtx (fold run_vote xs (newDisputedTx t v)) = t"
proof -
  let ?d = "fold run_vote xs (newDisputedTx t v)"
  have "votes_ok ?d" by (simp add: votes_ok_fold_run_vote)
  moreover have "votes ?d = fold abs_vote xs Map.empty"
    by (simp add: votes_fold_run_vote newDisputedTx_def)
  moreover have "dtx (fold run_vote xs d) = dtx d" for d
    by (induction xs arbitrary: d) auto
  ultimately show ?thesis by (simp add: votes_ok_def newDisputedTx_def)
qed

text \<open>
  C10. The avalanche of votes. With a correct tally, a proposing node that faces a divided vote
  ends with yes exactly when the yes votes (its own included) exceed the threshold percentage of
  all participants; on a unanimous vote it keeps its own. A yes given at some point of the round
  would also have been given at any earlier point: the bar only rises.
\<close>

theorem updateVote_avalanche:
  assumes "votes_ok d" "0 \<le> t1" "t1 \<le> t2" "t2 < 2 ^ 64"
  shows "(ourVote (fst (updateVote d t1 True defaultParms)) \<longleftrightarrow>
      (if ourVote d \<and> nays d = 0 then True
       else if \<not> ourVote d \<and> yays d = 0 then False
       else (int (vote_threshold t1 defaultParms) + 1) * (nays d + yays d + 1)
              \<le> 100 * (yays d + (if ourVote d then 1 else 0))))
    \<and> (ourVote (fst (updateVote d t2 True defaultParms)) \<longrightarrow>
        ourVote (fst (updateVote d t1 True defaultParms)))"
proof -
  have "(int (vote_threshold t1 defaultParms) + 1) * (nays d + yays d + 1)
      \<le> (int (vote_threshold t2 defaultParms) + 1) * (nays d + yays d + 1)"
    using vote_threshold_mono[OF assms(2-4)] votes_ok_nonneg[OF assms(1)]
    by (intro mult_right_mono) auto
  then show ?thesis
    unfolding ourVote_updateVote_proposing[OF assms(1)] by (auto split: if_splits)
qed

definition example_dispute :: DisputedTx where
  "example_dispute = fold run_vote [SetVote 1 True, SetVote 2 True, SetVote 3 True, SetVote 4 False]
     (newDisputedTx \<lparr>txid = 7, txdata = []\<rparr> False)"

lemma example_dispute_ok: "votes_ok example_dispute"
  by (simp add: example_dispute_def votes_ok_setVote)

theorem updateVote_avalanche_witness:
  "votes_ok example_dispute
   \<and> ourVote (fst (updateVote example_dispute 20 True defaultParms))
   \<and> ourVote (fst (updateVote example_dispute 10 True defaultParms))"
proof -
  have "ourVote (fst (updateVote example_dispute 20 True defaultParms))"
    by (simp add: example_dispute_def newDisputedTx_def setVote_def updateVote_def vote_weight_def
        vote_threshold_def defaultParms_def)
  moreover from this have "ourVote (fst (updateVote example_dispute 10 True defaultParms))"
    by (rule updateVote_avalanche[OF example_dispute_ok, of 10 20, THEN conjunct2, THEN mp, rotated -1])
      simp_all
  ultimately show ?thesis using example_dispute_ok by blast
qed

end
