(* ===== verification/Consensus_Round.thy ===== *)
theory Consensus_Round
  imports DisputedTx "HOL-Library.AList" "HOL-Library.Monad_Syntax"
begin

text \<open>
  The generic consensus round, \<^verbatim>\<open>ripple/consensus/Consensus.h\<close> with the types of
  \<^verbatim>\<open>ripple/consensus/ConsensusTypes.h\<close>, handler by handler.

  The class is a template over an adaptor that connects it to the server. Here the adaptor is
  a parameter: a record of functions whose answers may depend on the whole history of calls made
  to it, so nothing is assumed about it where no hypothesis says so. Every call, and every read of
  the steady clock, is recorded in the field \<open>calls\<close>. Hash maps are association lists in
  iteration order, hash sets are sets, \<^verbatim>\<open>boost::optional\<close> is \<^typ>\<open>'a option\<close>.
  A handler returns \<^const>\<open>None\<close> where the code would fail an assertion or dereference
  an empty optional, or where the recursion budget of \<open>timerEntry\<close> is exhausted. Logging
  and the JSON report are left out.
\<close>

section \<open>Data\<close>

datatype ConsensusMode = Proposing | Observing | WrongLedger | SwitchedLedger
datatype ConsensusPhase = Open | Establish | Accepted

text \<open>\<^verbatim>\<open>ConsensusTimer\<close>: steady-clock time points are integers of nanoseconds.\<close>

record ConsensusTimer =
  tstart :: int
  tdur :: millis

definition timer_reset :: "int \<Rightarrow> ConsensusTimer \<Rightarrow> ConsensusTimer" where
  "timer_reset tp tm = tm\<lparr>tstart := tp, tdur := 0\<rparr>"

definition timer_tick :: "int \<Rightarrow> ConsensusTimer \<Rightarrow> ConsensusTimer" where
  "timer_tick tp tm = tm\<lparr>tdur := (tp - tstart tm) sdiv 1000000\<rparr>"

definition timer_tick_fixed :: "millis \<Rightarrow> ConsensusTimer \<Rightarrow> ConsensusTimer" where
  "timer_tick_fixed d tm = tm\<lparr>tdur := tdur tm + d\<rparr>"

record ConsensusCloseTimes =
  ct_peers :: "(net_time \<times> int) list"
  ct_self :: net_time

text \<open>\<^verbatim>\<open>++votes[t]\<close> on an ordered map.\<close>

fun incr_vote :: "net_time \<Rightarrow> (net_time \<times> int) list \<Rightarrow> (net_time \<times> int) list" where
  "incr_vote t [] = [(t, 1)]"
| "incr_vote t ((k, c) # xs) =
     (if t = k then (k, c + 1) # xs
      else if t < k then (t, 1) # (k, c) # xs
      else (k, c) # incr_vote t xs)"

text \<open>A transaction set: its identifier (the root hash) and its items in key order.\<close>

record TxSet =
  setid :: TxSetID
  settxs :: "Tx list"

definition ts_exists :: "TxSet \<Rightarrow> TxID \<Rightarrow> bool" where
  "ts_exists s i = list_ex (\<lambda>t. txid t = i) (settxs s)"

definition ts_find :: "TxSet \<Rightarrow> TxID \<Rightarrow> Tx option" where
  "ts_find s i = find (\<lambda>t. txid t = i) (settxs s)"

fun mts_insert :: "Tx \<Rightarrow> Tx list \<Rightarrow> Tx list" where
  "mts_insert t [] = [t]"
| "mts_insert t (x # xs) =
     (if txid t = txid x then x # xs
      else if txid t < txid x then t # x # xs
      else x # mts_insert t xs)"

definition mts_erase :: "TxID \<Rightarrow> Tx list \<Rightarrow> Tx list" where
  "mts_erase i xs = filter (\<lambda>t. txid t \<noteq> i) xs"

record Ledger =
  lgrId :: LedgerID
  lgrSeq :: uint32
  closeTimeResolution :: uint32
  closeAgree :: bool
  lgrCloseTime :: net_time
  parentCloseTime :: net_time

record ConsensusResult =
  txns :: TxSet
  rposition :: ConsensusProposal
  disputes :: "(TxID \<times> DisputedTx) list"
  compares :: "TxSetID set"
  roundTime :: ConsensusTimer
  rstate :: ConsensusState
  rproposers :: nat

definition newResult :: "TxSet \<Rightarrow> ConsensusProposal \<Rightarrow> ConsensusResult" where
  "newResult s p = \<lparr>txns = s, rposition = p, disputes = [], compares = {},
     roundTime = \<lparr>tstart = 0, tdur = 0\<rparr>, rstate = No, rproposers = 0\<rparr>"

section \<open>The adaptor and the state\<close>

datatype AdaptorCall =
    OnModeChange ConsensusMode ConsensusMode
  | AcquireLedger LedgerID
  | AcquireTxSet TxSetID
  | HasOpenTransactions
  | ProposersValidated LedgerID
  | ProposersFinished Ledger LedgerID
  | GetPrevLedger LedgerID Ledger ConsensusMode
  | OnClose Ledger net_time ConsensusMode
  | OnAccept ConsensusResult Ledger uint32 ConsensusCloseTimes ConsensusMode
  | OnForceAccept ConsensusResult Ledger uint32 ConsensusCloseTimes ConsensusMode
  | Propose ConsensusProposal
  | SharePosition ConsensusProposal
  | ShareTx Tx
  | ShareTxSet TxSet
  | ReadClock

record Adaptor =
  a_parms :: ConsensusParms
  a_clock :: "AdaptorCall list \<Rightarrow> int"
  a_acquireLedger :: "AdaptorCall list \<Rightarrow> LedgerID \<Rightarrow> Ledger option"
  a_acquireTxSet :: "AdaptorCall list \<Rightarrow> TxSetID \<Rightarrow> TxSet option"
  a_hasOpenTransactions :: "AdaptorCall list \<Rightarrow> bool"
  a_proposersValidated :: "AdaptorCall list \<Rightarrow> LedgerID \<Rightarrow> nat"
  a_proposersFinished :: "AdaptorCall list \<Rightarrow> Ledger \<Rightarrow> LedgerID \<Rightarrow> nat"
  a_getPrevLedger :: "AdaptorCall list \<Rightarrow> LedgerID \<Rightarrow> Ledger \<Rightarrow> ConsensusMode \<Rightarrow> LedgerID"
  a_onClose :: "AdaptorCall list \<Rightarrow> Ledger \<Rightarrow> net_time \<Rightarrow> ConsensusMode \<Rightarrow> TxSet \<times> ConsensusProposal"
  a_compare :: "TxSet \<Rightarrow> TxSet \<Rightarrow> (TxID \<times> bool) list"
  a_hash :: "Tx list \<Rightarrow> TxSetID"

record Consensus =
  phase :: ConsensusPhase
  mode :: ConsensusMode
  firstRound :: bool
  haveCloseTimeConsensus :: bool
  convergePercent :: int
  openTime :: ConsensusTimer
  closeResolution :: uint32
  prevRoundTime :: millis
  nowTime :: net_time
  prevCloseTime :: net_time
  prevLedgerID :: LedgerID
  previousLedger :: Ledger
  acquired :: "(TxSetID \<times> TxSet) list"
  result :: "ConsensusResult option"
  rawCloseTimes :: ConsensusCloseTimes
  currPeerPositions :: "(NodeID \<times> ConsensusProposal) list"
  recentPeerPositions :: "(NodeID \<times> ConsensusProposal list) list"
  prevProposers :: nat
  deadNodes :: "NodeID set"
  calls :: "AdaptorCall list"

definition call :: "AdaptorCall \<Rightarrow> Consensus \<Rightarrow> Consensus" where
  "call c st = st\<lparr>calls := calls st @ [c]\<rparr>"

text \<open>\<^verbatim>\<open>MonitoredMode::set\<close>.\<close>

definition set_mode :: "ConsensusMode \<Rightarrow> Consensus \<Rightarrow> Consensus" where
  "set_mode m st = (call (OnModeChange (mode st) m) st)\<lparr>mode := m\<rparr>"

definition upd_result :: "(ConsensusResult \<Rightarrow> ConsensusResult) \<Rightarrow> Consensus \<Rightarrow> Consensus" where
  "upd_result f st = st\<lparr>result := map_option f (result st)\<rparr>"

text \<open>Loops whose body may fail.\<close>

fun foldo :: "('a \<Rightarrow> 's \<Rightarrow> 's option) \<Rightarrow> 'a list \<Rightarrow> 's \<Rightarrow> 's option" where
  "foldo f [] s = Some s"
| "foldo f (x # xs) s = Option.bind (f x s) (foldo f xs)"

definition asCloseTime :: "Adaptor \<Rightarrow> Consensus \<Rightarrow> net_time \<Rightarrow> net_time" where
  "asCloseTime A st raw =
     (if useRoundedCloseTime (a_parms A) then roundCloseTime raw (closeResolution st)
      else effCloseTime raw (closeResolution st) (lgrCloseTime (previousLedger st)))"

section \<open>Disputes\<close>

text \<open>The votes of the peers whose transaction sets are known, for a new dispute.\<close>

definition peerVote :: "(TxSetID \<times> TxSet) list \<Rightarrow> TxID \<Rightarrow> NodeID \<times> ConsensusProposal \<Rightarrow> DisputedTx \<Rightarrow> DisputedTx" where
  "peerVote acq i = (\<lambda>(n, p) d.
     case map_of acq (position p) of None \<Rightarrow> d | Some s \<Rightarrow> setVote d n (ts_exists s i))"

definition peerVotes :: "Consensus \<Rightarrow> TxID \<Rightarrow> DisputedTx \<Rightarrow> DisputedTx" where
  "peerVotes st i d0 = fold (peerVote (acquired st) i) (currPeerPositions st) d0"

definition createDispute :: "TxSet \<Rightarrow> TxID \<times> bool \<Rightarrow> Consensus \<Rightarrow> Consensus option" where
  "createDispute other = (\<lambda>(i, ours) st.
     do { r \<leftarrow> result st;
          t \<leftarrow> (if ours \<and> ts_find (txns r) i \<noteq> None \<and> ts_find other i = None then ts_find (txns r) i
               else if \<not> ours \<and> ts_find (txns r) i = None then ts_find other i
               else None);
          let txID = txid t;
          if map_of (disputes r) txID \<noteq> None then Some st
          else (let d = peerVotes st txID (newDisputedTx t (ts_exists (txns r) txID))
                in Some ((call (ShareTx (dtx d)) st)
                     \<lparr>result := Some (r\<lparr>disputes := disputes r @ [(txID, d)]\<rparr>)\<rparr>)) })"

definition createDisputes :: "Adaptor \<Rightarrow> TxSet \<Rightarrow> Consensus \<Rightarrow> Consensus option" where
  "createDisputes A other st =
     do { r \<leftarrow> result st;
          if setid other \<in> compares r then Some st
          else (let st = st\<lparr>result := Some (r\<lparr>compares := insert (setid other) (compares r)\<rparr>)\<rparr>
                in if setid (txns r) = setid other then Some st
                   else foldo (createDispute other) (a_compare A (txns r) other) st) }"

definition updateDisputes :: "Adaptor \<Rightarrow> NodeID \<Rightarrow> TxSet \<Rightarrow> Consensus \<Rightarrow> Consensus option" where
  "updateDisputes A node other st =
     do { r \<leftarrow> result st;
          st \<leftarrow> (if setid other \<notin> compares r then createDisputes A other st else Some st);
          Some (upd_result (\<lambda>r. r\<lparr>disputes :=
            map (\<lambda>(i, d). (i, setVote d node (ts_exists other (txid (dtx d))))) (disputes r)\<rparr>) st) }"

definition unVoteAll :: "NodeID \<Rightarrow> (TxID \<times> DisputedTx) list \<Rightarrow> (TxID \<times> DisputedTx) list" where
  "unVoteAll peer ds = map (\<lambda>(i, d). (i, unVote d peer)) ds"

section \<open>Messages from the network\<close>

definition gotTxSet :: "Adaptor \<Rightarrow> net_time \<Rightarrow> TxSet \<Rightarrow> Consensus \<Rightarrow> Consensus option" where
  "gotTxSet A now txSet st =
     (if phase st = Accepted then Some st
      else let st = st\<lparr>nowTime := now\<rparr>; i = setid txSet
      in if map_of (acquired st) i \<noteq> None then Some st
         else let st = st\<lparr>acquired := acquired st @ [(i, txSet)]\<rparr>
              in case result st of
                   None \<Rightarrow> Some st
                 | Some r \<Rightarrow>
                     if i = position (rposition r) then None
                     else foldo (\<lambda>(n, p) st. if position p = i then updateDisputes A n txSet st
                                              else Some st)
                            (currPeerPositions st) st)"

text \<open>
  The three parts of \<^verbatim>\<open>peerProposalInternal\<close>: a bow-out, recording the position and
  its close time, and looking up the transaction set of the position.
\<close>

definition peerBowOut :: "NodeID \<Rightarrow> Consensus \<Rightarrow> Consensus" where
  "peerBowOut peerID st =
     (upd_result (\<lambda>r. r\<lparr>disputes := unVoteAll peerID (disputes r)\<rparr>) st)
       \<lparr>currPeerPositions := AList.delete peerID (currPeerPositions st),
        deadNodes := insert peerID (deadNodes st)\<rparr>"

definition storePosition :: "ConsensusProposal \<Rightarrow> Consensus \<Rightarrow> Consensus" where
  "storePosition p st =
     (let st = st\<lparr>currPeerPositions := AList.update (nodeID p) p (currPeerPositions st)\<rparr>
      in if isInitial p
         then st\<lparr>rawCloseTimes := (rawCloseTimes st)
                  \<lparr>ct_peers := incr_vote (closeTime p) (ct_peers (rawCloseTimes st))\<rparr>\<rparr>
         else st)"

definition trackPosition :: "Adaptor \<Rightarrow> net_time \<Rightarrow> ConsensusProposal \<Rightarrow> Consensus \<Rightarrow> Consensus option" where
  "trackPosition A now p st =
     (case map_of (acquired st) (position p) of
        None \<Rightarrow>
          (let st = call (AcquireTxSet (position p)) st
           in case a_acquireTxSet A (calls st) (position p) of
                None \<Rightarrow> Some st
              | Some s \<Rightarrow> gotTxSet A now s st)
      | Some s \<Rightarrow>
          if result st \<noteq> None then updateDisputes A (nodeID p) s st else Some st)"

definition peerProposalInternal ::
  "Adaptor \<Rightarrow> net_time \<Rightarrow> ConsensusProposal \<Rightarrow> Consensus \<Rightarrow> (bool \<times> Consensus) option" where
  "peerProposalInternal A now p st =
     (if phase st = Accepted then Some (False, st)
      else let st = st\<lparr>nowTime := now\<rparr>; peerID = nodeID p
      in if prevLedger p \<noteq> prevLedgerID st then Some (False, st)
         else if peerID \<in> deadNodes st then Some (False, st)
         else if (case map_of (currPeerPositions st) peerID of
                    None \<Rightarrow> False | Some q \<Rightarrow> proposeSeq p \<le> proposeSeq q)
         then Some (False, st)
         else if isBowOut p then Some (True, peerBowOut peerID st)
         else map_option (Pair True) (trackPosition A now p (storePosition p st)))"

definition pushRecent :: "ConsensusProposal \<Rightarrow> Consensus \<Rightarrow> Consensus" where
  "pushRecent p st =
     (let props = (case map_of (recentPeerPositions st) (nodeID p) of None \<Rightarrow> [] | Some ps \<Rightarrow> ps);
          props = (if length props \<ge> 10 then tl props else props)
      in st\<lparr>recentPeerPositions := AList.update (nodeID p) (props @ [p]) (recentPeerPositions st)\<rparr>)"

definition peerProposal ::
  "Adaptor \<Rightarrow> net_time \<Rightarrow> ConsensusProposal \<Rightarrow> Consensus \<Rightarrow> (bool \<times> Consensus) option" where
  "peerProposal A now p st = peerProposalInternal A now p (pushRecent p st)"

definition playbackProposal :: "Adaptor \<Rightarrow> ConsensusProposal \<Rightarrow> Consensus \<Rightarrow> Consensus option" where
  "playbackProposal A p st =
     (if prevLedger p = prevLedgerID st
      then map_option (\<lambda>(relay, st'). if relay then call (SharePosition p) st' else st')
             (peerProposalInternal A (nowTime st) p st)
      else Some st)"

definition playbackProposals :: "Adaptor \<Rightarrow> Consensus \<Rightarrow> Consensus option" where
  "playbackProposals A st =
     foldo (\<lambda>(n, ps). foldo (playbackProposal A) ps) (recentPeerPositions st) st"

section \<open>Changing the round\<close>

definition leaveConsensus :: "Consensus \<Rightarrow> Consensus" where
  "leaveConsensus st =
     (if mode st = Proposing
      then set_mode Observing
             (case result st of
                None \<Rightarrow> st
              | Some r \<Rightarrow>
                  if \<not> isBowOut (rposition r)
                  then let p = bowOut (rposition r) (nowTime st)
                       in call (Propose p) (st\<lparr>result := Some (r\<lparr>rposition := p\<rparr>)\<rparr>)
                  else st)
      else st)"

text \<open>
  \<open>timerEntry\<close>, \<open>checkLedger\<close>, \<open>handleWrongLedger\<close> and
  \<open>startRoundInternal\<close> call each other in a cycle. The argument \<open>timer\<close> of the
  last three is the \<open>timerEntry\<close> they end up in.
\<close>

definition startRoundInternal ::
  "(net_time \<Rightarrow> Consensus \<Rightarrow> Consensus option) \<Rightarrow> Adaptor \<Rightarrow>
     net_time \<Rightarrow> LedgerID \<Rightarrow> Ledger \<Rightarrow> ConsensusMode \<Rightarrow> Consensus \<Rightarrow> Consensus option" where
  "startRoundInternal timer A now lgrID lgr m st =
     (let st = set_mode m (st\<lparr>phase := Open\<rparr>);
          st = call ReadClock (st\<lparr>nowTime := now, prevLedgerID := lgrID, previousLedger := lgr,
                 result := None, convergePercent := 0, haveCloseTimeConsensus := False\<rparr>);
          st = st\<lparr>openTime := timer_reset (a_clock A (calls st)) (openTime st),
                 currPeerPositions := [], acquired := [],
                 rawCloseTimes := \<lparr>ct_peers = [], ct_self = 0\<rparr>, deadNodes := {},
                 closeResolution := getNextLedgerTimeResolution (closeTimeResolution lgr)
                   (closeAgree lgr) (lgrSeq lgr + 1)\<rparr>
      in do { st \<leftarrow> playbackProposals A st;
              if length (currPeerPositions st) > prevProposers st div 2
              then timer (nowTime st) st else Some st })"

definition handleWrongLedger ::
  "(net_time \<Rightarrow> Consensus \<Rightarrow> Consensus option) \<Rightarrow> Adaptor \<Rightarrow> LedgerID \<Rightarrow> Consensus \<Rightarrow> Consensus option" where
  "handleWrongLedger timer A lgr st =
     (if lgr = prevLedgerID st \<and> lgrId (previousLedger st) = lgr then None
      else let st = leaveConsensus st
      in do { st \<leftarrow> (if prevLedgerID st \<noteq> lgr
                     then playbackProposals A
                       ((upd_result (\<lambda>r. r\<lparr>disputes := [], compares := {}\<rparr>) st)
                         \<lparr>prevLedgerID := lgr, currPeerPositions := [],
                          rawCloseTimes := (rawCloseTimes st)\<lparr>ct_peers := []\<rparr>, deadNodes := {}\<rparr>)
                     else Some st);
              if lgrId (previousLedger st) = prevLedgerID st then Some st
              else (let st = call (AcquireLedger (prevLedgerID st)) st
                    in case a_acquireLedger A (calls st) (prevLedgerID st) of
                         Some newLedger \<Rightarrow>
                           startRoundInternal timer A (nowTime st) lgr newLedger SwitchedLedger st
                       | None \<Rightarrow> Some (set_mode WrongLedger st)) })"

definition checkLedger ::
  "(net_time \<Rightarrow> Consensus \<Rightarrow> Consensus option) \<Rightarrow> Adaptor \<Rightarrow> Consensus \<Rightarrow> Consensus option" where
  "checkLedger timer A st =
     (let st = call (GetPrevLedger (prevLedgerID st) (previousLedger st) (mode st)) st;
          netLgr = a_getPrevLedger A (calls st) (prevLedgerID st) (previousLedger st) (mode st)
      in if netLgr \<noteq> prevLedgerID st then handleWrongLedger timer A netLgr st
         else if lgrId (previousLedger st) \<noteq> prevLedgerID st then handleWrongLedger timer A netLgr st
         else Some st)"

section \<open>The phases\<close>

definition closeLedger :: "Adaptor \<Rightarrow> Consensus \<Rightarrow> Consensus option" where
  "closeLedger A st =
     (if result st \<noteq> None then None
      else let st = st\<lparr>phase := Establish, rawCloseTimes := (rawCloseTimes st)\<lparr>ct_self := nowTime st\<rparr>\<rparr>;
               st = call (OnClose (previousLedger st) (nowTime st) (mode st)) st;
               (s, p) = a_onClose A (calls st) (previousLedger st) (nowTime st) (mode st)
      in if setid s \<noteq> position p then None
         else let st = call ReadClock st;
                  r = (newResult s p)\<lparr>roundTime :=
                         timer_reset (a_clock A (calls st)) (roundTime (newResult s p))\<rparr>;
                  st = st\<lparr>result := Some r\<rparr>;
                  st = (if map_of (acquired st) (setid s) = None
                        then call (ShareTxSet s) (st\<lparr>acquired := acquired st @ [(setid s, s)]\<rparr>)
                        else st);
                  st = (if mode st = Proposing then call (Propose p) st else st)
              in foldo (\<lambda>(n, q) st. case map_of (acquired st) (position q) of
                                       None \<Rightarrow> Some st
                                     | Some o' \<Rightarrow> createDisputes A o' st)
                   (currPeerPositions st) st)"

definition sinceClose :: "Consensus \<Rightarrow> millis" where
  "sinceClose st =
     (let prev = previousLedger st;
          previousCloseCorrect = (mode st \<noteq> WrongLedger \<and> closeAgree prev
            \<and> uint (lgrCloseTime prev) \<noteq> uint (parentCloseTime prev) + 1);
          lastCloseTime = (if previousCloseCorrect then lgrCloseTime prev else prevCloseTime st)
      in if nowTime st \<ge> lastCloseTime then uint (nowTime st - lastCloseTime) * 1000
         else - (uint (lastCloseTime - nowTime st) * 1000))"

definition phaseOpen :: "Adaptor \<Rightarrow> Consensus \<Rightarrow> Consensus option" where
  "phaseOpen A st =
     (let st = call HasOpenTransactions st;
          anyTransactions = a_hasOpenTransactions A (calls st);
          proposersClosed = length (currPeerPositions st);
          st = call (ProposersValidated (prevLedgerID st)) st;
          proposersValidated = a_proposersValidated A (calls st) (prevLedgerID st);
          st = call ReadClock st;
          st = st\<lparr>openTime := timer_tick (a_clock A (calls st)) (openTime st)\<rparr>;
          idleInterval = max (ledgerIDLE_INTERVAL (a_parms A))
            (uint (2 * closeTimeResolution (previousLedger st)) * 1000)
      in if shouldCloseLedger anyTransactions (prevProposers st) proposersClosed proposersValidated
              (prevRoundTime st) (sinceClose st) (tdur (openTime st)) idleInterval (a_parms A)
         then closeLedger A st else Some st)"

definition participantsNeeded :: "int \<Rightarrow> int \<Rightarrow> int" where
  "participantsNeeded participants percent =
     (let res = ((participants * percent) + (percent sdiv 2)) sdiv 100
      in if res = 0 then 1 else res)"

text \<open>Dropping stale positions and counting the close times of the others.\<close>

fun checkFreshness ::
  "net_time \<Rightarrow> (net_time \<Rightarrow> net_time) \<Rightarrow> (NodeID \<times> ConsensusProposal) list \<Rightarrow>
     (TxID \<times> DisputedTx) list \<Rightarrow> (net_time \<times> int) list \<Rightarrow>
     (NodeID \<times> ConsensusProposal) list \<times> (TxID \<times> DisputedTx) list \<times> (net_time \<times> int) list" where
  "checkFreshness cutoff act [] ds v = ([], ds, v)"
| "checkFreshness cutoff act ((n, p) # ps) ds v =
     (if isStale p cutoff then checkFreshness cutoff act ps (unVoteAll (nodeID p) ds) v
      else let (ps', ds', v') = checkFreshness cutoff act ps ds (incr_vote (act (closeTime p)) v)
           in ((n, p) # ps', ds', v'))"

text \<open>Updating our votes; the mutable copy of the set is made at the first change.\<close>

fun updateVotes ::
  "int \<Rightarrow> bool \<Rightarrow> ConsensusParms \<Rightarrow> Tx list \<Rightarrow> (TxID \<times> DisputedTx) list \<Rightarrow> Tx list option \<Rightarrow>
     (TxID \<times> DisputedTx) list \<times> Tx list option" where
  "updateVotes pct proposing parms base [] ms = ([], ms)"
| "updateVotes pct proposing parms base ((i, d) # ds) ms =
     (let (d', changed) = updateVote d pct proposing parms;
          ms' = (if changed
                 then let m = (case ms of None \<Rightarrow> base | Some m \<Rightarrow> m)
                      in Some (if ourVote d' then mts_insert (dtx d') m else mts_erase i m)
                 else ms);
          (ds', ms'') = updateVotes pct proposing parms base ds ms'
      in ((i, d') # ds', ms''))"

text \<open>The scan of the close-time votes in time order: agreed time, its votes, consensus flag.\<close>

fun scanCloseTimes ::
  "int \<Rightarrow> (net_time \<times> int) list \<Rightarrow> net_time \<times> int \<times> bool \<Rightarrow> net_time \<times> int \<times> bool" where
  "scanCloseTimes threshConsensus [] acc = acc"
| "scanCloseTimes threshConsensus ((t, c) # vs) (cct, threshVote, have) =
     (if c \<ge> threshVote
      then scanCloseTimes threshConsensus vs (t, c, have \<or> c \<ge> threshConsensus)
      else scanCloseTimes threshConsensus vs (cct, threshVote, have))"

definition closeTimeConsensus ::
  "Adaptor \<Rightarrow> Consensus \<Rightarrow> ConsensusResult \<Rightarrow> (net_time \<times> int) list \<Rightarrow> net_time \<times> bool" where
  "closeTimeConsensus A st r closeTimeVotes =
     (if currPeerPositions st = [] then (asCloseTime A st (closeTime (rposition r)), True)
      else let parms = a_parms A;
               neededWeight = vote_threshold (convergePercent st) parms;
               proposing = (mode st = Proposing);
               closeTimeVotes = (if proposing
                 then incr_vote (asCloseTime A st (closeTime (rposition r))) closeTimeVotes
                 else closeTimeVotes);
               participants = int (length (currPeerPositions st)) + (if proposing then 1 else 0);
               threshVote = participantsNeeded participants (int neededWeight);
               threshConsensus = participantsNeeded participants (int (avCT_CONSENSUS_PCT parms));
               (cct, _, have) = scanCloseTimes threshConsensus closeTimeVotes (0, threshVote, False)
           in (cct, have))"

text \<open>Taking the new position: the second half of \<^verbatim>\<open>updateOurPositions\<close>.\<close>

definition takePosition :: "Adaptor \<Rightarrow> TxSet \<Rightarrow> net_time \<Rightarrow> Consensus \<Rightarrow> Consensus option" where
  "takePosition A newSet consensusCloseTime st =
     do { r \<leftarrow> result st;
          let newID = setid newSet;
          let r = r\<lparr>txns := newSet,
                    rposition := changePosition (rposition r) newID consensusCloseTime (nowTime st)\<rparr>;
          let st = st\<lparr>result := Some r\<rparr>;
          st \<leftarrow> (if map_of (acquired st) newID = None
                then (let st = st\<lparr>acquired := acquired st @ [(newID, newSet)]\<rparr>;
                          st = (if \<not> isBowOut (rposition r) then call (ShareTxSet newSet) st else st)
                      in foldo (\<lambda>(n, p) st. if position p = newID then updateDisputes A n newSet st
                                               else Some st)
                           (currPeerPositions st) st)
                else Some st);
          r \<leftarrow> result st;
          Some (if \<not> isBowOut (rposition r) \<and> mode st = Proposing
                then call (Propose (rposition r)) st else st) }"

definition updateOurPositions :: "Adaptor \<Rightarrow> Consensus \<Rightarrow> Consensus option" where
  "updateOurPositions A st =
     do { r \<leftarrow> result st;
          let parms = a_parms A;
          let peerCutoff = nowTime st - of_nat (proposeFRESHNESS parms);
          let ourCutoff = nowTime st - of_nat (proposeINTERVAL parms);
          let (peers, ds, closeTimeVotes) =
            checkFreshness peerCutoff (asCloseTime A st) (currPeerPositions st) (disputes r) [];
          let (ds, mutableSet) =
            updateVotes (convergePercent st) (mode st = Proposing) parms (settxs (txns r)) ds None;
          let r = r\<lparr>disputes := ds\<rparr>;
          let ourNewSet = map_option (\<lambda>m. \<lparr>setid = a_hash A m, settxs = m\<rparr>) mutableSet;
          let st = st\<lparr>currPeerPositions := peers, result := Some r\<rparr>;
          let (consensusCloseTime, have) = closeTimeConsensus A st r closeTimeVotes;
          let st = st\<lparr>haveCloseTimeConsensus := have\<rparr>;
          let ourNewSet =
            (if ourNewSet = None
                \<and> (consensusCloseTime \<noteq> asCloseTime A st (closeTime (rposition r))
                   \<or> isStale (rposition r) ourCutoff)
             then Some (txns r) else ourNewSet);
          case ourNewSet of
            None \<Rightarrow> Some st
          | Some newSet \<Rightarrow> takePosition A newSet consensusCloseTime st }"

definition haveConsensus :: "Adaptor \<Rightarrow> Consensus \<Rightarrow> (bool \<times> Consensus) option" where
  "haveConsensus A st =
     do { r \<leftarrow> result st;
          let ourPosition = position (rposition r);
          let agree = length (filter (\<lambda>(n, p). position p = ourPosition) (currPeerPositions st));
          let disagree = length (filter (\<lambda>(n, p). position p \<noteq> ourPosition) (currPeerPositions st));
          let st = call (ProposersFinished (previousLedger st) (prevLedgerID st)) st;
          let currentFinished =
            a_proposersFinished A (calls st) (previousLedger st) (prevLedgerID st);
          let s = checkConsensus (prevProposers st) (agree + disagree) agree currentFinished
                    (prevRoundTime st) (tdur (roundTime r)) (a_parms A) (mode st = Proposing);
          Some (s \<noteq> No, st\<lparr>result := Some (r\<lparr>rstate := s\<rparr>)\<rparr>) }"

definition phaseEstablish :: "Adaptor \<Rightarrow> Consensus \<Rightarrow> Consensus option" where
  "phaseEstablish A st =
     do { r \<leftarrow> result st;
          let parms = a_parms A;
          let st = call ReadClock st;
          let r = r\<lparr>roundTime := timer_tick (a_clock A (calls st)) (roundTime r),
                    rproposers := length (currPeerPositions st)\<rparr>;
          let st = st\<lparr>result := Some r,
                      convergePercent := signed_take_bit 31
                        ((tdur (roundTime r) * 100) sdiv
                           max (prevRoundTime st) (avMIN_CONSENSUS_TIME parms))\<rparr>;
          if tdur (roundTime r) < ledgerMIN_CONSENSUS parms then Some st
          else do { st \<leftarrow> updateOurPositions A st;
                    (ok, st) \<leftarrow> haveConsensus A st;
                    if \<not> ok then Some st
                    else if \<not> haveCloseTimeConsensus st then Some st
                    else do { r \<leftarrow> result st;
                              let st = st\<lparr>prevProposers := length (currPeerPositions st),
                                          prevRoundTime := tdur (roundTime r), phase := Accepted\<rparr>;
                              Some (call (OnAccept r (previousLedger st) (closeResolution st)
                                            (rawCloseTimes st) (mode st)) st) } } }"

primrec timerEntry :: "nat \<Rightarrow> Adaptor \<Rightarrow> net_time \<Rightarrow> Consensus \<Rightarrow> Consensus option" where
  "timerEntry 0 A now st = None"
| "timerEntry (Suc fuel) A now st =
     (if phase st = Accepted then Some st
      else do { st \<leftarrow> checkLedger (timerEntry fuel A) A (st\<lparr>nowTime := now\<rparr>);
                if phase st = Open then phaseOpen A st
                else if phase st = Establish then phaseEstablish A st
                else Some st })"

definition startRound ::
  "nat \<Rightarrow> Adaptor \<Rightarrow> net_time \<Rightarrow> LedgerID \<Rightarrow> Ledger \<Rightarrow> NodeID list \<Rightarrow> bool \<Rightarrow> Consensus \<Rightarrow> Consensus option" where
  "startRound fuel A now lgrID lgr nowUntrusted proposing st =
     (let st = (if firstRound st
                then st\<lparr>prevRoundTime := ledgerIDLE_INTERVAL (a_parms A),
                        prevCloseTime := lgrCloseTime lgr, firstRound := False\<rparr>
                else st\<lparr>prevCloseTime := ct_self (rawCloseTimes st)\<rparr>);
          st = st\<lparr>recentPeerPositions := fold AList.delete nowUntrusted (recentPeerPositions st)\<rparr>;
          startMode = (if proposing then Proposing else Observing)
      in if lgrId lgr \<noteq> lgrID
         then let st = call (AcquireLedger lgrID) st
              in case a_acquireLedger A (calls st) lgrID of
                   Some newLedger \<Rightarrow>
                     startRoundInternal (timerEntry fuel A) A now lgrID newLedger startMode st
                 | None \<Rightarrow> startRoundInternal (timerEntry fuel A) A now lgrID lgr WrongLedger st
         else startRoundInternal (timerEntry fuel A) A now lgrID lgr startMode st)"

definition simulate :: "Adaptor \<Rightarrow> net_time \<Rightarrow> millis option \<Rightarrow> Consensus \<Rightarrow> Consensus option" where
  "simulate A now consensusDelay st =
     do { st \<leftarrow> closeLedger A (st\<lparr>nowTime := now\<rparr>);
          r \<leftarrow> result st;
          let r = r\<lparr>roundTime := timer_tick_fixed (case consensusDelay of None \<Rightarrow> 100 | Some d \<Rightarrow> d)
                      (roundTime r),
                    rproposers := length (currPeerPositions st)\<rparr>;
          let st = st\<lparr>result := Some r, prevProposers := length (currPeerPositions st),
                      prevRoundTime := tdur (roundTime r), phase := Accepted\<rparr>;
          Some (call (OnForceAccept r (previousLedger st) (closeResolution st)
                        (rawCloseTimes st) (mode st)) st) }"

end
