(* ===== verification/Consensus_Invariant.thy ===== *)
theory Consensus_Invariant
  imports Consensus_Round
begin

text \<open>
  What holds between the handlers of a consensus round. The invariant ties the phase to the
  existence of a position, the peer table to the working ledger and the dead nodes, and every
  dispute to the peer positions: the recorded votes are those of the current peers, up to date
  with every peer transaction set that has been acquired, and our own vote on a disputed
  transaction is whether our position contains it. All handlers keep it and none of them fails
  an assertion.

  The lemmas on handlers are proved in the locale \<open>dispute_invariant\<close>, for any property
  of disputes that the operations on disputes keep.
\<close>

section \<open>The invariant\<close>

definition peers_ok :: "(NodeID \<times> ConsensusProposal) list \<Rightarrow> LedgerID \<Rightarrow> NodeID set \<Rightarrow> bool" where
  "peers_ok peers lid dead \<longleftrightarrow> distinct (map fst peers)
     \<and> (\<forall>n p. (n, p) \<in> set peers \<longrightarrow> n = nodeID p \<and> prevLedger p = lid \<and> n \<notin> dead)"

text \<open>
  \<open>E\<close> is the set of peers whose votes are about to be refreshed; it is empty between
  handlers.
\<close>

definition dispute_ok ::
  "(DisputedTx \<Rightarrow> bool) \<Rightarrow> (TxSetID \<times> TxSet) list \<Rightarrow> (NodeID \<times> ConsensusProposal) list \<Rightarrow> NodeID set \<Rightarrow>
     TxSet \<Rightarrow> TxID \<times> DisputedTx \<Rightarrow> bool" where
  "dispute_ok P acq peers E s = (\<lambda>(i, d).
     i = txid (dtx d) \<and> P d \<and> ourVote d = ts_exists s i
     \<and> dom (votes d) \<subseteq> fst ` set peers
     \<and> (\<forall>n p o'. (n, p) \<in> set peers \<longrightarrow> n \<notin> E \<longrightarrow> map_of acq (position p) = Some o' \<longrightarrow>
          votes d n = Some (ts_exists o' i)))"

definition result_ok ::
  "(DisputedTx \<Rightarrow> bool) \<Rightarrow> (TxSetID \<times> TxSet) list \<Rightarrow> (NodeID \<times> ConsensusProposal) list \<Rightarrow> NodeID set \<Rightarrow>
     ConsensusResult \<Rightarrow> bool" where
  "result_ok P acq peers E r \<longleftrightarrow>
     setid (txns r) = position (rposition r)
     \<and> map_of acq (position (rposition r)) \<noteq> None
     \<and> distinct (map fst (disputes r))
     \<and> (\<forall>x \<in> set (disputes r). dispute_ok P acq peers E (txns r) x)"

definition recent_ok :: "(NodeID \<times> ConsensusProposal list) list \<Rightarrow> bool" where
  "recent_ok rec \<longleftrightarrow> distinct (map fst rec)
     \<and> (\<forall>n ps. (n, ps) \<in> set rec \<longrightarrow> length ps \<le> 10 \<and> (\<forall>p \<in> set ps. nodeID p = n))"

definition cons_inv_exc :: "(DisputedTx \<Rightarrow> bool) \<Rightarrow> NodeID set \<Rightarrow> Consensus \<Rightarrow> bool" where
  "cons_inv_exc P E st \<longleftrightarrow>
     (phase st = Open \<longrightarrow> result st = None)
     \<and> (phase st = Establish \<longrightarrow> result st \<noteq> None)
     \<and> peers_ok (currPeerPositions st) (prevLedgerID st) (deadNodes st)
     \<and> recent_ok (recentPeerPositions st)
     \<and> (\<forall>r. result st = Some r \<longrightarrow> result_ok P (acquired st) (currPeerPositions st) E r)"

definition cons_inv :: "(DisputedTx \<Rightarrow> bool) \<Rightarrow> Consensus \<Rightarrow> bool" where
  "cons_inv P = cons_inv_exc P {}"

text \<open>What the round relies on in its adaptor.\<close>

definition compare_ok :: "Adaptor \<Rightarrow> bool" where
  "compare_ok A \<longleftrightarrow> (\<forall>a b i ours. (i, ours) \<in> set (a_compare A a b) \<longrightarrow>
     (if ours then ts_exists a i \<and> \<not> ts_exists b i else \<not> ts_exists a i \<and> ts_exists b i))"

definition onClose_ok :: "Adaptor \<Rightarrow> bool" where
  "onClose_ok A \<longleftrightarrow> (\<forall>cs L t m. setid (fst (a_onClose A cs L t m)) = position (snd (a_onClose A cs L t m)))"

section \<open>Transaction sets\<close>

lemma ts_exists_iff: "ts_exists s i \<longleftrightarrow> i \<in> txid ` set (settxs s)"
  by (auto simp: ts_exists_def list_ex_iff)

lemma ts_find_None [simp]: "ts_find s i = None \<longleftrightarrow> \<not> ts_exists s i"
  by (auto simp: ts_find_def ts_exists_iff find_None_iff)

lemma ts_find_ex [simp]: "(\<exists>t. ts_find s i = Some t) \<longleftrightarrow> ts_exists s i"
  using ts_find_None[of s i] by (metis not_None_eq)

lemma ts_find_Some: "ts_find s i = Some t \<Longrightarrow> txid t = i \<and> t \<in> set (settxs s)"
  by (auto simp: ts_find_def find_Some_iff)

lemma ids_mts_insert [simp]: "txid ` set (mts_insert t xs) = insert (txid t) (txid ` set xs)"
  by (induction xs) auto

lemma ids_mts_erase [simp]: "txid ` set (mts_erase i xs) = txid ` set xs - {i}"
  by (auto simp: mts_erase_def)

section \<open>Association lists\<close>

lemma map_fst_comp [simp]: "map (fst \<circ> (\<lambda>(i, d). (i, f i d))) xs = map fst xs"
  by (auto simp: comp_def case_prod_beta)

lemma in_set_delete [simp]: "(m, q) \<in> set (AList.delete n xs) \<longleftrightarrow> m \<noteq> n \<and> (m, q) \<in> set xs"
  by (auto simp: AList.delete_eq)

lemma keys_delete [simp]: "fst ` set (AList.delete n xs) = fst ` set xs - {n}"
  by (auto simp: AList.delete_eq image_iff)

lemma keys_update [simp]: "fst ` set (AList.update n p xs) = insert n (fst ` set xs)"
  by (metis dom_map_of_conv_image_fst update_conv' dom_fun_upd option.distinct(1))

lemma in_set_update [simp]:
  "distinct (map fst xs) \<Longrightarrow>
     (m, q) \<in> set (AList.update n p xs) \<longleftrightarrow> (if m = n then q = p else (m, q) \<in> set xs)"
  by (metis AList.distinct_update fun_upd_apply map_of_eq_Some_iff option.inject update_conv')

section \<open>Loops\<close>

lemma foldo_append: "foldo f (xs @ ys) s = Option.bind (foldo f xs s) (foldo f ys)"
  by (induction xs arbitrary: s) (auto split: bind_split)

lemma foldo_invariant:
  assumes "I s" "\<And>x s. x \<in> set xs \<Longrightarrow> I s \<Longrightarrow> \<exists>s'. f x s = Some s' \<and> I s'"
  shows "\<exists>s'. foldo f xs s = Some s' \<and> I s'"
  using assms
proof (induction xs arbitrary: s)
  case (Cons x xs)
  obtain s1 where "f x s = Some s1" "I s1" using Cons.prems by auto
  moreover have "\<exists>s'. foldo f xs s1 = Some s' \<and> I s'"
    using \<open>I s1\<close> Cons.prems(2) by (intro Cons.IH) auto
  ultimately show ?case by auto
qed simp

section \<open>Creating disputes\<close>

text \<open>A state that differs only in the disputes and compared sets of its result, and in the log.\<close>

definition same_position :: "Consensus \<Rightarrow> Consensus \<Rightarrow> bool" where
  "same_position st st' \<longleftrightarrow> (\<exists>r r' cs. result st = Some r
     \<and> txns r' = txns r \<and> rposition r' = rposition r \<and> roundTime r' = roundTime r
     \<and> compares r \<subseteq> compares r'
     \<and> st' = st\<lparr>result := Some r', calls := cs\<rparr>)"

lemma same_position_refl: "result st = Some r \<Longrightarrow> same_position st st"
  unfolding same_position_def by (intro exI[of _ r] exI[of _ "calls st"]) simp

lemma same_position_trans:
  assumes "same_position a b" "same_position b c"
  shows "same_position a c"
proof -
  obtain r r' cs where 1: "result a = Some r" "txns r' = txns r" "rposition r' = rposition r"
    "roundTime r' = roundTime r" "compares r \<subseteq> compares r'" "b = a\<lparr>result := Some r', calls := cs\<rparr>"
    using assms(1) unfolding same_position_def by blast
  obtain r'' ds where 2: "txns r'' = txns r'" "rposition r'' = rposition r'"
    "roundTime r'' = roundTime r'" "compares r' \<subseteq> compares r''" "c = b\<lparr>result := Some r'', calls := ds\<rparr>"
    using assms(2) 1(6) unfolding same_position_def by auto
  have "c = a\<lparr>result := Some r'', calls := ds\<rparr>" unfolding 2(5) 1(6) by simp
  moreover have "compares r \<subseteq> compares r''" using 1(5) 2(4) by (rule subset_trans)
  ultimately show ?thesis
    unfolding same_position_def using 1(1-4) 2(1-3)
    by (intro exI[of _ r] exI[of _ r''] exI[of _ ds] conjI; (assumption | simp only:))
qed

lemma same_position_frame:
  assumes "same_position st st'"
  shows "phase st' = phase st" "mode st' = mode st" "currPeerPositions st' = currPeerPositions st"
    "recentPeerPositions st' = recentPeerPositions st" "acquired st' = acquired st"
    "deadNodes st' = deadNodes st" "prevLedgerID st' = prevLedgerID st" "nowTime st' = nowTime st"
    "previousLedger st' = previousLedger st" "closeResolution st' = closeResolution st"
    "rawCloseTimes st' = rawCloseTimes st" "haveCloseTimeConsensus st' = haveCloseTimeConsensus st"
    "prevProposers st' = prevProposers st" "prevRoundTime st' = prevRoundTime st"
    "convergePercent st' = convergePercent st"
  using assms unfolding same_position_def by (elim exE conjE; simp)+

text \<open>A step that keeps our position and leaves its disputes well-formed.\<close>

definition disputing :: "(DisputedTx \<Rightarrow> bool) \<Rightarrow> NodeID set \<Rightarrow> Consensus \<Rightarrow> Consensus \<Rightarrow> bool" where
  "disputing P E st st' \<longleftrightarrow> same_position st st'
     \<and> (\<exists>r'. result st' = Some r' \<and> result_ok P (acquired st) (currPeerPositions st) E r')"

lemma votes_peerVote:
  "votes (peerVote acq i (n, p) d) =
     (case map_of acq (position p) of None \<Rightarrow> votes d | Some s \<Rightarrow> (votes d)(n \<mapsto> ts_exists s i))"
  by (simp add: peerVote_def split: option.split)

lemma peerVote_frame [simp]:
  "dtx (peerVote acq i x d) = dtx d" "ourVote (peerVote acq i x d) = ourVote d"
  by (cases x; simp add: peerVote_def split: option.split)+

lemma peerVotes_frame [simp]:
  "dtx (peerVotes st i d) = dtx d" "ourVote (peerVotes st i d) = ourVote d"
proof -
  have "dtx (fold (peerVote acq i) xs d) = dtx d" "ourVote (fold (peerVote acq i) xs d) = ourVote d"
    for acq xs by (induction xs arbitrary: d) auto
  then show "dtx (peerVotes st i d) = dtx d" "ourVote (peerVotes st i d) = ourVote d"
    by (simp_all add: peerVotes_def)
qed

lemma votes_fold_peerVote:
  "distinct (map fst xs) \<Longrightarrow> votes (fold (peerVote acq i) xs d) n =
     (case map_of xs n of
        None \<Rightarrow> votes d n
      | Some p \<Rightarrow> (case map_of acq (position p) of None \<Rightarrow> votes d n | Some s \<Rightarrow> Some (ts_exists s i)))"
proof (induction xs arbitrary: d)
  case (Cons x xs)
  obtain m p where x: "x = (m, p)" by (cases x)
  have "map_of xs m = None" using Cons.prems x by (simp add: map_of_eq_None_iff)
  with Cons x show ?case by (simp add: votes_peerVote split: option.split)
qed simp

lemma votes_peerVotes:
  assumes "distinct (map fst (currPeerPositions st))" "votes d0 = Map.empty"
  shows "votes (peerVotes st i d0) n =
    (case map_of (currPeerPositions st) n of
       None \<Rightarrow> None
     | Some p \<Rightarrow> map_option (\<lambda>s. ts_exists s i) (map_of (acquired st) (position p)))"
  using votes_fold_peerVote[OF assms(1), of "acquired st" i d0 n]
  by (simp add: peerVotes_def assms(2) split: option.splits)

context dispute_invariant
begin

lemma P_peerVote: "P d \<Longrightarrow> P (peerVote acq i x d)"
  by (cases x) (simp add: peerVote_def P_setVote split: option.split)

lemma P_peerVotes: "P d \<Longrightarrow> P (peerVotes st i d)"
proof -
  have "P d \<Longrightarrow> P (fold (peerVote acq i) xs d)" for acq xs d
    by (induction xs arbitrary: d) (auto intro: P_peerVote)
  then show "P d \<Longrightarrow> P (peerVotes st i d)" by (simp add: peerVotes_def)
qed

lemma new_dispute_ok:
  assumes "distinct (map fst (currPeerPositions st))"
  shows "dispute_ok P (acquired st) (currPeerPositions st) E s
    (txid t, peerVotes st (txid t) (newDisputedTx t (ts_exists s (txid t))))"
proof -
  let ?d = "peerVotes st (txid t) (newDisputedTx t (ts_exists s (txid t)))"
  have v: "votes ?d n = (case map_of (currPeerPositions st) n of None \<Rightarrow> None
     | Some p \<Rightarrow> map_option (\<lambda>s. ts_exists s (txid t)) (map_of (acquired st) (position p)))" for n
    using assms by (rule votes_peerVotes) (simp add: newDisputedTx_def)
  have "dom (votes ?d) \<subseteq> fst ` set (currPeerPositions st)"
  proof
    fix n assume "n \<in> dom (votes ?d)"
    then have "map_of (currPeerPositions st) n \<noteq> None" using v[of n] by (auto split: option.splits)
    then show "n \<in> fst ` set (currPeerPositions st)" by (simp add: map_of_eq_None_iff)
  qed
  moreover have "votes ?d n = Some (ts_exists o' (txid t))"
    if "(n, p) \<in> set (currPeerPositions st)" "map_of (acquired st) (position p) = Some o'" for n p o'
    using that v[of n] map_of_is_SomeI[OF assms that(1)] by simp
  ultimately show ?thesis
    by (auto simp: dispute_ok_def newDisputedTx_def P_peerVotes[OF P_new, unfolded newDisputedTx_def])
qed

lemma createDispute_ok:
  assumes r: "result st = Some r"
    and ok: "result_ok P (acquired st) (currPeerPositions st) E r"
    and d: "distinct (map fst (currPeerPositions st))"
    and cmp: "if ours then ts_exists (txns r) i \<and> \<not> ts_exists other i
              else \<not> ts_exists (txns r) i \<and> ts_exists other i"
  shows "\<exists>st'. createDispute other (i, ours) st = Some st' \<and> disputing P E st st'"
proof -
  have "\<exists>t. (if ours \<and> ts_find (txns r) i \<noteq> None \<and> ts_find other i = None then ts_find (txns r) i
      else if \<not> ours \<and> ts_find (txns r) i = None then ts_find other i else None) = Some t"
    using cmp by (cases ours) simp_all
  then obtain t where t: "(if ours \<and> ts_find (txns r) i \<noteq> None \<and> ts_find other i = None then ts_find (txns r) i
      else if \<not> ours \<and> ts_find (txns r) i = None then ts_find other i else None) = Some t" ..
  let ?d = "peerVotes st (txid t) (newDisputedTx t (ts_exists (txns r) (txid t)))"
  let ?r = "r\<lparr>disputes := disputes r @ [(txid t, ?d)]\<rparr>"
  let ?st = "st\<lparr>result := Some ?r, calls := calls st @ [ShareTx (dtx ?d)]\<rparr>"
  show ?thesis
  proof (cases "map_of (disputes r) (txid t) = None")
    case True
    have "createDispute other (i, ours) st = Some ?st"
      unfolding createDispute_def prod.case r bind.bind_lunit t Let_def call_def using True by simp
    moreover have "same_position st ?st"
      unfolding same_position_def
      by (rule exI[of _ r], rule exI[of _ ?r], rule exI[of _ "calls st @ [ShareTx (dtx ?d)]"]) (simp add: r)
    moreover have "result_ok P (acquired st) (currPeerPositions st) E ?r"
      using ok True new_dispute_ok[OF d, of E "txns r" t] unfolding result_ok_def
      by (simp add: map_of_eq_None_iff)
    moreover have "result ?st = Some ?r" by simp
    ultimately show ?thesis unfolding disputing_def by blast
  next
    case False
    then have "createDispute other (i, ours) st = Some st"
      unfolding createDispute_def prod.case r bind.bind_lunit t Let_def by simp
    then show ?thesis using ok r same_position_refl[OF r] unfolding disputing_def by blast
  qed
qed

lemma disputing_refl:
  "result st = Some r \<Longrightarrow> result_ok P (acquired st) (currPeerPositions st) E r \<Longrightarrow> disputing P E st st"
  by (auto simp: disputing_def same_position_refl)

lemma disputing_trans: "disputing P E st st' \<Longrightarrow> disputing P E' st' st'' \<Longrightarrow> disputing P E' st st''"
  unfolding disputing_def by (metis same_position_trans same_position_frame(3,5))

lemma createDisputes_ok:
  assumes A: "compare_ok A" and r: "result st = Some r"
    and ok: "result_ok P (acquired st) (currPeerPositions st) E r"
    and d: "distinct (map fst (currPeerPositions st))"
  shows "\<exists>st'. createDisputes A other st = Some st' \<and> disputing P E st st'"
proof (cases "setid other \<in> compares r")
  case True
  then show ?thesis using r ok by (auto simp: createDisputes_def intro: disputing_refl)
next
  case False
  let ?r = "r\<lparr>compares := insert (setid other) (compares r)\<rparr>"
  let ?st = "st\<lparr>result := Some ?r\<rparr>"
  have sp: "same_position st ?st"
    unfolding same_position_def by (intro exI[of _ r] exI[of _ ?r] exI[of _ "calls st"]) (auto simp: r)
  have base: "disputing P E st ?st"
    using ok sp by (auto simp: disputing_def result_ok_def)
  have "\<exists>st'. foldo (createDispute other) (a_compare A (txns r) other) ?st = Some st' \<and> disputing P E st st'"
  proof (rule foldo_invariant[where I = "disputing P E st", OF base])
    fix x s assume x: "x \<in> set (a_compare A (txns r) other)" and I: "disputing P E st s"
    obtain i ours where xi: "x = (i, ours)" by (cases x)
    obtain r' where r': "result s = Some r'" "result_ok P (acquired st) (currPeerPositions st) E r'"
      using I by (auto simp: disputing_def)
    have sps: "same_position st s" using I by (simp add: disputing_def)
    then have "txns r' = txns r" using r r'(1) by (auto simp: same_position_def)
    then have "if ours then ts_exists (txns r') i \<and> \<not> ts_exists other i
              else \<not> ts_exists (txns r') i \<and> ts_exists other i"
      using A x xi unfolding compare_ok_def by auto
    then obtain s' where "createDispute other (i, ours) s = Some s'" "disputing P E s s'"
      using createDispute_ok[OF r'(1), of E ours i other] r'(2) d
      unfolding same_position_frame[OF sps] by blast
    then show "\<exists>s'. createDispute other x s = Some s' \<and> disputing P E st s'"
      using I xi disputing_trans by blast
  qed
  then show ?thesis using False r base by (simp add: createDisputes_def Let_def)
qed

lemma setVote_dispute_ok:
  assumes ok: "dispute_ok P acq peers E s (i, d)" and d: "distinct (map fst peers)"
    and n: "(n, p) \<in> set peers" "map_of acq (position p) = Some other"
  shows "dispute_ok P acq peers (E - {n}) s (i, setVote d n (ts_exists other (txid (dtx d))))"
proof -
  have i: "i = txid (dtx d)" using ok by (simp add: dispute_ok_def)
  have "votes (setVote d n (ts_exists other i)) m = Some (ts_exists o' i)"
    if "(m, q) \<in> set peers" "m \<notin> E - {n}" "map_of acq (position q) = Some o'" for m q o'
  proof (cases "m = n")
    case True
    then have "q = p" using d n(1) that(1) by (metis map_of_is_SomeI option.inject)
    then show ?thesis using True n(2) that(3) by simp
  next
    case False
    then show ?thesis using ok that by (auto simp: dispute_ok_def)
  qed
  moreover have "n \<in> fst ` set peers" using n(1) by force
  ultimately show ?thesis
    using ok P_setVote unfolding dispute_ok_def i[symmetric] prod.case by (simp add: i[symmetric])
qed

lemma updateDisputes_ok:
  assumes A: "compare_ok A" and r: "result st = Some r"
    and ok: "result_ok P (acquired st) (currPeerPositions st) E r"
    and d: "distinct (map fst (currPeerPositions st))"
    and n: "(n, p) \<in> set (currPeerPositions st)" "map_of (acquired st) (position p) = Some other"
  shows "\<exists>st'. updateDisputes A n other st = Some st' \<and> disputing P (E - {n}) st st'"
proof -
  obtain s where s: "(if setid other \<notin> compares r then createDisputes A other st else Some st) = Some s"
    "disputing P E st s"
    using createDisputes_ok[OF A r ok d, of other] disputing_refl[OF r ok]
    by (cases "setid other \<in> compares r") auto
  obtain r' where r': "result s = Some r'" "result_ok P (acquired st) (currPeerPositions st) E r'"
    using s(2) by (auto simp: disputing_def)
  let ?f = "\<lambda>r. r\<lparr>disputes :=
      map (\<lambda>(i, d). (i, setVote d n (ts_exists other (txid (dtx d))))) (disputes r)\<rparr>"
  have fst: "map fst (disputes (?f r')) = map fst (disputes r')" by (auto simp: case_prod_beta)
  have "result_ok P (acquired st) (currPeerPositions st) (E - {n}) (?f r')"
    using r'(2) setVote_dispute_ok[OF _ d n, of E "txns r'"] fst unfolding result_ok_def by auto
  moreover have "same_position s (upd_result ?f s)"
    unfolding same_position_def upd_result_def
    by (intro exI[of _ r'] exI[of _ "?f r'"] exI[of _ "calls s"]) (simp add: r')
  ultimately have "disputing P (E - {n}) st (upd_result ?f s)"
    using s(2) r'(1) same_position_trans by (auto simp: disputing_def upd_result_def)
  then show ?thesis using s(1) r by (auto simp: updateDisputes_def)
qed

end

section \<open>Messages\<close>

text \<open>The parts of the state that messages never change.\<close>

definition round_frame :: "Consensus \<Rightarrow> Consensus \<Rightarrow> bool" where
  "round_frame st st' \<longleftrightarrow> phase st' = phase st \<and> mode st' = mode st
     \<and> prevLedgerID st' = prevLedgerID st \<and> previousLedger st' = previousLedger st
     \<and> recentPeerPositions st' = recentPeerPositions st \<and> prevProposers st' = prevProposers st
     \<and> prevRoundTime st' = prevRoundTime st \<and> closeResolution st' = closeResolution st
     \<and> map_option rposition (result st') = map_option rposition (result st)"

definition peers_frame :: "Consensus \<Rightarrow> Consensus \<Rightarrow> bool" where
  "peers_frame st st' \<longleftrightarrow> currPeerPositions st' = currPeerPositions st \<and> deadNodes st' = deadNodes st"

lemma round_frame_refl [simp]: "round_frame st st"
  by (simp add: round_frame_def)

lemma round_frame_trans: "round_frame a b \<Longrightarrow> round_frame b c \<Longrightarrow> round_frame a c"
  by (simp add: round_frame_def)

lemma round_frame_same_position:
  assumes "same_position a b"
  shows "round_frame a b"
proof -
  have "map_option rposition (result b) = map_option rposition (result a)"
    using assms unfolding same_position_def by (elim exE conjE) simp
  then show ?thesis unfolding round_frame_def same_position_frame[OF assms] by simp
qed

lemma dispute_ok_mono: "E \<subseteq> E' \<Longrightarrow> dispute_ok P acq peers E s x \<Longrightarrow> dispute_ok P acq peers E' s x"
  unfolding dispute_ok_def by (cases x) (simp, blast)

lemma result_ok_mono: "E \<subseteq> E' \<Longrightarrow> result_ok P acq peers E r \<Longrightarrow> result_ok P acq peers E' r"
  unfolding result_ok_def using dispute_ok_mono by blast

lemma result_ok_acquire:
  assumes "result_ok P acq peers {} r" "map_of acq i = None"
  shows "result_ok P (acq @ [(i, s)]) peers {n. \<exists>p. (n, p) \<in> set peers \<and> position p = i} r"
proof -
  have "map_of (acq @ [(i, s)]) k = map_of acq k" if "k \<noteq> i" for k
    using that by (simp add: map_add_def split: option.split)
  then have "dispute_ok P (acq @ [(i, s)]) peers {n. \<exists>p. (n, p) \<in> set peers \<and> position p = i} (txns r) x"
    if "dispute_ok P acq peers {} (txns r) x" for x
    using that unfolding dispute_ok_def by (cases x) auto
  then show ?thesis
    using assms unfolding result_ok_def by (auto simp: map_add_def split: option.split)
qed

lemma cons_inv_result_only:
  assumes "cons_inv_exc P E st" "disputing P E' st st'"
  shows "cons_inv_exc P E' st'"
proof -
  have sp: "same_position st st'" using assms(2) by (simp add: disputing_def)
  then have "result st \<noteq> None" "result st' \<noteq> None" by (auto simp: same_position_def)
  then show ?thesis
    using assms unfolding cons_inv_exc_def disputing_def same_position_frame[OF sp] by auto
qed

lemma cons_inv_peers: "cons_inv_exc P E st \<Longrightarrow> peers_ok (currPeerPositions st) (prevLedgerID st) (deadNodes st)"
  by (simp add: cons_inv_exc_def)

lemma peers_ok_distinct: "peers_ok peers l d \<Longrightarrow> distinct (map fst peers)"
  by (simp add: peers_ok_def)

context dispute_invariant
begin

lemma refresh_peers:
  assumes A: "compare_ok A"
    and "result st = Some r" "distinct (map fst (currPeerPositions st))"
    and "set xs \<subseteq> set (currPeerPositions st)"
    and "result_ok P (acquired st) (currPeerPositions st) {n. \<exists>p. (n, p) \<in> set xs \<and> position p = i} r"
    and "map_of (acquired st) i = Some other"
  shows "\<exists>st'. foldo (\<lambda>(n, p) st. if position p = i then updateDisputes A n other st else Some st) xs st
           = Some st' \<and> disputing P {} st st'"
  using assms(2-)
proof (induction xs arbitrary: st r)
  case Nil
  then show ?case using disputing_refl by (auto simp: result_ok_def)
next
  case (Cons x xs)
  obtain n p where x: "x = (n, p)" by (cases x)
  let ?E = "{n. \<exists>p. (n, p) \<in> set (x # xs) \<and> position p = i}"
  let ?E' = "{n. \<exists>p. (n, p) \<in> set xs \<and> position p = i}"
  have sub: "(if position p = i then ?E - {n} else ?E) \<subseteq> ?E'" using x by auto
  have "\<exists>st1. (if position p = i then updateDisputes A n other st else Some st) = Some st1
      \<and> disputing P ?E' st st1"
  proof (cases "position p = i")
    case True
    then obtain st1 where "updateDisputes A n other st = Some st1" "disputing P (?E - {n}) st st1"
      using updateDisputes_ok[OF A Cons.prems(1,4,2), of n p other] Cons.prems(3,5) x by auto
    then show ?thesis using True sub result_ok_mono unfolding disputing_def by fastforce
  next
    case False
    then show ?thesis
      using disputing_refl[OF Cons.prems(1)] result_ok_mono[OF _ Cons.prems(4)] sub by auto
  qed
  then obtain st1 where 1: "(if position p = i then updateDisputes A n other st else Some st) = Some st1"
    "disputing P ?E' st st1" by blast
  then obtain r1 where r1: "result st1 = Some r1"
    "result_ok P (acquired st) (currPeerPositions st) ?E' r1" by (auto simp: disputing_def)
  have sp: "same_position st st1" using 1(2) by (simp add: disputing_def)
  note fr = same_position_frame[OF sp]
  obtain st2 where "foldo (\<lambda>(n, p) st. if position p = i then updateDisputes A n other st else Some st) xs st1
           = Some st2" "disputing P {} st1 st2"
    using Cons.IH[OF r1(1)] Cons.prems(2,3,5) r1(2) unfolding fr by auto
  then show ?case using x 1 disputing_trans[OF 1(2)] by auto
qed

lemma gotTxSet_ok:
  assumes A: "compare_ok A" and inv: "cons_inv P st"
  shows "\<exists>st'. gotTxSet A now s st = Some st' \<and> cons_inv P st' \<and> round_frame st st' \<and> peers_frame st st'"
proof -
  let ?st0 = "st\<lparr>nowTime := now\<rparr>"
  let ?st1 = "?st0\<lparr>acquired := acquired st @ [(setid s, s)]\<rparr>"
  consider "phase st = Accepted" | "phase st \<noteq> Accepted" "map_of (acquired st) (setid s) \<noteq> None"
    | "phase st \<noteq> Accepted" "map_of (acquired st) (setid s) = None" "result st = None"
    | r where "phase st \<noteq> Accepted" "map_of (acquired st) (setid s) = None" "result st = Some r"
    by blast
  then show ?thesis
  proof cases
    case 1
    then show ?thesis using inv by (simp add: gotTxSet_def peers_frame_def)
  next
    case 2
    then show ?thesis
      using inv by (simp add: gotTxSet_def cons_inv_def cons_inv_exc_def round_frame_def peers_frame_def)
  next
    case 3
    then show ?thesis
      using inv by (simp add: gotTxSet_def cons_inv_def cons_inv_exc_def round_frame_def peers_frame_def)
  next
    case (4 r)
    have rok: "result_ok P (acquired st) (currPeerPositions st) {} r"
      using inv 4 by (simp add: cons_inv_def cons_inv_exc_def)
    then have ne: "setid s \<noteq> position (rposition r)" using 4 by (auto simp: result_ok_def)
    have d: "distinct (map fst (currPeerPositions st))"
      using inv unfolding cons_inv_def by (rule peers_ok_distinct[OF cons_inv_peers])
    have "\<exists>st'. foldo (\<lambda>(n, p) st. if position p = setid s then updateDisputes A n s st else Some st)
        (currPeerPositions ?st1) ?st1 = Some st' \<and> disputing P {} ?st1 st'"
      by (rule refresh_peers[OF A, of ?st1 r])
        (use 4 d result_ok_acquire[OF rok 4(2), of s] in \<open>simp_all add: map_add_def\<close>)
    then obtain st' where st': "foldo (\<lambda>(n, p) st. if position p = setid s then updateDisputes A n s st
        else Some st) (currPeerPositions ?st1) ?st1 = Some st'" "disputing P {} ?st1 st'" by blast
    have "cons_inv_exc P {n. \<exists>p. (n, p) \<in> set (currPeerPositions st) \<and> position p = setid s} ?st1"
      using inv 4 result_ok_acquire[OF rok 4(2), of s] by (simp add: cons_inv_def cons_inv_exc_def)
    then have "cons_inv P st'" using cons_inv_result_only[OF _ st'(2)] by (simp add: cons_inv_def)
    moreover have "round_frame ?st1 st'"
      using st'(2) round_frame_same_position by (simp add: disputing_def)
    then have "round_frame st st'" by (simp add: round_frame_def)
    moreover have "same_position ?st1 st'" using st'(2) by (simp add: disputing_def)
    then have "peers_frame st st'" unfolding peers_frame_def by (simp add: same_position_frame(3,6))
    moreover have "gotTxSet A now s st = Some st'"
      using 4 ne st'(1) by (simp add: gotTxSet_def Let_def)
    ultimately show ?thesis by blast
  qed
qed

end

end
