(* ===== verification/Consensus_Handlers.thy ===== *)
theory Consensus_Handlers
  imports Consensus_Invariant
begin

text \<open>
  The remaining handlers of the consensus round keep the invariant and run without a failed
  assertion: proposals and their playback, changes of the working ledger, the open and the
  establish phase, the timer, the start of a round and the stand-alone simulation.
\<close>

section \<open>Peer positions\<close>

lemma peers_ok_update:
  "peers_ok peers l D \<Longrightarrow> prevLedger p = l \<Longrightarrow> nodeID p \<notin> D \<Longrightarrow>
     peers_ok (AList.update (nodeID p) p peers) l D"
  unfolding peers_ok_def by (auto simp: AList.distinct_update split: if_splits)

lemma peers_ok_delete: "peers_ok peers l D \<Longrightarrow> peers_ok (AList.delete n peers) l (insert n D)"
  unfolding peers_ok_def by (auto simp: AList.distinct_delete)

lemma result_ok_update:
  assumes "result_ok P acq peers {} r" "distinct (map fst peers)"
  shows "result_ok P acq (AList.update n p peers) (if map_of acq (position p) = None then {} else {n}) r"
proof -
  have "dispute_ok P acq (AList.update n p peers) (if map_of acq (position p) = None then {} else {n}) s x"
    if "dispute_ok P acq peers {} s x" for s x
    using that assms(2) unfolding dispute_ok_def by (cases x) (auto split: if_splits)
  then show ?thesis using assms(1) unfolding result_ok_def by blast
qed

context dispute_invariant
begin

lemma unVote_dispute_ok:
  "dispute_ok P acq peers E s (i, d) \<Longrightarrow> dispute_ok P acq (AList.delete n peers) E s (i, unVote d n)"
  unfolding dispute_ok_def by (auto intro: P_unVote)

lemma unVoteAll_result_ok:
  assumes "result_ok P acq peers E r"
  shows "result_ok P acq (AList.delete n peers) E (r\<lparr>disputes := unVoteAll n (disputes r)\<rparr>)"
  using assms unVote_dispute_ok unfolding result_ok_def unVoteAll_def by auto

lemma peerBowOut_ok:
  assumes "cons_inv P st"
  shows "cons_inv P (peerBowOut n st)" "round_frame st (peerBowOut n st)"
proof -
  show "cons_inv P (peerBowOut n st)"
    using assms peers_ok_delete[of "currPeerPositions st" "prevLedgerID st" "deadNodes st" n]
      unVoteAll_result_ok
    by (auto simp: cons_inv_def cons_inv_exc_def upd_result_def peerBowOut_def)
  show "round_frame st (peerBowOut n st)"
    by (cases "result st") (simp_all add: round_frame_def upd_result_def peerBowOut_def)
qed

lemma storePosition_ok:
  assumes inv: "cons_inv P st" and p: "prevLedger p = prevLedgerID st" "nodeID p \<notin> deadNodes st"
  shows "cons_inv_exc P (if map_of (acquired st) (position p) = None then {} else {nodeID p})
    (storePosition p st)"
proof -
  have pk: "peers_ok (currPeerPositions st) (prevLedgerID st) (deadNodes st)"
    using inv by (simp add: cons_inv_def cons_inv_exc_def)
  show ?thesis
    using inv peers_ok_update[OF pk p] result_ok_update[OF _ peers_ok_distinct[OF pk], of P "acquired st"]
    unfolding cons_inv_def cons_inv_exc_def storePosition_def Let_def by simp
qed

lemma trackPosition_ok:
  assumes A: "compare_ok A"
    and inv: "cons_inv_exc P (if map_of (acquired st) (position p) = None then {} else {nodeID p}) st"
    and p: "(nodeID p, p) \<in> set (currPeerPositions st)"
  shows "\<exists>st'. trackPosition A now p st = Some st' \<and> cons_inv P st' \<and> round_frame st st' \<and> peers_frame st st'"
proof (cases "map_of (acquired st) (position p)")
  case None
  let ?st = "call (AcquireTxSet (position p)) st"
  have "cons_inv P ?st" "round_frame st ?st" "peers_frame st ?st"
    using inv None by (simp_all add: cons_inv_def cons_inv_exc_def call_def round_frame_def peers_frame_def)
  then show ?thesis
    using gotTxSet_ok[OF A, of ?st now] None round_frame_trans unfolding peers_frame_def
    unfolding trackPosition_def by (cases "a_acquireTxSet A (calls ?st) (position p)") (simp_all add: Let_def, blast)
next
  case (Some s)
  show ?thesis
  proof (cases "result st")
    case None
    then show ?thesis
      using Some inv by (simp add: trackPosition_def cons_inv_def cons_inv_exc_def peers_frame_def)
  next
    case res: (Some r)
    have d: "distinct (map fst (currPeerPositions st))"
      using inv by (rule peers_ok_distinct[OF cons_inv_peers])
    have "result_ok P (acquired st) (currPeerPositions st) {nodeID p} r"
      using inv Some res by (simp add: cons_inv_exc_def)
    then obtain st' where st': "updateDisputes A (nodeID p) s st = Some st'" "disputing P {} st st'"
      using updateDisputes_ok[OF A res _ d p Some, of "{nodeID p}"] by auto
    then have "cons_inv P st'" "round_frame st st'" "peers_frame st st'"
      using cons_inv_result_only[OF inv st'(2)] round_frame_same_position same_position_frame(3,6)
      by (simp_all add: cons_inv_def disputing_def peers_frame_def)
    then show ?thesis using st'(1) Some res by (simp add: trackPosition_def)
  qed
qed

lemma storePosition_fields [simp]:
  "acquired (storePosition p st) = acquired st"
  "currPeerPositions (storePosition p st) = AList.update (nodeID p) p (currPeerPositions st)"
  "round_frame st (storePosition p st)"
  by (simp_all add: storePosition_def round_frame_def Let_def)

lemma peerProposalInternal_ok:
  assumes A: "compare_ok A" and inv: "cons_inv P st"
  shows "\<exists>b st'. peerProposalInternal A now p st = Some (b, st') \<and> cons_inv P st' \<and> round_frame st st'"
proof -
  let ?st = "st\<lparr>nowTime := now\<rparr>"
  have inv0: "cons_inv P ?st" and fr0: "round_frame st ?st"
    using inv by (simp_all add: cons_inv_def cons_inv_exc_def round_frame_def)
  have d: "distinct (map fst (currPeerPositions st))"
    using inv unfolding cons_inv_def by (rule peers_ok_distinct[OF cons_inv_peers])
  have track: "\<exists>st'. trackPosition A now p (storePosition p ?st) = Some st' \<and> cons_inv P st' \<and> round_frame st st'"
    if "prevLedger p = prevLedgerID st" "nodeID p \<notin> deadNodes st"
    using trackPosition_ok[OF A, of "storePosition p ?st" p now] storePosition_ok[OF inv0, of p] that d
      round_frame_trans[OF round_frame_trans[OF fr0 storePosition_fields(3)]] by simp blast
  show ?thesis
    using inv inv0 fr0 peerBowOut_ok[OF inv0, of "nodeID p"] track round_frame_trans[OF fr0]
    unfolding peerProposalInternal_def Let_def by (auto simp: round_frame_def)
qed

end

section \<open>Proposals and their playback\<close>

lemma cons_inv_call [simp]: "cons_inv P (call c st) = cons_inv P st"
  by (simp add: call_def cons_inv_def cons_inv_exc_def)

lemma cons_inv_set_mode [simp]: "cons_inv P (set_mode m st) = cons_inv P st"
  by (simp add: set_mode_def call_def cons_inv_def cons_inv_exc_def)

lemma cons_inv_nowTime [simp]: "cons_inv P (st\<lparr>nowTime := t\<rparr>) = cons_inv P st"
  by (simp add: cons_inv_def cons_inv_exc_def)

lemma phase_set_mode [simp]: "phase (set_mode m st) = phase st"
  by (simp add: set_mode_def call_def)

lemma call_fields [simp]:
  "phase (call c st) = phase st" "mode (call c st) = mode st" "result (call c st) = result st"
  "prevLedgerID (call c st) = prevLedgerID st" "previousLedger (call c st) = previousLedger st"
  "currPeerPositions (call c st) = currPeerPositions st" "nowTime (call c st) = nowTime st"
  "haveCloseTimeConsensus (call c st) = haveCloseTimeConsensus st"
  "recentPeerPositions (call c st) = recentPeerPositions st" "deadNodes (call c st) = deadNodes st"
  "acquired (call c st) = acquired st" "prevProposers (call c st) = prevProposers st"
  "closeResolution (call c st) = closeResolution st" "rawCloseTimes (call c st) = rawCloseTimes st"
  "calls (call c st) = calls st @ [c]"
  by (simp_all add: call_def)

lemma round_frame_call [simp]: "round_frame st (call c st)"
  by (simp add: call_def round_frame_def)

lemma recent_ok_update:
  "recent_ok rec \<Longrightarrow> length ps \<le> 10 \<Longrightarrow> \<forall>q \<in> set ps. nodeID q = n \<Longrightarrow> recent_ok (AList.update n ps rec)"
  unfolding recent_ok_def by (auto simp: AList.distinct_update split: if_splits)

lemma recent_ok_push:
  assumes "recent_ok (recentPeerPositions st)"
  shows "recent_ok (recentPeerPositions (pushRecent p st))"
proof -
  define ps where "ps = (case map_of (recentPeerPositions st) (nodeID p) of None \<Rightarrow> [] | Some ps \<Rightarrow> ps)"
  define qs where "qs = (if length ps \<ge> 10 then tl ps else ps) @ [p]"
  have ps: "length ps \<le> 10" "\<forall>q \<in> set ps. nodeID q = nodeID p"
    using assms unfolding recent_ok_def ps_def by (auto split: option.splits dest!: map_of_SomeD)
  have "set qs \<subseteq> insert p (set ps)" "length qs \<le> 10"
    using ps(1) by (cases ps; auto simp: qs_def)+
  then have "recent_ok (AList.update (nodeID p) qs (recentPeerPositions st))"
    using assms ps(2) by (intro recent_ok_update) auto
  then show ?thesis unfolding pushRecent_def Let_def ps_def[symmetric] qs_def[symmetric] by simp
qed

lemma cons_inv_pushRecent: "cons_inv P st \<Longrightarrow> cons_inv P (pushRecent p st)"
  using recent_ok_push[of st p]
  by (simp add: cons_inv_def cons_inv_exc_def pushRecent_def Let_def)

context dispute_invariant
begin

lemma peerProposal_ok:
  assumes "compare_ok A" "cons_inv P st"
  shows "\<exists>b st'. peerProposal A now p st = Some (b, st') \<and> cons_inv P st'"
  using peerProposalInternal_ok[OF assms(1) cons_inv_pushRecent[OF assms(2)]]
  unfolding peerProposal_def by blast

lemma playbackProposal_ok:
  assumes "compare_ok A" "cons_inv P st"
  shows "\<exists>st'. playbackProposal A p st = Some st' \<and> cons_inv P st' \<and> round_frame st st'"
proof -
  obtain b st' where "peerProposalInternal A (nowTime st) p st = Some (b, st')" "cons_inv P st'" "round_frame st st'"
    using peerProposalInternal_ok[OF assms] by blast
  then show ?thesis
    using assms(2) round_frame_trans[OF _ round_frame_call]
    by (auto simp: playbackProposal_def)
qed

lemma playbackProposals_ok:
  assumes A: "compare_ok A" and inv: "cons_inv P st"
  shows "\<exists>st'. playbackProposals A st = Some st' \<and> cons_inv P st' \<and> round_frame st st'"
proof -
  let ?I = "\<lambda>s. cons_inv P s \<and> round_frame st s"
  have step: "\<exists>s'. playbackProposal A p s = Some s' \<and> ?I s'" if "?I s" for p s
    using that playbackProposal_ok[OF A] round_frame_trans by blast
  have "\<exists>s'. foldo (playbackProposal A) ps s = Some s' \<and> ?I s'" if "?I s" for ps s
    by (rule foldo_invariant[where I = ?I, OF that]) (rule step)
  then have "\<exists>s'. (case x of (n, ps) \<Rightarrow> foldo (playbackProposal A) ps) s = Some s' \<and> ?I s'" if "?I s" for x s
    using that by (cases x) auto
  then show ?thesis
    unfolding playbackProposals_def using inv by (intro foldo_invariant[where I = ?I]) auto
qed

lemma leaveConsensus_ok:
  assumes "cons_inv P st"
  shows "cons_inv P (leaveConsensus st)"
proof -
  have "result_ok P acq peers E (r\<lparr>rposition := bowOut (rposition r) t\<rparr>)"
    if "result_ok P acq peers E r" for acq peers E r t
    using that by (simp add: result_ok_def bowOut_def)
  then have "cons_inv P (st\<lparr>result := Some (r\<lparr>rposition := bowOut (rposition r) t\<rparr>)\<rparr>)"
    if "result st = Some r" for r t
    using that assms unfolding cons_inv_def cons_inv_exc_def by simp
  then show ?thesis
    using assms by (auto simp: leaveConsensus_def Let_def split: option.split)
qed

end

lemma leaveConsensus_frame [simp]:
  "phase (leaveConsensus st) = phase st" "prevLedgerID (leaveConsensus st) = prevLedgerID st"
  "previousLedger (leaveConsensus st) = previousLedger st" "nowTime (leaveConsensus st) = nowTime st"
  "recentPeerPositions (leaveConsensus st) = recentPeerPositions st"
  "prevProposers (leaveConsensus st) = prevProposers st"
  by (auto simp: leaveConsensus_def set_mode_def call_def Let_def split: option.split)

lemma leaveConsensus_not_proposing: "mode (leaveConsensus st) \<noteq> Proposing"
  by (auto simp: leaveConsensus_def set_mode_def)

section \<open>Changing the working ledger\<close>

text \<open>
  An outcome is safe when a returned state satisfies \<open>Q\<close>; a total outcome has returned
  one. The recursion through \<open>timerEntry\<close> is the only source of missing outcomes.
\<close>

definition safe_outcome :: "bool \<Rightarrow> (Consensus \<Rightarrow> bool) \<Rightarrow> Consensus option \<Rightarrow> bool" where
  "safe_outcome tot Q x \<longleftrightarrow> (case x of None \<Rightarrow> \<not> tot | Some st \<Rightarrow> Q st)"

lemma safe_outcome_Some [simp]: "safe_outcome tot Q (Some st) = Q st"
  by (simp add: safe_outcome_def)

lemma safe_outcome_bind:
  "safe_outcome tot Q x \<Longrightarrow> (\<And>st. x = Some st \<Longrightarrow> Q st \<Longrightarrow> safe_outcome tot Q (f st)) \<Longrightarrow>
     safe_outcome tot Q (Option.bind x f)"
  by (cases x) (auto simp: safe_outcome_def)

context dispute_invariant
begin

lemma startRoundInternal_safe:
  assumes A: "compare_ok A" and rec: "recent_ok (recentPeerPositions st)"
    and Q: "\<And>s. cons_inv P s \<Longrightarrow> phase s \<noteq> Accepted \<Longrightarrow> Q s"
    and timer: "\<And>t s. cons_inv P s \<Longrightarrow> phase s = Open \<Longrightarrow> prevLedgerID s = l \<Longrightarrow> previousLedger s = L \<Longrightarrow>
                   safe_outcome tot Q (timer t s)"
  shows "safe_outcome tot Q (startRoundInternal timer A now l L m st)"
proof -
  define st1 where "st1 = call ReadClock ((set_mode m (st\<lparr>phase := Open\<rparr>))
    \<lparr>nowTime := now, prevLedgerID := l, previousLedger := L,
     result := None, convergePercent := 0, haveCloseTimeConsensus := False\<rparr>)"
  define st2 where "st2 = st1\<lparr>openTime := timer_reset (a_clock A (calls st1)) (openTime st1),
                 currPeerPositions := [], acquired := [],
                 rawCloseTimes := \<lparr>ct_peers = [], ct_self = 0\<rparr>, deadNodes := {},
                 closeResolution := getNextLedgerTimeResolution (closeTimeResolution L)
                   (closeAgree L) (lgrSeq L + 1)\<rparr>"
  have "cons_inv P st2"
    using rec by (simp add: st2_def st1_def cons_inv_def cons_inv_exc_def peers_ok_def call_def set_mode_def)
  then obtain st3 where st3: "playbackProposals A st2 = Some st3" "cons_inv P st3" "round_frame st2 st3"
    using playbackProposals_ok[OF A] by blast
  have "prevLedgerID st3 = l" "previousLedger st3 = L" and opn: "phase st3 = Open"
    using st3(3) by (simp_all add: round_frame_def st2_def st1_def call_def set_mode_def)
  then have "safe_outcome tot Q (timer (nowTime st3) st3)" using st3(2) timer opn by blast
  then show ?thesis
    using st3 Q[OF st3(2)] opn unfolding startRoundInternal_def Let_def st1_def[symmetric] st2_def[symmetric] by simp
qed

lemma handleWrongLedger_safe:
  assumes A: "compare_ok A" and inv: "cons_inv P st"
    and ne: "l \<noteq> prevLedgerID st \<or> lgrId (previousLedger st) \<noteq> l"
    and running: "phase st \<noteq> Accepted" and Q: "\<And>s. cons_inv P s \<Longrightarrow> phase s \<noteq> Accepted \<Longrightarrow> Q s"
    and timer: "\<And>t s cs L. cons_inv P s \<Longrightarrow> phase s = Open \<Longrightarrow> prevLedgerID s = l \<Longrightarrow> previousLedger s = L \<Longrightarrow>
                   a_acquireLedger A cs l = Some L \<Longrightarrow> safe_outcome tot Q (timer t s)"
  shows "safe_outcome tot Q (handleWrongLedger timer A l st)"
proof -
  define s1 where "s1 = leaveConsensus st"
  have inv1: "cons_inv P s1" using leaveConsensus_ok[OF inv] by (simp add: s1_def)
  let ?clear = "(upd_result (\<lambda>r. r\<lparr>disputes := [], compares := {}\<rparr>) s1)
      \<lparr>prevLedgerID := l, currPeerPositions := [],
       rawCloseTimes := (rawCloseTimes s1)\<lparr>ct_peers := []\<rparr>, deadNodes := {}\<rparr>"
  have "cons_inv P ?clear"
    using inv1 by (auto simp: cons_inv_def cons_inv_exc_def peers_ok_def upd_result_def result_ok_def)
  then obtain s2 where s2: "(if prevLedgerID s1 \<noteq> l then playbackProposals A ?clear else Some s1) = Some s2"
      "cons_inv P s2" "prevLedgerID s2 = l" "phase s2 = phase st"
    using playbackProposals_ok[OF A, of ?clear] inv1 unfolding round_frame_def
    by (cases "prevLedgerID s1 \<noteq> l") (auto simp: s1_def upd_result_def split: option.split)
  let ?s3 = "call (AcquireLedger (prevLedgerID s2)) s2"
  have "safe_outcome tot Q (startRoundInternal timer A (nowTime ?s3) l L SwitchedLedger ?s3)"
    if "a_acquireLedger A (calls ?s3) l = Some L" for L
    using s2(2) timer[OF _ _ _ _ that] Q by (intro startRoundInternal_safe[OF A])
      (auto simp: cons_inv_def cons_inv_exc_def)
  then show ?thesis
    using ne s2 Q running unfolding handleWrongLedger_def Let_def s1_def[symmetric]
    by (auto split: option.split)
qed

lemma checkLedger_safe:
  assumes A: "compare_ok A" and inv: "cons_inv P st"
    and running: "phase st \<noteq> Accepted" and Q: "\<And>s. cons_inv P s \<Longrightarrow> phase s \<noteq> Accepted \<Longrightarrow> Q s"
    and timer: "\<And>t s cs cs' m l. cons_inv P s \<Longrightarrow> phase s = Open \<Longrightarrow> prevLedgerID s = l \<Longrightarrow>
      l = a_getPrevLedger A cs (prevLedgerID st) (previousLedger st) m \<Longrightarrow>
      a_acquireLedger A cs' l = Some (previousLedger s) \<Longrightarrow>
      l \<noteq> prevLedgerID st \<or> lgrId (previousLedger st) \<noteq> prevLedgerID st \<Longrightarrow>
      safe_outcome tot Q (timer t s)"
  shows "safe_outcome tot Q (checkLedger timer A st)"
proof -
  define s1 where "s1 = call (GetPrevLedger (prevLedgerID st) (previousLedger st) (mode st)) st"
  define l where "l = a_getPrevLedger A (calls s1) (prevLedgerID st) (previousLedger st) (mode st)"
  have s1: "cons_inv P s1" "prevLedgerID s1 = prevLedgerID st" "previousLedger s1 = previousLedger st"
    "mode s1 = mode st" "phase s1 \<noteq> Accepted" using inv running by (simp_all add: s1_def)
  have eq: "checkLedger timer A st =
      (if l \<noteq> prevLedgerID st \<or> lgrId (previousLedger st) \<noteq> prevLedgerID st
       then handleWrongLedger timer A l s1 else Some s1)"
    unfolding checkLedger_def Let_def s1_def[symmetric] l_def s1 by auto
  show ?thesis
  proof (cases "l \<noteq> prevLedgerID st \<or> lgrId (previousLedger st) \<noteq> prevLedgerID st")
    case True
    then have "safe_outcome tot Q (handleWrongLedger timer A l s1)"
      using timer[OF _ _ _ l_def] s1 Q by (intro handleWrongLedger_safe[OF A s1(1)]) auto
    then show ?thesis using eq True by simp
  next
    case False
    then show ?thesis using eq s1 Q by simp
  qed
qed

end

end
