(* ===== verification/Consensus_Phases.thy ===== *)
theory Consensus_Phases
  imports Consensus_Handlers
begin

text \<open>
  The open and the establish phase keep the invariant and run without a failed assertion: closing
  the ledger and creating the first disputes, dropping stale positions, updating our votes and our
  transaction set with them, taking a new position, and accepting.
\<close>

section \<open>The open phase\<close>

context dispute_invariant
begin

lemma createDisputes_peers:
  assumes A: "compare_ok A" and r: "result st = Some r"
    and ok: "result_ok P (acquired st) (currPeerPositions st) {} r"
    and d: "distinct (map fst (currPeerPositions st))"
  shows "\<exists>st'. foldo (\<lambda>(n, q) st. case map_of (acquired st) (position q) of
            None \<Rightarrow> Some st | Some o' \<Rightarrow> createDisputes A o' st)
            (xs :: (NodeID \<times> ConsensusProposal) list) st = Some st' \<and> disputing P {} st st'"
proof (rule foldo_invariant)
  show "disputing P {} st st" using disputing_refl[OF r ok] .
next
  fix x :: "NodeID \<times> ConsensusProposal" and s assume s: "disputing P {} st s"
  obtain n q where x: "x = (n, q)" by (cases x)
  have sp: "same_position st s" using s by (simp add: disputing_def)
  obtain r' where r': "result s = Some r'" "result_ok P (acquired s) (currPeerPositions s) {} r'"
    using s unfolding disputing_def same_position_frame[OF sp] by blast
  have d': "distinct (map fst (currPeerPositions s))" using d by (simp add: same_position_frame[OF sp])
  show "\<exists>s'. (\<lambda>(n, q) st. case map_of (acquired st) (position q) of
            None \<Rightarrow> Some st | Some o' \<Rightarrow> createDisputes A o' st) x s = Some s' \<and> disputing P {} st s'"
  proof (cases "map_of (acquired s) (position q)")
    case (Some o')
    then show ?thesis
      using createDisputes_ok[OF A r' d', of o'] disputing_trans[OF s] unfolding x by auto
  qed (use s x in auto)
qed

lemma closeLedger_ok:
  assumes A: "compare_ok A" "onClose_ok A" and inv: "cons_inv P st" and none: "result st = None"
  shows "\<exists>st'. closeLedger A st = Some st' \<and> cons_inv P st' \<and> phase st' = Establish"
proof -
  define s0 where "s0 = st\<lparr>phase := Establish, rawCloseTimes := (rawCloseTimes st)\<lparr>ct_self := nowTime st\<rparr>\<rparr>"
  define s1 where "s1 = call (OnClose (previousLedger s0) (nowTime s0) (mode s0)) s0"
  obtain s p where sp: "a_onClose A (calls s1) (previousLedger s1) (nowTime s1) (mode s1) = (s, p)"
    by (cases "a_onClose A (calls s1) (previousLedger s1) (nowTime s1) (mode s1)")
  have pos: "setid s = position p"
    using A(2) sp unfolding onClose_ok_def by (metis fst_conv snd_conv)
  define s2 where "s2 = call ReadClock s1"
  define r where "r = (newResult s p)\<lparr>roundTime := timer_reset (a_clock A (calls s2)) (roundTime (newResult s p))\<rparr>"
  define s3 where "s3 = (let st = s2\<lparr>result := Some r\<rparr>;
      st = (if map_of (acquired st) (setid s) = None
            then call (ShareTxSet s) (st\<lparr>acquired := acquired st @ [(setid s, s)]\<rparr>) else st)
      in if mode st = Proposing then call (Propose p) st else st)"
  have fields: "currPeerPositions s3 = currPeerPositions st" "prevLedgerID s3 = prevLedgerID st"
      "deadNodes s3 = deadNodes st" "recentPeerPositions s3 = recentPeerPositions st"
      "phase s3 = Establish" "result s3 = Some r" "map_of (acquired s3) (setid s) \<noteq> None"
    by (simp_all add: s3_def s2_def s1_def s0_def Let_def map_add_def split: option.split)
  have pk: "peers_ok (currPeerPositions st) (prevLedgerID st) (deadNodes st)"
    using inv by (simp add: cons_inv_def cons_inv_exc_def)
  have r_ok: "result_ok P (acquired s3) (currPeerPositions s3) {} r"
    using pos fields(7) by (simp add: result_ok_def r_def newResult_def)
  have inv3: "cons_inv P s3"
    using inv r_ok pk unfolding cons_inv_def cons_inv_exc_def fields by simp
  obtain st' where st': "foldo (\<lambda>(n, q) st. case map_of (acquired st) (position q) of
            None \<Rightarrow> Some st | Some o' \<Rightarrow> createDisputes A o' st) (currPeerPositions s3) s3 = Some st'"
      "disputing P {} s3 st'"
    using createDisputes_peers[OF A(1) fields(6) r_ok] peers_ok_distinct[OF pk] fields(1) by metis
  have "cons_inv P st'" using cons_inv_result_only inv3 st'(2) unfolding cons_inv_def by blast
  moreover have "phase st' = Establish"
    using st'(2) same_position_frame(1) fields(5) unfolding disputing_def by metis
  moreover have "closeLedger A st = Some st'"
    using st'(1) pos unfolding closeLedger_def Let_def s0_def[symmetric] s1_def[symmetric] sp
      s3_def r_def s2_def none by simp
  ultimately show ?thesis by blast
qed

lemma phaseOpen_ok:
  assumes "compare_ok A" "onClose_ok A" "cons_inv P st" "phase st = Open"
  shows "\<exists>st'. phaseOpen A st = Some st' \<and> cons_inv P st' \<and> phase st' \<noteq> Accepted"
proof -
  define s1 where "s1 = call ReadClock (call (ProposersValidated (prevLedgerID st)) (call HasOpenTransactions st))"
  define s2 where "s2 = s1\<lparr>openTime := timer_tick (a_clock A (calls s1)) (openTime s1)\<rparr>"
  have s2: "cons_inv P s2" "phase s2 = Open" "result s2 = None"
    using assms(3,4) by (simp_all add: s2_def s1_def cons_inv_def cons_inv_exc_def)
  obtain s3 where "closeLedger A s2 = Some s3" "cons_inv P s3" "phase s3 = Establish"
    using closeLedger_ok[OF assms(1,2) s2(1,3)] by blast
  then show ?thesis
    using s2 unfolding phaseOpen_def Let_def by (simp add: s2_def s1_def)
qed

end

section \<open>Updating our position\<close>

lemma checkFreshness_peers:
  "fst (checkFreshness c act ps ds v) = filter (\<lambda>(n, p). \<not> isStale p c) ps"
  by (induction c act ps ds v rule: checkFreshness.induct) (auto split: prod.split)

lemma keys_unVoteAll [simp]: "map fst (unVoteAll n ds) = map fst ds"
  by (simp add: unVoteAll_def case_prod_beta comp_def)

lemma delete_snoc_key:
  "distinct (map fst (K @ (n, p) # ps)) \<Longrightarrow> AList.delete n (K @ (n, p) # ps) = K @ ps"
  by (simp add: AList.delete_eq) (rule arg_cong2[where f = append]; rule filter_True; force)

context dispute_invariant
begin

lemma checkFreshness_ok:
  assumes "checkFreshness c act ps ds v = (ps', ds', v')" "distinct (map fst (K @ ps))"
    and "\<And>n p. (n, p) \<in> set ps \<Longrightarrow> n = nodeID p"
    and "\<And>x. x \<in> set ds \<Longrightarrow> dispute_ok P acq (K @ ps) {} s x"
  shows "map fst ds' = map fst ds \<and> (\<forall>x \<in> set ds'. dispute_ok P acq (K @ ps') {} s x)"
  using assms
proof (induction ps arbitrary: K ds v ps' ds' v')
  case (Cons x ps)
  obtain n p where x: "x = (n, p)" by (cases x)
  have n: "n = nodeID p" using Cons.prems(3) x by simp
  show ?case
  proof (cases "isStale p c")
    case True
    have "dispute_ok P acq (K @ ps) {} s y" if "y \<in> set (unVoteAll (nodeID p) ds)" for y
    proof -
      obtain i d where y: "y = (i, unVote d n)" "(i, d) \<in> set ds"
        using \<open>y \<in> _\<close> n unfolding unVoteAll_def by auto
      then show ?thesis
        using unVote_dispute_ok[of acq "K @ x # ps" "{}" s i d n] Cons.prems(4)[OF y(2)]
          delete_snoc_key[of K n p ps] Cons.prems(2) x by simp
    qed
    then show ?thesis
      using Cons.IH[of "unVoteAll (nodeID p) ds" v ps' ds' v' K] Cons.prems True x by simp
  next
    case False
    obtain qs es w where rec: "checkFreshness c act ps ds (incr_vote (act (closeTime p)) v) = (qs, es, w)"
      by (cases "checkFreshness c act ps ds (incr_vote (act (closeTime p)) v)")
    then have eqs: "ps' = (n, p) # qs" "ds' = es" using Cons.prems(1) False x by auto
    have "map fst es = map fst ds \<and> (\<forall>y \<in> set es. dispute_ok P acq ((K @ [x]) @ qs) {} s y)"
      using Cons.prems x by (intro Cons.IH[OF rec]) auto
    then show ?thesis unfolding eqs x by simp
  qed
qed simp

end

text \<open>
  The effective set is the mutable copy once it exists. Every dispute keeps its transaction and its
  votes, and after the loop our vote is membership in the effective set.
\<close>

definition effective :: "Tx list \<Rightarrow> Tx list option \<Rightarrow> TxID set" where
  "effective base ms = txid ` set (case ms of None \<Rightarrow> base | Some m \<Rightarrow> m)"

lemma effective_simps [simp]:
  "effective base None = txid ` set base" "effective base (Some m) = txid ` set m"
  by (simp_all add: effective_def)

context dispute_invariant
begin

lemma updateVotes_ok:
  assumes "updateVotes pct pr parms base ds ms = (ds', ms')" "distinct (map fst ds)"
    and "\<And>i d. (i, d) \<in> set ds \<Longrightarrow> i = txid (dtx d) \<and> P d \<and> (ourVote d \<longleftrightarrow> i \<in> effective base ms)"
  shows "map (\<lambda>(i, d). (i, dtx d, votes d)) ds' = map (\<lambda>(i, d). (i, dtx d, votes d)) ds
    \<and> (\<forall>i. i \<notin> fst ` set ds \<longrightarrow> (i \<in> effective base ms') = (i \<in> effective base ms))
    \<and> (\<forall>i d. (i, d) \<in> set ds' \<longrightarrow> P d \<and> (ourVote d \<longleftrightarrow> i \<in> effective base ms'))"
  using assms
proof (induction ds arbitrary: ms ds' ms')
  case (Cons x ds)
  obtain i d where x: "x = (i, d)" by (cases x)
  obtain d1 ch where u: "updateVote d pct pr parms = (d1, ch)" by (cases "updateVote d pct pr parms")
  define ms1 where "ms1 = (if ch then Some (if ourVote d1 then mts_insert (dtx d1) (case ms of None \<Rightarrow> base | Some m \<Rightarrow> m)
      else mts_erase i (case ms of None \<Rightarrow> base | Some m \<Rightarrow> m)) else ms)"
  obtain es ms2 where rec: "updateVotes pct pr parms base ds ms1 = (es, ms2)"
    by (cases "updateVotes pct pr parms base ds ms1")
  have eqs: "ds' = (i, d1) # es" "ms' = ms2"
    using Cons.prems(1) rec unfolding x updateVotes.simps u Let_def ms1_def by simp_all
  have d1: "dtx d1 = dtx d" "votes d1 = votes d" "ch \<longleftrightarrow> ourVote d1 \<noteq> ourVote d" "P d1"
    using updateVote_frame[of d pct pr parms] updateVote_changed[of d pct pr parms] u
      P_updateVote[of d pct pr parms] Cons.prems(3)[of i d] x by simp_all
  have i: "i = txid (dtx d)" "ourVote d \<longleftrightarrow> i \<in> effective base ms" using Cons.prems(3) x by auto
  have m1: "(j \<in> effective base ms1) = (if j = i then ourVote d1 else j \<in> effective base ms)" for j
    using d1(1,3) i unfolding ms1_def by (auto simp: effective_def)
  have nin: "i \<notin> fst ` set ds" using Cons.prems(2) x by simp
  have "map (\<lambda>(i, d). (i, dtx d, votes d)) es = map (\<lambda>(i, d). (i, dtx d, votes d)) ds
    \<and> (\<forall>i. i \<notin> fst ` set ds \<longrightarrow> (i \<in> effective base ms2) = (i \<in> effective base ms1))
    \<and> (\<forall>i d. (i, d) \<in> set es \<longrightarrow> P d \<and> (ourVote d \<longleftrightarrow> i \<in> effective base ms2))"
  proof (rule Cons.IH[OF rec])
    show "distinct (map fst ds)" using Cons.prems(2) by simp
    fix j e assume "(j, e) \<in> set ds"
    then show "j = txid (dtx e) \<and> P e \<and> (ourVote e \<longleftrightarrow> j \<in> effective base ms1)"
      using Cons.prems(3)[of j e] m1[of j] nin by force
  qed
  then show ?case using d1 m1 nin unfolding eqs x by auto
qed simp

lemma updateVotes_dispute_ok:
  assumes uv: "updateVotes pct pr parms (settxs s) ds None = (ds', ms')" and d: "distinct (map fst ds)"
    and ok: "\<And>x. x \<in> set ds \<Longrightarrow> dispute_ok P acq peers {} s x"
  shows "map fst ds' = map fst ds
    \<and> (\<forall>x \<in> set ds'. dispute_ok P acq peers {} (case ms' of None \<Rightarrow> s | Some m \<Rightarrow> \<lparr>setid = h, settxs = m\<rparr>) x)"
proof -
  let ?s' = "case ms' of None \<Rightarrow> s | Some m \<Rightarrow> \<lparr>setid = h, settxs = m\<rparr>"
  let ?k = "\<lambda>(i, d). (i, dtx d, votes d)"
  have pre: "i = txid (dtx e) \<and> P e \<and> (ourVote e \<longleftrightarrow> i \<in> effective (settxs s) None)" if "(i, e) \<in> set ds" for i e
    using ok[OF that] by (simp add: dispute_ok_def ts_exists_iff)
  note uv' = updateVotes_ok[OF uv d pre]
  have k: "map ?k ds' = map ?k ds" by (rule conjunct1[OF uv'])
  have v: "P e" "ourVote e \<longleftrightarrow> i \<in> effective (settxs s) ms'" if "(i, e) \<in> set ds'" for i e
    using conjunct2[OF conjunct2[OF uv']] that by blast+
  have ex: "ts_exists ?s' i \<longleftrightarrow> i \<in> effective (settxs s) ms'" for i
    by (cases ms') (simp_all add: ts_exists_iff)
  have "dispute_ok P acq peers {} ?s' (i, e)" if "(i, e) \<in> set ds'" for i e
  proof -
    have "?k (i, e) \<in> ?k ` set ds" using imageI[OF that, of ?k] arg_cong[OF k, of set] by (simp only: set_map)
    then obtain e' where e': "(i, e') \<in> set ds" "dtx e' = dtx e" "votes e' = votes e" by auto
    have "P e" "ourVote e \<longleftrightarrow> ts_exists ?s' i" using v[OF that] ex[of i] by simp_all
    then show ?thesis using ok[OF e'(1)] e'(2,3) by (simp add: dispute_ok_def)
  qed
  moreover have "map fst ds' = map fst ds"
    using arg_cong[OF k, of "map fst"] by (simp add: comp_def case_prod_beta)
  ultimately show ?thesis by auto
qed


lemma takePosition_ok:
  assumes A: "compare_ok A" and r: "result st = Some r"
    and d: "distinct (map fst (disputes r))"
    and ok: "\<And>x. x \<in> set (disputes r) \<Longrightarrow> dispute_ok P (acquired st) (currPeerPositions st) {} newSet x"
    and pk: "peers_ok (currPeerPositions st) (prevLedgerID st) (deadNodes st)"
    and rec: "recent_ok (recentPeerPositions st)" and ph: "phase st \<noteq> Open"
  shows "\<exists>st'. takePosition A newSet t st = Some st' \<and> cons_inv P st' \<and> phase st' = phase st"
proof -
  let ?i = "setid newSet"
  define r1 where "r1 = r\<lparr>txns := newSet, rposition := changePosition (rposition r) ?i t (nowTime st)\<rparr>"
  define st1 where "st1 = st\<lparr>result := Some r1\<rparr>"
  have pos: "position (rposition r1) = ?i" by (simp add: r1_def changePosition_def)
  have "\<exists>st2. (if map_of (acquired st1) ?i = None
      then (let st = st1\<lparr>acquired := acquired st1 @ [(?i, newSet)]\<rparr>;
                st = (if \<not> isBowOut (rposition r1) then call (ShareTxSet newSet) st else st)
            in foldo (\<lambda>(n, p) st. if position p = ?i then updateDisputes A n newSet st else Some st)
                 (currPeerPositions st) st)
      else Some st1) = Some st2 \<and> cons_inv P st2 \<and> phase st2 = phase st \<and> (\<exists>r2. result st2 = Some r2)"
  proof (cases "map_of (acquired st) ?i")
    case None
    define st2 where "st2 = (let st = st1\<lparr>acquired := acquired st1 @ [(?i, newSet)]\<rparr>
      in if \<not> isBowOut (rposition r1) then call (ShareTxSet newSet) st else st)"
    have f: "result st2 = Some r1" "currPeerPositions st2 = currPeerPositions st" "phase st2 = phase st"
      "acquired st2 = acquired st @ [(?i, newSet)]" "prevLedgerID st2 = prevLedgerID st"
      "deadNodes st2 = deadNodes st" "recentPeerPositions st2 = recentPeerPositions st"
      by (simp_all add: st2_def st1_def Let_def)
    let ?E = "{n. \<exists>p. (n, p) \<in> set (currPeerPositions st2) \<and> position p = ?i}"
    have look: "map_of (acquired st2) ?i = Some newSet" using None by (simp add: f map_add_def)
    have other: "map_of (acquired st @ [(?i, newSet)]) k = map_of (acquired st) k" if "k \<noteq> ?i" for k
      using that by (simp add: map_add_def split: option.split)
    have "dispute_ok P (acquired st2) (currPeerPositions st2) ?E newSet x" if "x \<in> set (disputes r)" for x
      using ok[OF that] other unfolding dispute_ok_def f by (cases x) auto
    then have rok: "result_ok P (acquired st2) (currPeerPositions st2) ?E r1"
      using d look by (simp add: result_ok_def r1_def changePosition_def)
    obtain st3 where st3: "foldo (\<lambda>(n, p) st. if position p = ?i then updateDisputes A n newSet st else Some st)
          (currPeerPositions st2) st2 = Some st3" "disputing P {} st2 st3"
      using refresh_peers[OF A f(1) _ _ rok look] peers_ok_distinct[OF pk] f(2) by auto
    have "cons_inv_exc P ?E st2" using rok pk rec ph unfolding cons_inv_exc_def f by simp
    then have "cons_inv P st3" using st3(2) unfolding cons_inv_def by (rule cons_inv_result_only)
    moreover have "phase st3 = phase st2" "\<exists>r2. result st3 = Some r2"
      using st3(2) same_position_frame(1) unfolding disputing_def by blast+
    ultimately show ?thesis
      using st3(1) None f(3) unfolding Let_def st2_def by (simp add: st1_def)
  next
    case (Some o')
    have "result_ok P (acquired st) (currPeerPositions st) {} r1"
      using d ok Some by (simp add: result_ok_def r1_def changePosition_def)
    then show ?thesis
      using Some pk rec ph by (simp add: st1_def cons_inv_def cons_inv_exc_def)
  qed
  then obtain st2 r2 where st2: "(if map_of (acquired st1) ?i = None
      then (let st = st1\<lparr>acquired := acquired st1 @ [(?i, newSet)]\<rparr>;
                st = (if \<not> isBowOut (rposition r1) then call (ShareTxSet newSet) st else st)
            in foldo (\<lambda>(n, p) st. if position p = ?i then updateDisputes A n newSet st else Some st)
                 (currPeerPositions st) st)
      else Some st1) = Some st2" "cons_inv P st2" "phase st2 = phase st" "result st2 = Some r2"
    by blast
  have "takePosition A newSet t st = Some (if \<not> isBowOut (rposition r2) \<and> mode st2 = Proposing
                then call (Propose (rposition r2)) st2 else st2)"
    using st2(1) unfolding takePosition_def r bind.bind_lunit Let_def r1_def[symmetric] st1_def[symmetric]
    by (simp only: bind.bind_lunit st2(4))
  then show ?thesis using st2 by simp
qed


lemma updateOurPositions_ok:
  assumes A: "compare_ok A" and inv: "cons_inv P st" and r: "result st = Some r" and ph: "phase st \<noteq> Open"
  shows "\<exists>st'. updateOurPositions A st = Some st' \<and> cons_inv P st' \<and> phase st' = phase st"
proof -
  define cut where "cut = nowTime st - of_nat (proposeFRESHNESS (a_parms A))"
  obtain ps ds v where fr: "checkFreshness cut (asCloseTime A st) (currPeerPositions st) (disputes r) [] = (ps, ds, v)"
    by (cases "checkFreshness cut (asCloseTime A st) (currPeerPositions st) (disputes r) []")
  obtain es ms where uv: "updateVotes (convergePercent st) (mode st = Proposing) (a_parms A) (settxs (txns r)) ds None
      = (es, ms)"
    by (cases "updateVotes (convergePercent st) (mode st = Proposing) (a_parms A) (settxs (txns r)) ds None")
  have pk: "peers_ok (currPeerPositions st) (prevLedgerID st) (deadNodes st)" and
    rec: "recent_ok (recentPeerPositions st)" and rok: "result_ok P (acquired st) (currPeerPositions st) {} r"
    using inv r by (simp_all add: cons_inv_def cons_inv_exc_def)
  have fresh: "map fst ds = map fst (disputes r)" "\<forall>x \<in> set ds. dispute_ok P (acquired st) ps {} (txns r) x"
    using checkFreshness_ok[OF fr, of "[]" "acquired st" "txns r"] pk rok
    unfolding peers_ok_def result_ok_def by auto
  have ps: "ps = filter (\<lambda>(n, p). \<not> isStale p cut) (currPeerPositions st)"
    using checkFreshness_peers[of cut "asCloseTime A st" "currPeerPositions st" "disputes r" "[]"] fr by simp
  have pk': "peers_ok ps (prevLedgerID st) (deadNodes st)"
    using pk unfolding ps peers_ok_def by (simp add: distinct_map_filter) blast
  have dis: "distinct (map fst (disputes r))" using rok by (simp add: result_ok_def)
  have votes: "map fst es = map fst (disputes r)"
    "\<forall>x \<in> set es. dispute_ok P (acquired st) ps {}
       (case ms of None \<Rightarrow> txns r | Some m \<Rightarrow> \<lparr>setid = h, settxs = m\<rparr>) x" for h
    using updateVotes_dispute_ok[OF uv, of "acquired st" ps h] fresh dis by auto
  define r1 where "r1 = r\<lparr>disputes := es\<rparr>"
  define st1 where "st1 = st\<lparr>currPeerPositions := ps, result := Some r1\<rparr>"
  obtain t have' where ct: "closeTimeConsensus A st1 r1 v = (t, have')" by (cases "closeTimeConsensus A st1 r1 v")
  define st2 where "st2 = st1\<lparr>haveCloseTimeConsensus := have'\<rparr>"
  define new where "new = (let o' = map_option (\<lambda>m. \<lparr>setid = a_hash A m, settxs = m\<rparr>) ms
     in if o' = None \<and> (t \<noteq> asCloseTime A st2 (closeTime (rposition r1))
          \<or> isStale (rposition r1) (nowTime st - of_nat (proposeINTERVAL (a_parms A))))
        then Some (txns r1) else o')"
  have eq: "updateOurPositions A st = (case new of None \<Rightarrow> Some st2 | Some s \<Rightarrow> takePosition A s t st2)"
    unfolding updateOurPositions_def r bind.bind_lunit Let_def cut_def[symmetric] fr prod.case uv
      r1_def[symmetric] st1_def[symmetric] ct st2_def[symmetric] new_def by simp
  have f: "result st2 = Some r1" "currPeerPositions st2 = ps" "phase st2 = phase st" "acquired st2 = acquired st"
    "prevLedgerID st2 = prevLedgerID st" "deadNodes st2 = deadNodes st" "recentPeerPositions st2 = recentPeerPositions st"
    by (simp_all add: st2_def st1_def)
  have r1: "disputes r1 = es" "txns r1 = txns r" "rposition r1 = rposition r" by (simp_all add: r1_def)
  show ?thesis
  proof (cases new)
    case None
    then have "ms = None" by (simp add: new_def Let_def split: if_splits)
    then have "result_ok P (acquired st) ps {} r1"
      using rok votes dis by (simp add: result_ok_def r1)
    then have "cons_inv P st2" using pk' rec ph unfolding cons_inv_def cons_inv_exc_def f by simp
    then show ?thesis using eq None f(3) by simp
  next
    case (Some s)
    then have "s = (case ms of None \<Rightarrow> txns r | Some m \<Rightarrow> \<lparr>setid = a_hash A m, settxs = m\<rparr>)"
      by (auto simp: new_def Let_def r1 split: if_splits option.splits)
    then have "\<exists>st'. takePosition A s t st2 = Some st' \<and> cons_inv P st' \<and> phase st' = phase st2"
      using votes(1) votes(2)[of "a_hash A (the ms)"] dis pk' rec ph
      by (intro takePosition_ok[OF A f(1)]) (auto simp: f r1 split: option.splits)
    then show ?thesis using eq Some f(3) by simp
  qed
qed

lemma haveConsensus_ok:
  assumes "cons_inv P st" "result st = Some r"
  shows "\<exists>b st'. haveConsensus A st = Some (b, st') \<and> cons_inv P st' \<and> phase st' = phase st
    \<and> (\<exists>r'. result st' = Some r')"
  using assms by (simp add: haveConsensus_def Let_def cons_inv_def cons_inv_exc_def result_ok_def)

end

end
