(* ===== verification/Consensus_Safety.thy ===== *)
theory Consensus_Safety
  imports Consensus_Phases
begin

text \<open>
  The round as a whole: the timer, the start of a round and the stand-alone simulation keep the
  invariant, a sufficient recursion budget exists, a larger one changes nothing, and what is known
  when a ledger is accepted. The interleavings of the public operations are the steps of an
  inductively defined set of reachable states.
\<close>

section \<open>States and interleavings\<close>

text \<open>
  The freshly constructed object; the members without an initialiser are parameters.
\<close>

definition newConsensus :: "Ledger \<Rightarrow> ConsensusTimer \<Rightarrow> millis \<Rightarrow> LedgerID \<Rightarrow> Consensus" where
  "newConsensus L timer round l =
     \<lparr>phase = Accepted, mode = Observing, firstRound = True, haveCloseTimeConsensus = False,
      convergePercent = 0, openTime = timer, closeResolution = ledgerDefaultTimeResolution,
      prevRoundTime = round, nowTime = 0, prevCloseTime = 0, prevLedgerID = l, previousLedger = L,
      acquired = [], result = None, rawCloseTimes = \<lparr>ct_peers = [], ct_self = 0\<rparr>,
      currPeerPositions = [], recentPeerPositions = [], prevProposers = 0, deadNodes = {}, calls = []\<rparr>"

inductive reachable :: "Adaptor \<Rightarrow> Consensus \<Rightarrow> bool" for A where
  Created: "reachable A (newConsensus L timer round l)"
| StartRound: "reachable A st \<Longrightarrow> startRound fuel A now l L untrusted proposing st = Some st' \<Longrightarrow> reachable A st'"
| PeerProposal: "reachable A st \<Longrightarrow> peerProposal A now p st = Some (relay, st') \<Longrightarrow> reachable A st'"
| GotTxSet: "reachable A st \<Longrightarrow> gotTxSet A now s st = Some st' \<Longrightarrow> reachable A st'"
| TimerEntry: "reachable A st \<Longrightarrow> timerEntry fuel A now st = Some st' \<Longrightarrow> reachable A st'"
| Simulate: "reachable A st \<Longrightarrow> phase st = Open \<Longrightarrow> simulate A now delay st = Some st' \<Longrightarrow> reachable A st'"

section \<open>Recursion budget\<close>

text \<open>
  \<open>timerEntry\<close> restarts itself after a change of the working ledger. It settles when
  acquired ledgers have the requested id and the preferred ledger only ever moves forward in some
  well-founded order, given by \<open>rank\<close>.
\<close>

definition acquire_ok :: "Adaptor \<Rightarrow> bool" where
  "acquire_ok A \<longleftrightarrow> (\<forall>cs l L. a_acquireLedger A cs l = Some L \<longrightarrow> lgrId L = l)"

definition prevLedger_settles :: "(LedgerID \<Rightarrow> nat) \<Rightarrow> Adaptor \<Rightarrow> bool" where
  "prevLedger_settles rank A \<longleftrightarrow>
     (\<forall>cs l L m. a_getPrevLedger A cs l L m = l \<or> rank (a_getPrevLedger A cs l L m) < rank l)"

definition restarts :: "(LedgerID \<Rightarrow> nat) \<Rightarrow> LedgerID \<Rightarrow> Ledger \<Rightarrow> nat" where
  "restarts rank l L = 2 * rank l + (if lgrId L = l then 0 else 1)"

text \<open>A larger budget gives the same outcome.\<close>

lemma startRoundInternal_mono:
  assumes "\<And>t s x. timer t s = Some x \<Longrightarrow> timer' t s = Some x"
    and "startRoundInternal timer A now l L m st = Some x"
  shows "startRoundInternal timer' A now l L m st = Some x"
  using assms unfolding startRoundInternal_def Let_def
  by (auto split: bind_splits if_splits)

lemma handleWrongLedger_mono:
  assumes "\<And>t s x. timer t s = Some x \<Longrightarrow> timer' t s = Some x"
    and "handleWrongLedger timer A l st = Some x"
  shows "handleWrongLedger timer' A l st = Some x"
  using assms startRoundInternal_mono[of timer timer' A, OF assms(1)] unfolding handleWrongLedger_def Let_def
  by (auto split: bind_splits if_splits option.splits)

lemma checkLedger_mono:
  assumes "\<And>t s x. timer t s = Some x \<Longrightarrow> timer' t s = Some x"
    and "checkLedger timer A st = Some x"
  shows "checkLedger timer' A st = Some x"
  using assms(2) handleWrongLedger_mono[of timer timer' A, OF assms(1)] unfolding checkLedger_def Let_def
  by (auto split: if_splits)

lemma timerEntry_mono:
  "timerEntry fuel A now st = Some x \<Longrightarrow> fuel \<le> fuel' \<Longrightarrow> timerEntry fuel' A now st = Some x"
proof (induction fuel arbitrary: fuel' now st x)
  case (Suc fuel)
  obtain fuel1 where f: "fuel' = Suc fuel1" "fuel \<le> fuel1" using Suc.prems(2) by (cases fuel') auto
  have "checkLedger (timerEntry fuel1 A) A s = Some y" if "checkLedger (timerEntry fuel A) A s = Some y" for s y
    using checkLedger_mono[OF _ that] Suc.IH f(2) by blast
  then show ?case using Suc.prems(1) unfolding f by (auto split: if_splits bind_splits)
qed simp

section \<open>The timer\<close>

text \<open>What is known when the timer accepts a ledger.\<close>

definition accepted_by_consensus :: "Adaptor \<Rightarrow> Consensus \<Rightarrow> bool" where
  "accepted_by_consensus A st \<longleftrightarrow> (\<exists>r cs pp pr fin.
     result st = Some r
     \<and> calls st = cs @ [OnAccept r (previousLedger st) (closeResolution st) (rawCloseTimes st) (mode st)]
     \<and> haveCloseTimeConsensus st
     \<and> prevProposers st = length (currPeerPositions st) \<and> prevRoundTime st = tdur (roundTime r)
     \<and> rstate r \<noteq> No
     \<and> rstate r = checkConsensus pp (length (currPeerPositions st))
         (length (filter (\<lambda>(n, p). position p = position (rposition r)) (currPeerPositions st)))
         fin pr (tdur (roundTime r)) (a_parms A) (mode st = Proposing))"

definition round_ok :: "Adaptor \<Rightarrow> (DisputedTx \<Rightarrow> bool) \<Rightarrow> Consensus \<Rightarrow> bool" where
  "round_ok A P st \<longleftrightarrow> cons_inv P st \<and> (phase st = Accepted \<longrightarrow> accepted_by_consensus A st)"

lemma round_okI: "cons_inv P st \<Longrightarrow> phase st \<noteq> Accepted \<Longrightarrow> round_ok A P st"
  by (simp add: round_ok_def)

lemma length_filter_partition:
  "length (filter (\<lambda>(n, p). f p) xs) + length (filter (\<lambda>(n, p). \<not> f p) xs) = length xs"
  by (induction xs) auto

lemma haveConsensus_state:
  assumes "haveConsensus A st = Some (b, st')"
  shows "\<exists>r fin. result st' = Some r \<and> b = (rstate r \<noteq> No)
    \<and> rstate r = checkConsensus (prevProposers st') (length (currPeerPositions st'))
         (length (filter (\<lambda>(n, p). position p = position (rposition r)) (currPeerPositions st')))
         fin (prevRoundTime st') (tdur (roundTime r)) (a_parms A) (mode st' = Proposing)"
proof -
  obtain r where r: "result st = Some r" using assms by (cases "result st") (auto simp: haveConsensus_def)
  define s1 where "s1 = call (ProposersFinished (previousLedger st) (prevLedgerID st)) st"
  define x where "x = checkConsensus (prevProposers s1) (length (currPeerPositions s1))
         (length (filter (\<lambda>(n, p). position p = position (rposition r)) (currPeerPositions s1)))
         (a_proposersFinished A (calls s1) (previousLedger s1) (prevLedgerID s1))
         (prevRoundTime s1) (tdur (roundTime r)) (a_parms A) (mode s1 = Proposing)"
  have "haveConsensus A st = Some (x \<noteq> No, s1\<lparr>result := Some (r\<lparr>rstate := x\<rparr>)\<rparr>)"
    using r length_filter_partition[of "\<lambda>p. position p = position (rposition r)" "currPeerPositions st"]
    by (simp add: haveConsensus_def Let_def s1_def x_def)
  then have st': "st' = s1\<lparr>result := Some (r\<lparr>rstate := x\<rparr>)\<rparr>" "b = (x \<noteq> No)" using assms by auto
  show ?thesis unfolding st'
    by (intro exI[of _ "r\<lparr>rstate := x\<rparr>"]
        exI[of _ "a_proposersFinished A (calls s1) (previousLedger s1) (prevLedgerID s1)"]) (simp add: x_def)
qed

context dispute_invariant
begin

lemma phaseEstablish_ok:
  assumes A: "compare_ok A" and inv: "cons_inv P st" and ph: "phase st = Establish"
  shows "\<exists>st'. phaseEstablish A st = Some st' \<and> round_ok A P st'"
proof -
  obtain r where r: "result st = Some r" using inv ph by (auto simp: cons_inv_def cons_inv_exc_def)
  define s1 where "s1 = call ReadClock st"
  define r1 where "r1 = r\<lparr>roundTime := timer_tick (a_clock A (calls s1)) (roundTime r),
                    rproposers := length (currPeerPositions s1)\<rparr>"
  define s2 where "s2 = s1\<lparr>result := Some r1, convergePercent := signed_take_bit 31
       ((tdur (roundTime r1) * 100) sdiv max (prevRoundTime s1) (avMIN_CONSENSUS_TIME (a_parms A)))\<rparr>"
  have s2: "cons_inv P s2" "result s2 = Some r1" "phase s2 = Establish"
    using inv r ph by (simp_all add: s2_def s1_def r1_def cons_inv_def cons_inv_exc_def result_ok_def)
  obtain s3 where s3: "updateOurPositions A s2 = Some s3" "cons_inv P s3" "phase s3 = Establish"
    using updateOurPositions_ok[OF A s2(1,2)] s2(3) by auto
  then obtain r3 where "result s3 = Some r3" by (auto simp: cons_inv_def cons_inv_exc_def)
  then obtain b s4 where s4: "haveConsensus A s3 = Some (b, s4)" "phase s4 = Establish" "cons_inv P s4"
    using haveConsensus_ok[OF s3(2)] s3(3) by metis
  obtain r4 fin where r4: "result s4 = Some r4" "b = (rstate r4 \<noteq> No)"
    "rstate r4 = checkConsensus (prevProposers s4) (length (currPeerPositions s4))
         (length (filter (\<lambda>(n, p). position p = position (rposition r4)) (currPeerPositions s4)))
         fin (prevRoundTime s4) (tdur (roundTime r4)) (a_parms A) (mode s4 = Proposing)"
    using haveConsensus_state[OF s4(1)] by blast
  define s5 where "s5 = call (OnAccept r4 (previousLedger s4) (closeResolution s4) (rawCloseTimes s4) (mode s4))
        (s4\<lparr>prevProposers := length (currPeerPositions s4), prevRoundTime := tdur (roundTime r4), phase := Accepted\<rparr>)"
  have eq: "phaseEstablish A st = (if tdur (roundTime r1) < ledgerMIN_CONSENSUS (a_parms A) then Some s2
      else if \<not> b \<or> \<not> haveCloseTimeConsensus s4 then Some s4 else Some s5)"
    unfolding phaseEstablish_def r bind.bind_lunit Let_def s1_def[symmetric] r1_def[symmetric] s2_def[symmetric]
    using s3(1) s4(1) r4(1) by (simp add: s5_def)
  have "accepted_by_consensus A s5" if "b" "haveCloseTimeConsensus s4"
    unfolding accepted_by_consensus_def using r4 that
    by (intro exI[of _ r4] exI[of _ "calls s4"] exI[of _ "prevProposers s4"] exI[of _ "prevRoundTime s4"] exI[of _ fin])
      (simp add: s5_def call_def)
  moreover have "cons_inv P s5" using s4(3) by (simp add: s5_def cons_inv_def cons_inv_exc_def)
  ultimately show ?thesis
    using eq s2 s4 by (simp add: round_ok_def)
qed

lemma timerEntry_safe:
  assumes A: "compare_ok A" "onClose_ok A"
    and env: "tot \<Longrightarrow> acquire_ok A \<and> prevLedger_settles rank A"
  shows "cons_inv P st \<Longrightarrow> phase st \<noteq> Accepted \<Longrightarrow>
    (tot \<Longrightarrow> restarts rank (prevLedgerID st) (previousLedger st) < fuel) \<Longrightarrow>
      safe_outcome tot (round_ok A P) (timerEntry fuel A now st)"
proof (induction fuel arbitrary: now st)
  case 0
  then show ?case by (auto simp: safe_outcome_def)
next
  case (Suc fuel)
  let ?st = "st\<lparr>nowTime := now\<rparr>"
  have "safe_outcome tot (round_ok A P) (checkLedger (timerEntry fuel A) A ?st)"
  proof (rule checkLedger_safe[OF A(1)])
    fix t s cs cs' m l
    assume opn: "phase s = Open" and s: "cons_inv P s" "prevLedgerID s = l"
      "l = a_getPrevLedger A cs (prevLedgerID ?st) (previousLedger ?st) m"
      "a_acquireLedger A cs' l = Some (previousLedger s)"
      "l \<noteq> prevLedgerID ?st \<or> lgrId (previousLedger ?st) \<noteq> prevLedgerID ?st"
    have "restarts rank (prevLedgerID s) (previousLedger s) < fuel" if tot
    proof -
      have "lgrId (previousLedger s) = l" using env[OF that] s(4) by (auto simp: acquire_ok_def)
      moreover have "l = prevLedgerID st \<or> rank l < rank (prevLedgerID st)"
        using env[OF that] s(3) by (simp add: prevLedger_settles_def)
      ultimately show ?thesis
        using Suc.prems(3)[OF that] s(2,5) by (auto simp: restarts_def split: if_splits)
    qed
    then show "safe_outcome tot (round_ok A P) (timerEntry fuel A t s)"
      using Suc.IH[OF s(1)] opn by simp
  qed (use Suc.prems in \<open>auto intro: round_okI\<close>)
  moreover have "safe_outcome tot (round_ok A P)
      (if phase s = Open then phaseOpen A s else if phase s = Establish then phaseEstablish A s else Some s)"
    if "round_ok A P s" for s
  proof -
    have inv: "cons_inv P s" using that by (simp add: round_ok_def)
    show ?thesis
      using phaseOpen_ok[OF A inv] phaseEstablish_ok[OF A(1) inv] that
      by (cases "phase s") (auto intro: round_okI)
  qed
  ultimately show ?case
    using Suc.prems(2) by (simp add: safe_outcome_bind)
qed

lemma timerEntry_inv:
  assumes "compare_ok A" "onClose_ok A" "cons_inv P st" "timerEntry fuel A now st = Some st'"
  shows "cons_inv P st'"
proof (cases "phase st = Accepted")
  case True
  then show ?thesis using assms(3,4) by (cases fuel) auto
next
  case False
  then have "safe_outcome False (round_ok A P) (timerEntry fuel A now st)"
    using timerEntry_safe[OF assms(1,2), of False] assms(3) by simp
  then show ?thesis using assms(4) by (simp add: round_ok_def)
qed

text \<open>The start of a round, with the budget for its possible first timer entry.\<close>

lemma startRound_safe:
  assumes A: "compare_ok A" "onClose_ok A" and inv: "cons_inv P st"
    and env: "tot \<Longrightarrow> acquire_ok A \<and> prevLedger_settles rank A"
    and fuel: "tot \<Longrightarrow> 2 * rank l + 1 < fuel"
  shows "safe_outcome tot (round_ok A P) (startRound fuel A now l L untrusted proposing st)"
proof -
  have rec: "recent_ok (fold AList.delete ns rec)" if "recent_ok rec" for ns rec
    using that
  proof (induction ns arbitrary: rec)
    case (Cons n ns)
    have "recent_ok (AList.delete n rec)"
      using Cons.prems unfolding recent_ok_def by (auto simp: AList.distinct_delete)
    then show ?case using Cons.IH by simp
  qed simp
  have round: "safe_outcome tot (round_ok A P) (startRoundInternal (timerEntry fuel A) A now l M m s)"
    if "recent_ok (recentPeerPositions s)" for M m s
  proof (rule startRoundInternal_safe[OF A(1) that])
    fix t s' assume "cons_inv P s'" "phase s' = Open" "prevLedgerID s' = l"
    then show "safe_outcome tot (round_ok A P) (timerEntry fuel A t s')"
      using env fuel by (intro timerEntry_safe[OF A, of tot rank]) (auto simp: restarts_def)
  qed (auto intro: round_okI)
  have "recent_ok (recentPeerPositions st)" using inv by (simp add: cons_inv_def cons_inv_exc_def)
  then show ?thesis
    unfolding startRound_def Let_def
    by (cases "lgrId L = l") (simp_all add: round rec split: option.split)
qed

lemma simulate_ok:
  assumes "compare_ok A" "onClose_ok A" "cons_inv P st" "phase st = Open"
  shows "\<exists>st'. simulate A now delay st = Some st' \<and> cons_inv P st' \<and> phase st' = Accepted"
proof -
  have "cons_inv P (st\<lparr>nowTime := now\<rparr>)" "result (st\<lparr>nowTime := now\<rparr>) = None"
    using assms(3,4) by (simp_all add: cons_inv_def cons_inv_exc_def)
  then obtain s where s: "closeLedger A (st\<lparr>nowTime := now\<rparr>) = Some s" "cons_inv P s" "phase s = Establish"
    using closeLedger_ok[OF assms(1,2)] by blast
  then obtain r where r: "result s = Some r" by (auto simp: cons_inv_def cons_inv_exc_def)
  show ?thesis
    using s r by (simp add: simulate_def Let_def cons_inv_def cons_inv_exc_def result_ok_def)
qed

lemma reachable_cons_inv:
  assumes "reachable A st" "compare_ok A" "onClose_ok A"
  shows "cons_inv P st"
  using assms(1)
proof induction
  case Created
  show ?case by (simp add: newConsensus_def cons_inv_def cons_inv_exc_def peers_ok_def recent_ok_def)
next
  case (StartRound st fuel now l L untrusted proposing st')
  then show ?case
    using startRound_safe[OF assms(2,3), of st False _ l fuel now L untrusted proposing]
    by (simp add: round_ok_def)
next
  case (PeerProposal st now p relay st')
  then show ?case using peerProposal_ok[OF assms(2), of st now p] by auto
next
  case (GotTxSet st now s st')
  then show ?case using gotTxSet_ok[OF assms(2), of st now s] by auto
next
  case (TimerEntry st fuel now st')
  then show ?case using timerEntry_inv[OF assms(2,3)] by blast
next
  case (Simulate st now delay st')
  then show ?case using simulate_ok[OF assms(2,3), of st now delay] by auto
qed

end

section \<open>An example adaptor\<close>

definition exampleLedger :: "LedgerID \<Rightarrow> Ledger" where
  "exampleLedger l = \<lparr>lgrId = l, lgrSeq = 7, closeTimeResolution = 30, closeAgree = True,
     lgrCloseTime = 600, parentCloseTime = 570\<rparr>"

definition exampleSet :: TxSet where
  "exampleSet = \<lparr>setid = 5, settxs = [\<lparr>txid = 1, txdata = []\<rparr>, \<lparr>txid = 2, txdata = []\<rparr>]\<rparr>"

definition exampleProposal :: "LedgerID \<Rightarrow> net_time \<Rightarrow> NodeID \<Rightarrow> TxSetID \<Rightarrow> ConsensusProposal" where
  "exampleProposal l t n i = \<lparr>prevLedger = l, position = i, closeTime = t, seenTime = t, proposeSeq = 0, nodeID = n\<rparr>"

definition exampleAdaptor :: Adaptor where
  "exampleAdaptor = \<lparr>a_parms = defaultParms, a_clock = (\<lambda>cs. 4000000000 * int (length cs)),
     a_acquireLedger = (\<lambda>cs l. Some (exampleLedger l)),
     a_acquireTxSet = (\<lambda>cs i. if i = 6 then Some \<lparr>setid = 6, settxs = [\<lparr>txid = 1, txdata = []\<rparr>]\<rparr> else None),
     a_hasOpenTransactions = (\<lambda>cs. True), a_proposersValidated = (\<lambda>cs l. 0),
     a_proposersFinished = (\<lambda>cs L l. 0), a_getPrevLedger = (\<lambda>cs l L m. l),
     a_onClose = (\<lambda>cs L t m. (exampleSet, exampleProposal (lgrId L) t 0 5)),
     a_compare = (\<lambda>a b. map (\<lambda>t. (txid t, True)) (filter (\<lambda>t. \<not> ts_exists b (txid t)) (settxs a))
       @ map (\<lambda>t. (txid t, False)) (filter (\<lambda>t. \<not> ts_exists a (txid t)) (settxs b))),
     a_hash = (\<lambda>m. 7 - length m)\<rparr>"

lemma exampleAdaptor_ok:
  "compare_ok exampleAdaptor" "onClose_ok exampleAdaptor" "acquire_ok exampleAdaptor"
  "prevLedger_settles (\<lambda>l. 0) exampleAdaptor"
  by (auto simp: compare_ok_def onClose_ok_def acquire_ok_def prevLedger_settles_def exampleAdaptor_def
      exampleSet_def exampleProposal_def exampleLedger_def ts_exists_def list_ex_iff)

definition exampleRun :: "Consensus option" where
  "exampleRun =
     do { st \<leftarrow> startRound 2 exampleAdaptor 610 3 (exampleLedger 3) [] True
            (newConsensus (exampleLedger 0) \<lparr>tstart = 0, tdur = 0\<rparr> 0 0);
          (relay, st) \<leftarrow> peerProposal exampleAdaptor 611 (exampleProposal 3 611 9 6) st;
          timerEntry 2 exampleAdaptor 612 st }"

lemma exampleRun_reachable:
  obtains st where "exampleRun = Some st" "reachable exampleAdaptor st" "phase st = Establish"
proof -
  have "map_option phase exampleRun = Some Establish" by code_simp
  then obtain st where st: "exampleRun = Some st" "phase st = Establish" by auto
  then have "reachable exampleAdaptor st"
    unfolding exampleRun_def
    by (auto split: bind_splits intro: TimerEntry[OF PeerProposal[OF StartRound[OF Created]]])
  with st show ?thesis using that by blast
qed

section \<open>Properties of the round\<close>





text \<open>
  C6. When \<^verbatim>\<open>timerEntry\<close> accepts a ledger it has handed \<^verbatim>\<open>onAccept\<close> the result as its
  last call, there is consensus on the close time, and \<^verbatim>\<open>checkConsensus\<close>, applied to the
  positions now held and our own, has not answered \<^verbatim>\<open>No\<close>; the proposer count and the round
  time are kept for the next round.
\<close>

theorem timerEntry_accepts:
  assumes "reachable A st" "compare_ok A" "onClose_ok A" "phase st \<noteq> Accepted"
    and "timerEntry fuel A now st = Some st'" "phase st' = Accepted"
  shows "accepted_by_consensus A st'"
proof -
  have "safe_outcome False (round_ok A votes_ok) (timerEntry fuel A now st)"
    using tally.timerEntry_safe[OF assms(2,3), of False] tally.reachable_cons_inv[OF assms(1-3)] assms(4)
    by simp
  then show ?thesis using assms(5,6) by (simp add: round_ok_def)
qed

theorem timerEntry_accepts_witness:
  "\<exists>st'. exampleRun \<bind> timerEntry 2 exampleAdaptor 620 = Some st' \<and> phase st' = Accepted
     \<and> accepted_by_consensus exampleAdaptor st'"
proof -
  obtain st where st: "exampleRun = Some st" "reachable exampleAdaptor st" "phase st = Establish"
    using exampleRun_reachable by blast
  have "map_option phase (exampleRun \<bind> timerEntry 2 exampleAdaptor 620) = Some Accepted" by code_simp
  then obtain st' where st': "timerEntry 2 exampleAdaptor 620 st = Some st'" "phase st' = Accepted"
    unfolding st(1) bind.bind_lunit by auto
  then show ?thesis
    using timerEntry_accepts[OF st(2) exampleAdaptor_ok(1,2) _ st'] st(3)
    unfolding st(1) bind.bind_lunit by simp
qed

text \<open>
  C8. \<^verbatim>\<open>peerProposal\<close> relays a proposal exactly when the round is running, the proposal
  builds on the working ledger, its node has not bowed out and it is newer than the node's current
  position. Then it replaces that position, or removes the node for the rest of the round if it is a
  bow-out; a proposal that is not relayed changes no position.
\<close>

theorem peerProposal_positions:
  assumes "reachable A st" "compare_ok A" "onClose_ok A" and "peerProposal A now p st = Some (relay, st')"
  shows "relay = (phase st \<noteq> Accepted \<and> prevLedger p = prevLedgerID st \<and> nodeID p \<notin> deadNodes st
        \<and> (case map_of (currPeerPositions st) (nodeID p) of None \<Rightarrow> True | Some q \<Rightarrow> proposeSeq q < proposeSeq p))
    \<and> map_of (currPeerPositions st') =
        (if relay then (map_of (currPeerPositions st))(nodeID p := if isBowOut p then None else Some p)
         else map_of (currPeerPositions st))
    \<and> deadNodes st' = (if relay \<and> isBowOut p then insert (nodeID p) (deadNodes st) else deadNodes st)"
proof -
  define s0 where "s0 = pushRecent p st"
  define s where "s = s0\<lparr>nowTime := now\<rparr>"
  have inv: "cons_inv votes_ok s"
    using cons_inv_pushRecent[OF tally.reachable_cons_inv[OF assms(1-3)]] by (simp add: s_def s0_def)
  have f: "phase s0 = phase st" "prevLedgerID s = prevLedgerID st" "deadNodes s = deadNodes st"
    "currPeerPositions s = currPeerPositions st" "deadNodes s0 = deadNodes st"
    "currPeerPositions s0 = currPeerPositions st"
    by (simp_all add: s_def s0_def pushRecent_def Let_def)
  have d: "distinct (map fst (currPeerPositions st))"
    using peers_ok_distinct[OF cons_inv_peers[OF inv[unfolded cons_inv_def]]] f(4) by simp
  let ?old = "case map_of (currPeerPositions st) (nodeID p) of None \<Rightarrow> False | Some q \<Rightarrow> proposeSeq p \<le> proposeSeq q"
  have q: "(case map_of (currPeerPositions st) (nodeID p) of None \<Rightarrow> True | Some q \<Rightarrow> proposeSeq q < proposeSeq p)
      \<longleftrightarrow> \<not> ?old"
    by (auto split: option.split)
  have eq: "(if phase st = Accepted then Some (False, s0)
      else if prevLedger p \<noteq> prevLedgerID st \<or> nodeID p \<in> deadNodes st \<or> ?old then Some (False, s)
      else if isBowOut p then Some (True, peerBowOut (nodeID p) s)
      else map_option (Pair True) (trackPosition A now p (storePosition p s))) = Some (relay, st')"
    unfolding assms(4)[symmetric] peerProposal_def peerProposalInternal_def Let_def s0_def[symmetric] f
      s_def[symmetric] by simp
  have stored: "currPeerPositions st' = AList.update (nodeID p) p (currPeerPositions st)" "deadNodes st' = deadNodes st"
    if "trackPosition A now p (storePosition p s) = Some st'" "prevLedger p = prevLedgerID st"
      "nodeID p \<notin> deadNodes st"
  proof -
    have "cons_inv_exc votes_ok (if map_of (acquired (storePosition p s)) (position p) = None then {} else {nodeID p})
        (storePosition p s)"
      using tally.storePosition_ok[OF inv, of p] that f by simp
    then have "peers_frame (storePosition p s) st'"
      using tally.trackPosition_ok[OF assms(2), of "storePosition p s" p now] that(1) f d by simp
    moreover have "deadNodes (storePosition p s) = deadNodes s" by (simp add: storePosition_def Let_def)
    ultimately show "currPeerPositions st' = AList.update (nodeID p) p (currPeerPositions st)"
      "deadNodes st' = deadNodes st"
      using f(3,4) by (simp_all add: peers_frame_def)
  qed
  have del: "map_of (AList.delete (nodeID p) xs) = (map_of xs)(nodeID p := None)"
    for xs :: "(NodeID \<times> ConsensusProposal) list" by (simp add: AList.delete_conv')
  show ?thesis
    unfolding q using eq stored f
    by (simp add: peerBowOut_def del update_conv' split: if_splits) (auto simp: update_conv' del)
qed

theorem peerProposal_positions_witness:
  "\<exists>st relay st'. exampleRun = Some st
     \<and> peerProposal exampleAdaptor 615 (exampleProposal 3 615 8 5) st = Some (relay, st') \<and> relay
     \<and> map_of (currPeerPositions st') 8 = Some (exampleProposal 3 615 8 5)"
proof -
  obtain st where st: "exampleRun = Some st" "reachable exampleAdaptor st"
    using exampleRun_reachable by blast
  have "map_option fst (exampleRun \<bind> peerProposal exampleAdaptor 615 (exampleProposal 3 615 8 5)) = Some True"
    by code_simp
  then obtain st' where st': "peerProposal exampleAdaptor 615 (exampleProposal 3 615 8 5) st = Some (True, st')"
    unfolding st(1) bind.bind_lunit by auto
  have "\<not> isBowOut (exampleProposal 3 615 8 5)" "nodeID (exampleProposal 3 615 8 5) = 8" by code_simp+
  then show ?thesis
    using peerProposal_positions[OF st(2) exampleAdaptor_ok(1,2) st'] st(1) st'
    by (intro exI[of _ st] exI[of _ True] exI[of _ st']) simp
qed

end
