(* ===== verification/LedgerTrie.thy ===== *)
theory LedgerTrie
  imports Prelude_Ripple "HOL-Library.Multiset" "HOL-Library.Sublist" "HOL-Library.Monad_Syntax"
begin

text \<open>
  The compressed trie of validated ledgers, \<^verbatim>\<open>ripple/consensus/LedgerTrie.h\<close>.

  The class is a template over a ledger type with a unique history. Its documented contract is
  implemented here by the list of the ids of its ancestors and itself: \<^verbatim>\<open>operator[]\<close> is
  list access, \<^verbatim>\<open>seq\<close> is the last index, and \<^verbatim>\<open>mismatch\<close> is the length of the longest
  common prefix. The nodes, which the code links by owning child pointers and parent pointers, are a
  datatype; a node pointer is the path of child indices from the root, and the loops along parent
  pointers are the recursion along that path. Support counts and sequence numbers are natural
  numbers: a count is a number of validators and stays far below the 32 bits of the code.
  An operation returns \<^const>\<open>None\<close> where the code would fail an assertion.
\<close>

section \<open>Ledgers and spans\<close>

type_synonym Seq = nat
type_synonym LedgerHist = "nat list"

definition seq :: "LedgerHist \<Rightarrow> Seq" where
  "seq l = length l - 1"

fun mismatch :: "LedgerHist \<Rightarrow> LedgerHist \<Rightarrow> Seq" where
  "mismatch (x # xs) (y # ys) = (if x = y then Suc (mismatch xs ys) else 0)"
| "mismatch xs ys = 0"

record SpanTip =
  tipSeq :: Seq
  tipID :: nat
  tipLedger :: LedgerHist

definition ancestor :: "SpanTip \<Rightarrow> Seq \<Rightarrow> nat option" where
  "ancestor t s = (if s \<le> tipSeq t then Some (tipLedger t ! s) else None)"

record Span =
  sstart :: Seq
  send :: Seq
  sledger :: LedgerHist

definition genesisSpan :: Span where
  "genesisSpan = \<lparr>sstart = 0, send = 1, sledger = [0]\<rparr>"

definition newSpan :: "LedgerHist \<Rightarrow> Span" where
  "newSpan l = \<lparr>sstart = 0, send = seq l + 1, sledger = l\<rparr>"

definition clamp :: "Span \<Rightarrow> Seq \<Rightarrow> Seq" where
  "clamp sp v = min (max (sstart sp) v) (send sp)"

definition sub_span :: "Span \<Rightarrow> Seq \<Rightarrow> Seq \<Rightarrow> Span option" where
  "sub_span sp frm to =
     (let newFrom = clamp sp frm; newTo = clamp sp to
      in if newFrom < newTo then Some \<lparr>sstart = newFrom, send = newTo, sledger = sledger sp\<rparr> else None)"

definition from_span :: "Span \<Rightarrow> Seq \<Rightarrow> Span option" where
  "from_span sp spot = sub_span sp spot (send sp)"

definition before_span :: "Span \<Rightarrow> Seq \<Rightarrow> Span option" where
  "before_span sp spot = sub_span sp (sstart sp) spot"

definition startID :: "Span \<Rightarrow> nat" where
  "startID sp = sledger sp ! sstart sp"

definition diff :: "Span \<Rightarrow> LedgerHist \<Rightarrow> Seq" where
  "diff sp l = clamp sp (mismatch (sledger sp) l)"

definition tip :: "Span \<Rightarrow> SpanTip" where
  "tip sp = \<lparr>tipSeq = send sp - 1, tipID = sledger sp ! (send sp - 1), tipLedger = sledger sp\<rparr>"

definition merge_span :: "Span \<Rightarrow> Span \<Rightarrow> Span" where
  "merge_span a b =
     (if send a < send b
      then \<lparr>sstart = min (sstart a) (sstart b), send = send b, sledger = sledger b\<rparr>
      else \<lparr>sstart = min (sstart a) (sstart b), send = send a, sledger = sledger a\<rparr>)"

section \<open>Nodes\<close>

datatype TrieNode =
  TrieNode (nspan: Span) (ntip: nat) (nbranch: nat) (nchildren: "TrieNode list")

record LedgerTrie =
  root :: TrieNode
  seqSupport :: "(Seq \<times> nat) list"

definition emptyTrie :: LedgerTrie where
  "emptyTrie = \<lparr>root = TrieNode genesisSpan 0 0 [], seqSupport = []\<rparr>"

text \<open>\<^verbatim>\<open>Node::erase\<close>: the erased child is swapped with the last one.\<close>

definition erase_child :: "nat \<Rightarrow> TrieNode list \<Rightarrow> TrieNode list" where
  "erase_child i cs = butlast (cs[i := last cs])"

fun find_child :: "Seq \<Rightarrow> LedgerHist \<Rightarrow> TrieNode list \<Rightarrow> nat option" where
  "find_child pos l [] = None"
| "find_child pos l (c # cs) =
     (if diff (nspan c) l > pos then Some 0 else map_option Suc (find_child pos l cs))"

lemma find_child_Some:
  "find_child pos l cs = Some i \<Longrightarrow> i < length cs \<and> diff (nspan (cs ! i)) l > pos"
  by (induction cs arbitrary: i) (auto split: if_splits)

lemma size_nth_child: "i < length cs \<Longrightarrow> size (cs ! i) < Suc (size_list size cs)"
  using size_list_estimation'[of "cs ! i" cs "size (cs ! i)" size] by simp

function trie_find :: "TrieNode \<Rightarrow> LedgerHist \<Rightarrow> nat list \<times> Seq" where
  "trie_find (TrieNode sp t b cs) l =
     (let pos = diff sp l
      in if pos = send sp
         then (case find_child pos l cs of
                 None \<Rightarrow> ([], pos)
               | Some i \<Rightarrow> let (p, d) = trie_find (cs ! i) l in (i # p, d))
         else ([], pos))"
  by pat_completeness auto
termination
  by (relation "measure (\<lambda>(n, l). size n)") (auto dest!: find_child_Some intro: size_nth_child)

fun node_at :: "nat list \<Rightarrow> TrieNode \<Rightarrow> TrieNode" where
  "node_at [] n = n"
| "node_at (i # p) n = node_at p (nchildren n ! i)"

section \<open>Insertion\<close>

definition insert_here :: "LedgerHist \<Rightarrow> nat \<Rightarrow> Seq \<Rightarrow> TrieNode \<Rightarrow> TrieNode option" where
  "insert_here l cnt d n =
     do { n \<leftarrow> (case from_span (nspan n) d of
                 None \<Rightarrow> Some n
               | Some oldSuffix \<Rightarrow>
                   map_option (\<lambda>prefix. TrieNode prefix 0 (nbranch n)
                     [TrieNode oldSuffix (ntip n) (nbranch n) (nchildren n)]) (before_span (nspan n) d));
          Some (case from_span (newSpan l) d of
                  None \<Rightarrow> TrieNode (nspan n) (ntip n + cnt) (nbranch n + cnt) (nchildren n)
                | Some newSuffix \<Rightarrow> TrieNode (nspan n) (ntip n) (nbranch n + cnt)
                    (nchildren n @ [TrieNode newSuffix cnt cnt []])) }"

fun insert_at :: "LedgerHist \<Rightarrow> nat \<Rightarrow> Seq \<Rightarrow> nat list \<Rightarrow> TrieNode \<Rightarrow> TrieNode option" where
  "insert_at l cnt d [] n = insert_here l cnt d n"
| "insert_at l cnt d (i # p) n =
     map_option (\<lambda>c. TrieNode (nspan n) (ntip n) (nbranch n + cnt) ((nchildren n)[i := c]))
       (insert_at l cnt d p (nchildren n ! i))"

fun add_support :: "Seq \<Rightarrow> nat \<Rightarrow> (Seq \<times> nat) list \<Rightarrow> (Seq \<times> nat) list" where
  "add_support s cnt [] = [(s, cnt)]"
| "add_support s cnt ((s', c) # ss) =
     (if s < s' then (s, cnt) # (s', c) # ss
      else if s = s' then (s', c + cnt) # ss
      else (s', c) # add_support s cnt ss)"

definition trie_insert :: "LedgerHist \<Rightarrow> nat \<Rightarrow> LedgerTrie \<Rightarrow> LedgerTrie option" where
  "trie_insert l cnt T =
     (let (p, d) = trie_find (root T) l
      in map_option (\<lambda>r. \<lparr>root = r, seqSupport = add_support (seq l) cnt (seqSupport T)\<rparr>)
           (insert_at l cnt d p (root T)))"

section \<open>Removal\<close>

text \<open>One turn of the compression loop, on child \<open>i\<close>: the flag says whether the loop goes on.\<close>

definition compress_child :: "nat \<Rightarrow> TrieNode list \<Rightarrow> TrieNode list \<times> bool" where
  "compress_child i cs =
     (let loc = cs ! i
      in if ntip loc = 0
         then (case nchildren loc of
                 [] \<Rightarrow> (erase_child i cs, True)
               | [child] \<Rightarrow>
                   (erase_child i (cs @ [TrieNode (merge_span (nspan loc) (nspan child)) (ntip child)
                      (nbranch child) (nchildren child)]), True)
               | _ \<Rightarrow> (cs, False))
         else (cs, False))"

fun remove_at :: "nat \<Rightarrow> nat list \<Rightarrow> TrieNode \<Rightarrow> TrieNode \<times> bool" where
  "remove_at cnt [] n = (TrieNode (nspan n) (ntip n - cnt) (nbranch n - cnt) (nchildren n), True)"
| "remove_at cnt (i # p) n =
     (let (c, go) = remove_at cnt p (nchildren n ! i);
          cs = (nchildren n)[i := c];
          (cs, go) = (if go then compress_child i cs else (cs, False))
      in (TrieNode (nspan n) (ntip n) (nbranch n - cnt) cs, go))"

fun sub_support :: "Seq \<Rightarrow> nat \<Rightarrow> (Seq \<times> nat) list \<Rightarrow> (Seq \<times> nat) list option" where
  "sub_support s cnt [] = None"
| "sub_support s cnt ((s', c) # ss) =
     (if s = s'
      then (if c \<ge> cnt then Some (if c - cnt = 0 then ss else (s', c - cnt) # ss) else None)
      else map_option (Cons (s', c)) (sub_support s cnt ss))"

definition trie_remove :: "LedgerHist \<Rightarrow> nat \<Rightarrow> LedgerTrie \<Rightarrow> (bool \<times> LedgerTrie) option" where
  "trie_remove l cnt T =
     (let (p, d) = trie_find (root T) l; loc = node_at p (root T)
      in if d = send (nspan loc) \<and> d > seq l \<and> ntip loc > 0
         then let cnt = min cnt (ntip loc)
              in map_option (\<lambda>ss. (True, \<lparr>root = fst (remove_at cnt p (root T)), seqSupport = ss\<rparr>))
                   (sub_support (seq l) cnt (seqSupport T))
         else Some (False, T))"

section \<open>Queries\<close>

definition tipSupport :: "LedgerTrie \<Rightarrow> LedgerHist \<Rightarrow> nat" where
  "tipSupport T l =
     (let (p, d) = trie_find (root T) l; loc = node_at p (root T)
      in if d = send (nspan loc) \<and> d > seq l then ntip loc else 0)"

definition branchSupport :: "LedgerTrie \<Rightarrow> LedgerHist \<Rightarrow> nat" where
  "branchSupport T l =
     (let (p, d) = trie_find (root T) l; loc = node_at p (root T)
      in if d > seq l \<and> seq l < send (nspan loc) then nbranch loc else 0)"

definition trie_empty :: "LedgerTrie \<Rightarrow> bool" where
  "trie_empty T \<longleftrightarrow> nbranch (root T) = 0"

text \<open>The walk of \<^verbatim>\<open>getPreferred\<close>; the rest of \<open>seqSupport\<close> is the iterator.\<close>

fun add_uncommitted :: "Seq \<Rightarrow> nat \<Rightarrow> (Seq \<times> nat) list \<Rightarrow> nat \<times> (Seq \<times> nat) list" where
  "add_uncommitted bound unc [] = (unc, [])"
| "add_uncommitted bound unc ((s, c) # ss) =
     (if s < bound then add_uncommitted bound (unc + c) ss else (unc, (s, c) # ss))"

fun advance :: "Seq \<Rightarrow> nat \<Rightarrow> Seq \<Rightarrow> nat \<Rightarrow> (Seq \<times> nat) list \<Rightarrow> Seq \<times> nat \<times> (Seq \<times> nat) list" where
  "advance e branch nextSeq unc [] =
     (if nextSeq < e \<and> branch > unc then (e, unc, []) else (nextSeq, unc, []))"
| "advance e branch nextSeq unc ((s, c) # ss) =
     (if nextSeq < e \<and> branch > unc
      then (if s < e then advance e branch (s + 1) (unc + c) ss else (e, unc, (s, c) # ss))
      else (nextSeq, unc, (s, c) # ss))"

text \<open>The order of the partial sort, and the two best children in it.\<close>

definition better :: "TrieNode \<Rightarrow> TrieNode \<Rightarrow> bool" where
  "better a b \<longleftrightarrow> nbranch a > nbranch b \<or> nbranch a = nbranch b \<and> startID (nspan a) > startID (nspan b)"

fun best_child :: "TrieNode list \<Rightarrow> nat" where
  "best_child [] = 0"
| "best_child [c] = 0"
| "best_child (c # cs) =
     (let i = best_child cs in if better (cs ! i) c then Suc i else 0)"

definition best_margin :: "TrieNode list \<Rightarrow> nat \<times> nat" where
  "best_margin cs =
     (let i = best_child cs; best = cs ! i
      in if length cs = 1 then (i, nbranch best)
         else let rest = take i cs @ drop (Suc i) cs; second = rest ! best_child rest
              in (i, nbranch best - nbranch second
                       + (if startID (nspan best) > startID (nspan second) then 1 else 0)))"

lemma best_child_less: "cs \<noteq> [] \<Longrightarrow> best_child cs < length cs"
  by (induction cs rule: best_child.induct) (auto simp: Let_def)

function preferred_from :: "Seq \<Rightarrow> TrieNode \<Rightarrow> nat \<Rightarrow> (Seq \<times> nat) list \<Rightarrow> SpanTip option" where
  "preferred_from largestIssued (TrieNode sp t b cs) unc ss =
     (let nextSeq = sstart sp + 1;
          (unc, ss) = add_uncommitted (max nextSeq largestIssued) unc ss;
          (nextSeq, unc, ss) = advance (send sp) b nextSeq unc ss
      in if nextSeq < send sp then map_option tip (before_span sp nextSeq)
         else if cs = [] then Some (tip sp)
         else let (i, margin) = best_margin cs
              in if margin > unc \<or> unc = 0 then preferred_from largestIssued (cs ! i) unc ss
                 else Some (tip sp))"
  by pat_completeness auto
termination
proof (relation "measure (\<lambda>(s, n, u, ss). size n)")
qed (auto simp: best_margin_def Let_def split: if_splits intro!: size_nth_child best_child_less)

definition getPreferred :: "Seq \<Rightarrow> LedgerTrie \<Rightarrow> SpanTip option" where
  "getPreferred largestIssued T =
     (if trie_empty T then None else preferred_from largestIssued (root T) 0 (seqSupport T))"

text \<open>\<^verbatim>\<open>checkInvariants\<close>; the stack visits the children of a node from the last to the first.\<close>

fun node_checks :: "bool \<Rightarrow> TrieNode \<Rightarrow> bool" where
  "node_checks isRoot (TrieNode sp t b cs) =
     ((isRoot \<or> t \<noteq> 0 \<or> length cs \<ge> 2) \<and> t + sum_list (map nbranch cs) = b
      \<and> list_all (node_checks False) cs)"

fun expected_support :: "TrieNode \<Rightarrow> (Seq \<times> nat) list \<Rightarrow> (Seq \<times> nat) list" where
  "expected_support (TrieNode sp t b cs) ss =
     fold expected_support (rev cs) (if t \<noteq> 0 then add_support (send sp - 1) t ss else ss)"

definition checkInvariants :: "LedgerTrie \<Rightarrow> bool" where
  "checkInvariants T \<longleftrightarrow> node_checks True (root T) \<and> expected_support (root T) [] = seqSupport T"

end
