(* ===== verification/LedgerTrie_Correct.thy ===== *)
theory LedgerTrie_Correct
  imports LedgerTrie
begin

text \<open>
  The trie implements a bag of ledgers: the abstraction function collects the ledgers with their tip
  support, and insertion, removal and the support queries are the operations of the bag. The structural
  invariant of the trie, which the code can check by \<^verbatim>\<open>checkInvariants\<close>, is kept.
\<close>

section \<open>Spans\<close>

lemma mismatch_le: "mismatch xs ys \<le> length xs" "mismatch xs ys \<le> length ys"
  by (induction xs ys rule: mismatch.induct) auto

lemma take_mismatch: "k \<le> mismatch xs ys \<Longrightarrow> take k xs = take k ys"
proof (induction xs ys arbitrary: k rule: mismatch.induct)
  case (1 x xs y ys)
  then show ?case by (cases k) (auto split: if_splits)
qed auto

lemma nth_mismatch:
  "mismatch xs ys < length xs \<Longrightarrow> mismatch xs ys < length ys \<Longrightarrow> xs ! mismatch xs ys \<noteq> ys ! mismatch xs ys"
  by (induction xs ys rule: mismatch.induct) auto

lemma le_mismatch_iff:
  assumes "k \<le> length xs" "k \<le> length ys"
  shows "k \<le> mismatch xs ys \<longleftrightarrow> take k xs = take k ys"
proof
  assume eq: "take k xs = take k ys"
  show "k \<le> mismatch xs ys"
  proof (rule ccontr)
    assume "\<not> k \<le> mismatch xs ys"
    then have lt: "mismatch xs ys < k" by simp
    then have "xs ! mismatch xs ys = ys ! mismatch xs ys" using eq by (metis nth_take)
    then show False using nth_mismatch[of xs ys] lt assms by auto
  qed
qed (rule take_mismatch)

text \<open>The ledgers of a span, from the genesis ledger to its tip.\<close>

definition spath :: "Span \<Rightarrow> LedgerHist" where
  "spath sp = take (send sp) (sledger sp)"

definition span_ok :: "Span \<Rightarrow> bool" where
  "span_ok sp \<longleftrightarrow> sstart sp < send sp \<and> send sp \<le> length (sledger sp)"

text \<open>A ledger whose history reaches the span.\<close>

definition reaches :: "LedgerHist \<Rightarrow> Span \<Rightarrow> bool" where
  "reaches l sp \<longleftrightarrow> sstart sp \<le> length l \<and> take (sstart sp) l = take (sstart sp) (sledger sp)"

lemma length_spath [simp]: "span_ok sp \<Longrightarrow> length (spath sp) = send sp"
  by (simp add: spath_def span_ok_def)

lemma diff_bounds: "span_ok sp \<Longrightarrow> sstart sp \<le> diff sp l \<and> diff sp l \<le> send sp"
  by (simp add: diff_def clamp_def span_ok_def)

lemma diff_reaches:
  assumes "span_ok sp" "reaches l sp"
  shows "diff sp l = min (mismatch (sledger sp) l) (send sp)"
proof -
  have "sstart sp \<le> mismatch (sledger sp) l"
    using assms by (subst le_mismatch_iff) (auto simp: reaches_def span_ok_def)
  then show ?thesis by (simp add: diff_def clamp_def max_def)
qed

lemma diff_take:
  assumes "span_ok sp" "reaches l sp"
  shows "take (diff sp l) l = take (diff sp l) (sledger sp)" "diff sp l \<le> length l"
  using take_mismatch[of "diff sp l" "sledger sp" l] mismatch_le[where xs = "sledger sp" and ys = l]
  by (auto simp: diff_reaches[OF assms])

text \<open>The two ways in which the search stops inside a span.\<close>

lemma diff_stop:
  assumes "span_ok sp" "reaches l sp" "diff sp l \<noteq> send sp"
  shows "diff sp l = length l \<or> diff sp l < length l \<and> l ! diff sp l \<noteq> sledger sp ! diff sp l"
  using nth_mismatch[of "sledger sp" l] mismatch_le[where xs = "sledger sp" and ys = l] assms(1,3)
  unfolding diff_reaches[OF assms(1,2)] span_ok_def by (auto simp: min_def split: if_splits)

lemma diff_full_iff:
  assumes "span_ok sp" "reaches l sp"
  shows "diff sp l = send sp \<longleftrightarrow> prefix (spath sp) l"
proof -
  have "diff sp l = send sp \<longleftrightarrow> send sp \<le> mismatch (sledger sp) l"
    by (auto simp: diff_reaches[OF assms])
  also have "\<dots> \<longleftrightarrow> prefix (spath sp) l"
  proof
    assume le: "send sp \<le> mismatch (sledger sp) l"
    then have "spath sp = take (send sp) l" by (simp add: spath_def take_mismatch)
    then show "prefix (spath sp) l" by (simp add: take_is_prefix)
  next
    assume p: "prefix (spath sp) l"
    then have "send sp \<le> length l" using prefix_length_le assms(1) by fastforce
    moreover have "take (send sp) (sledger sp) = take (send sp) l"
      using p assms(1) by (metis append_eq_conv_conj length_spath prefix_def spath_def)
    ultimately show "send sp \<le> mismatch (sledger sp) l"
      using assms(1) by (simp add: le_mismatch_iff span_ok_def)
  qed
  finally show ?thesis .
qed

lemma diff_start_iff:
  assumes "span_ok sp" "reaches l sp"
  shows "diff sp l > sstart sp \<longleftrightarrow> sstart sp < length l \<and> l ! sstart sp = startID sp"
proof -
  have "diff sp l > sstart sp \<longleftrightarrow> Suc (sstart sp) \<le> mismatch (sledger sp) l"
    using assms(1) by (auto simp: diff_reaches[OF assms] span_ok_def)
  moreover have "Suc (sstart sp) \<le> mismatch (sledger sp) l \<Longrightarrow> sstart sp < length l"
    using mismatch_le(2)[of "sledger sp" l] by simp
  moreover have "Suc (sstart sp) \<le> mismatch (sledger sp) l \<longleftrightarrow> l ! sstart sp = startID sp" if "sstart sp < length l"
    using assms that by (subst le_mismatch_iff)
      (auto simp: span_ok_def reaches_def startID_def take_Suc_conv_app_nth)
  ultimately show ?thesis by blast
qed

section \<open>The bag of a trie and its invariant\<close>

fun tips :: "TrieNode \<Rightarrow> LedgerHist multiset" where
  "tips (TrieNode sp t b cs) = replicate_mset t (spath sp) + sum_list (map tips cs)"

definition compact :: "TrieNode \<Rightarrow> bool" where
  "compact n \<longleftrightarrow> ntip n > 0 \<or> length (nchildren n) \<ge> 2"

text \<open>A child continues the path of its parent.\<close>

definition continues :: "Span \<Rightarrow> Span \<Rightarrow> bool" where
  "continues sp sp' \<longleftrightarrow> sstart sp' = send sp \<and> take (send sp) (sledger sp') = spath sp"

fun node_ok :: "TrieNode \<Rightarrow> bool" where
  "node_ok (TrieNode sp t b cs) \<longleftrightarrow>
     span_ok sp \<and> b = t + sum_list (map nbranch cs) \<and> distinct (map (startID \<circ> nspan) cs)
     \<and> (\<forall>c \<in> set cs. node_ok c \<and> continues sp (nspan c) \<and> compact c)"

lemma node_ok_span: "node_ok n \<Longrightarrow> span_ok (nspan n)"
  by (cases n) simp

lemma continues_reaches:
  assumes "continues sp sp'" "prefix (spath sp) l" "span_ok sp"
  shows "reaches l sp'"
proof -
  have "send sp \<le> length l" using assms(2,3) prefix_length_le by fastforce
  moreover have "take (send sp) l = spath sp"
    using assms(2,3) by (metis append_eq_conv_conj length_spath prefix_def)
  ultimately show ?thesis using assms(1) by (simp add: reaches_def continues_def)
qed

lemma continues_prefix: "continues sp sp' \<Longrightarrow> span_ok sp' \<Longrightarrow> prefix (spath sp) (spath sp')"
proof -
  assume "continues sp sp'" "span_ok sp'"
  then have "spath sp = take (send sp) (spath sp')" by (simp add: continues_def span_ok_def spath_def min_def)
  then show "prefix (spath sp) (spath sp')" by (simp add: take_is_prefix)
qed

lemma in_sum_list_mset: "x \<in># sum_list (map f xs) \<longleftrightarrow> (\<exists>y \<in> set xs. x \<in># f y)"
  by (induction xs) auto

lemma size_sum_list_mset: "size (sum_list (map (f :: 'a \<Rightarrow> 'b multiset) xs)) = sum_list (map (\<lambda>x. size (f x)) xs)"
  by (induction xs) auto

lemma sum_list_map_update:
  fixes f :: "'a \<Rightarrow> 'b::cancel_comm_monoid_add"
  shows "i < length xs \<Longrightarrow> sum_list (map f (xs[i := y])) + f (xs ! i) = sum_list (map f xs) + f y"
proof (induction xs arbitrary: i)
  case (Cons x xs)
  then show ?case by (cases i) (auto simp: ac_simps)
qed simp

lemma tips_prefix: "node_ok n \<Longrightarrow> x \<in># tips n \<Longrightarrow> prefix (spath (nspan n)) x"
proof (induction n)
  case (TrieNode sp t b cs)
  show ?case
  proof (cases "x \<in># replicate_mset t (spath sp)")
    case False
    then obtain c where c: "c \<in> set cs" "x \<in># tips c" using TrieNode.prems(2) by (auto simp: in_sum_list_mset)
    then have "prefix (spath (nspan c)) x" "prefix (spath sp) (spath (nspan c))"
      using TrieNode.IH TrieNode.prems(1) continues_prefix node_ok_span by auto
    then show ?thesis by simp
  qed (auto split: if_splits)
qed

lemma size_tips: "node_ok n \<Longrightarrow> size (tips n) = nbranch n"
proof (induction n)
  case (TrieNode sp t b cs)
  then have "sum_list (map (\<lambda>c. size (tips c)) cs) = sum_list (map nbranch cs)" by (simp cong: map_cong)
  then show ?case using TrieNode.prems by (simp add: size_sum_list_mset)
qed

section \<open>The search\<close>

inductive located :: "LedgerHist \<Rightarrow> nat list \<Rightarrow> Seq \<Rightarrow> TrieNode \<Rightarrow> bool" for l where
  Here: "reaches l sp \<Longrightarrow> d = diff sp l \<Longrightarrow>
     (d = send sp \<Longrightarrow> send sp < length l \<Longrightarrow> \<forall>c \<in> set cs. startID (nspan c) \<noteq> l ! send sp) \<Longrightarrow>
     located l [] d (TrieNode sp t b cs)"
| Child: "reaches l sp \<Longrightarrow> prefix (spath sp) l \<Longrightarrow> i < length cs \<Longrightarrow> send sp < length l \<Longrightarrow>
     l ! send sp = startID (nspan (cs ! i)) \<Longrightarrow> located l p d (cs ! i) \<Longrightarrow>
     located l (i # p) d (TrieNode sp t b cs)"

lemma find_child_None: "find_child pos l cs = None \<longleftrightarrow> (\<forall>c \<in> set cs. \<not> diff (nspan c) l > pos)"
  by (induction cs) auto

lemma trie_find_located:
  "node_ok n \<Longrightarrow> reaches l (nspan n) \<Longrightarrow> trie_find n l = (p, d) \<Longrightarrow> located l p d n"
proof (induction n l arbitrary: p d rule: trie_find.induct)
  case (1 sp t b cs l)
  have sp: "span_ok sp" "reaches l sp" using 1(2,3) by auto
  have child: "continues sp (nspan c)" "node_ok c" "span_ok (nspan c)" if "c \<in> set cs" for c
    using 1(2) that node_ok_span by auto
  have branch: "diff (nspan c) l > send sp \<longleftrightarrow> send sp < length l \<and> l ! send sp = startID (nspan c)"
    if "diff sp l = send sp" "c \<in> set cs" for c
    using diff_start_iff[OF child(3), of c l] continues_reaches[OF child(1)] that sp child(1)
      diff_full_iff[OF sp] by (simp add: continues_def)
  consider (stop) "diff sp l \<noteq> send sp" | (none) "diff sp l = send sp" "find_child (send sp) l cs = None"
    | (some) i where "diff sp l = send sp" "find_child (send sp) l cs = Some i" by blast
  then show ?case
  proof cases
    case stop
    then have "p = []" "d = diff sp l" using 1(4) by simp_all
    then show ?thesis using stop sp(2) by (simp add: Here)
  next
    case none
    then have "p = []" "d = diff sp l" using 1(4) by simp_all
    moreover have "\<forall>c \<in> set cs. startID (nspan c) \<noteq> l ! send sp" if "send sp < length l"
      using none branch that find_child_None[of "send sp" l cs] by metis
    ultimately show ?thesis using sp(2) by (simp add: Here)
  next
    case some
    obtain q e where qe: "trie_find (cs ! i) l = (q, e)" by (cases "trie_find (cs ! i) l")
    have i: "i < length cs" "diff (nspan (cs ! i)) l > send sp" using find_child_Some[OF some(2)] by auto
    then have mem: "cs ! i \<in> set cs" by simp
    have pre: "prefix (spath sp) l" using some(1) diff_full_iff[OF sp] by simp
    have "located l q e (cs ! i)"
      using 1(1)[OF refl some(1) _ child(2)[OF mem] continues_reaches[OF child(1)[OF mem] pre sp(1)] qe] some
      by simp
    moreover have "p = i # q" "d = e" using 1(4) some qe by simp_all
    ultimately show ?thesis
      using i branch[OF some(1) mem] by (simp add: Child[OF sp(2) pre])
  qed
qed

text \<open>Only the node found by the search can hold ledgers that extend the one searched for.\<close>

lemma tips_child:
  assumes "node_ok (TrieNode sp t b cs)" "c \<in> set cs" "x \<in># tips c"
  shows "prefix (spath sp) x \<and> send sp < length x \<and> x ! send sp = startID (nspan c)"
proof -
  have c: "node_ok c" "continues sp (nspan c)" "span_ok (nspan c)" using assms(1,2) node_ok_span by auto
  have pre: "prefix (spath (nspan c)) x" using tips_prefix[OF c(1) assms(3)] .
  have lt: "send sp < length (spath (nspan c))" using c(2,3) by (simp add: continues_def span_ok_def)
  then have "x ! send sp = spath (nspan c) ! send sp" using pre by (metis nth_append prefix_def)
  also have "\<dots> = startID (nspan c)"
    using c(2,3) by (simp add: spath_def startID_def continues_def span_ok_def)
  finally show ?thesis
    using continues_prefix[OF c(2,3)] pre lt prefix_length_le[OF pre] by auto
qed

lemma filter_mset_none: "(\<And>x. x \<in># M \<Longrightarrow> \<not> P x) \<Longrightarrow> filter_mset P M = {#}"
  by (induction M) auto

lemma filter_mset_all: "(\<And>x. x \<in># M \<Longrightarrow> P x) \<Longrightarrow> filter_mset P M = M"
  by (induction M) auto

lemma filter_sum_list_single:
  assumes "i < length cs" "\<And>j. j < length cs \<Longrightarrow> j \<noteq> i \<Longrightarrow> filter_mset P (f (cs ! j)) = {#}"
  shows "filter_mset P (sum_list (map f cs)) = filter_mset P (f (cs ! i))"
  using assms
proof (induction cs arbitrary: i)
  case (Cons c cs)
  have none: "filter_mset P (sum_list (map f ds)) = {#}" if "\<forall>c \<in> set ds. filter_mset P (f c) = {#}" for ds
    using that by (induction ds) auto
  show ?case
  proof (cases i)
    case 0
    have "\<forall>c \<in> set cs. filter_mset P (f c) = {#}"
      using Cons.prems(2)[of "Suc j" for j] 0 by (auto simp: in_set_conv_nth)
    then show ?thesis using 0 none by simp
  next
    case (Suc k)
    then show ?thesis
      using Cons.prems(1) Cons.prems(2)[of 0] Cons.prems(2)[of "Suc j" for j] Cons.IH[of k] by simp
  qed
qed simp

lemma located_loc:
  assumes "located l p d n" "node_ok n"
  shows "node_ok (node_at p n) \<and> reaches l (nspan (node_at p n)) \<and> located l [] d (node_at p n)
    \<and> filter_mset (prefix l) (tips n) = filter_mset (prefix l) (tips (node_at p n))"
  using assms
proof induction
  case (Here sp d cs t b)
  then show ?case by (auto intro: located.Here)
next
  case (Child sp i cs p d t b)
  have mem: "cs ! i \<in> set cs" using Child by simp
  have "\<not> prefix l x" if "j < length cs" "j \<noteq> i" "x \<in># tips (cs ! j)" for j x
  proof
    assume "prefix l x"
    then have "x ! send sp = l ! send sp" using Child by (metis nth_append prefix_def)
    moreover have "x ! send sp = startID (nspan (cs ! j))"
      using tips_child[OF Child.prems _ that(3)] that(1) by simp
    ultimately have "startID (nspan (cs ! j)) = startID (nspan (cs ! i))" using Child by simp
    then show False
      using Child.prems that Child.hyps by (auto simp: distinct_conv_nth)
  qed
  then have "filter_mset (prefix l) (sum_list (map tips cs)) = filter_mset (prefix l) (tips (cs ! i))"
    using Child by (intro filter_sum_list_single) (auto intro: filter_mset_none)
  moreover have "\<not> prefix l (spath sp)"
    using Child.hyps Child.prems prefix_length_le[of l "spath sp"] by auto
  then have "filter_mset (prefix l) (replicate_mset t (spath sp)) = {#}"
    by (intro filter_mset_none) (auto split: if_splits)
  ultimately show ?case using Child mem by simp
qed

lemma here_support:
  assumes "located l [] d n" "node_ok n"
  shows "d \<le> length l"
    and "filter_mset (prefix l) (tips n) = (if d = length l then tips n else {#})"
    and "count (tips n) l = (if d = length l \<and> d = send (nspan n) then ntip n else 0)"
proof -
  obtain sp t b cs where n: "n = TrieNode sp t b cs" by (cases n)
  have sp: "span_ok sp" "reaches l sp" and d: "d = diff sp l" and
    stop: "d = send sp \<Longrightarrow> send sp < length l \<Longrightarrow> \<forall>c \<in> set cs. startID (nspan c) \<noteq> l ! send sp"
    using assms n by (auto elim: located.cases)
  show le: "d \<le> length l" using diff_take(2)[OF sp] d by simp
  have pre: "prefix (spath sp) x" if "x \<in># tips n" for x using tips_prefix[OF assms(2) that] n by simp
  have full: "prefix l (spath sp)" if "d = length l"
    using diff_take(1)[OF sp] diff_bounds[OF sp(1), of l] that d
    by (simp add: spath_def) (metis take_all_iff le_refl min.absorb1 take_is_prefix take_take)
  have none: "\<not> prefix l x" if xin: "x \<in># tips n" and ne: "d \<noteq> length l" for x
  proof
    assume l: "prefix l x"
    have lt: "d < length l" using ne le by simp
    then have nth: "x ! d = l ! d" using l by (metis nth_append prefix_def)
    show False
    proof (cases "d = send sp")
      case True
      then have "x \<noteq> spath sp" using lt l sp(1) prefix_length_le[of l x] by auto
      then obtain c where "c \<in> set cs" "x \<in># tips c"
        using xin n by (auto simp: in_sum_list_mset split: if_splits)
      then have "l ! send sp = startID (nspan c)"
        using tips_child[of sp t b cs c x] assms(2) n nth True by simp
      then show False using stop True lt \<open>c \<in> set cs\<close> by force
    next
      case False
      then have "l ! d \<noteq> sledger sp ! d" using diff_stop[OF sp] d lt by auto
      moreover have "x ! d = spath sp ! d"
        using pre[OF xin] False diff_bounds[OF sp(1), of l] d sp(1) by (metis length_spath nth_append order_less_le prefix_def)
      ultimately show False
        using nth False diff_bounds[OF sp(1), of l] d by (simp add: spath_def)
    qed
  qed
  show filter: "filter_mset (prefix l) (tips n) = (if d = length l then tips n else {#})"
    using pre full none by (auto intro!: filter_mset_none filter_mset_all intro: prefix_order.trans)
  show "count (tips n) l = (if d = length l \<and> d = send (nspan n) then ntip n else 0)"
  proof (cases "d = length l")
    case True
    have "l \<notin># sum_list (map tips cs)"
      using tips_child[of sp t b cs _ l] assms(2) n diff_bounds[OF sp(1), of l] True d
      by (fastforce simp: in_sum_list_mset)
    then have "count (sum_list (map tips cs)) l = 0" by (meson not_in_iff)
    moreover have "spath sp = l \<longleftrightarrow> d = send sp"
      using full[OF True] True length_spath[OF sp(1)] by (auto simp: prefix_def)
    ultimately show ?thesis using True n by auto
  next
    case False
    then have "l \<notin># tips n" using none[of l] by auto
    then show ?thesis using False by (simp add: not_in_iff)
  qed
qed

section \<open>Insertion\<close>

lemma from_span_eq:
  "span_ok sp \<Longrightarrow> sstart sp \<le> d \<Longrightarrow> from_span sp d =
     (if d < send sp then Some \<lparr>sstart = d, send = send sp, sledger = sledger sp\<rparr> else None)"
  by (auto simp: from_span_def sub_span_def clamp_def span_ok_def Let_def)

lemma before_span_eq:
  "span_ok sp \<Longrightarrow> sstart sp < d \<Longrightarrow> d \<le> send sp \<Longrightarrow>
     before_span sp d = Some \<lparr>sstart = sstart sp, send = d, sledger = sledger sp\<rparr>"
  by (auto simp: before_span_def sub_span_def clamp_def span_ok_def Let_def)

lemma newSpan_ok: "l \<noteq> [] \<Longrightarrow> span_ok (newSpan l)" "l \<noteq> [] \<Longrightarrow> send (newSpan l) = length l"
  "sstart (newSpan l) = 0" "sledger (newSpan l) = l"
  by (auto simp: newSpan_def span_ok_def seq_def Suc_leI)

text \<open>What a change below a node must keep for the parent.\<close>

definition same_place :: "TrieNode \<Rightarrow> TrieNode \<Rightarrow> bool" where
  "same_place n n' \<longleftrightarrow> sstart (nspan n') = sstart (nspan n)
     \<and> take (Suc (sstart (nspan n))) (sledger (nspan n')) = take (Suc (sstart (nspan n))) (sledger (nspan n))
     \<and> (compact n \<longrightarrow> compact n')"

lemma replicate_mset_add: "replicate_mset (m + n) x = replicate_mset m x + replicate_mset n x"
  by (induction m) auto

lemma node_ok_cut:
  assumes "node_ok (TrieNode sp t b cs)" "d < send sp"
  shows "node_ok (TrieNode \<lparr>sstart = d, send = send sp, sledger = sledger sp\<rparr> t b cs)"
  using assms by (simp add: continues_def spath_def span_ok_def)

declare node_ok.simps [simp del]

lemma node_okI:
  "span_ok sp \<Longrightarrow> b = t + sum_list (map nbranch cs) \<Longrightarrow> distinct (map (startID \<circ> nspan) cs) \<Longrightarrow>
     (\<And>c. c \<in> set cs \<Longrightarrow> node_ok c \<and> continues sp (nspan c) \<and> compact c) \<Longrightarrow> node_ok (TrieNode sp t b cs)"
  by (simp add: node_ok.simps)

lemma node_okD:
  assumes "node_ok (TrieNode sp t b cs)"
  shows "span_ok sp" "b = t + sum_list (map nbranch cs)" "distinct (map (startID \<circ> nspan) cs)"
    "c \<in> set cs \<Longrightarrow> node_ok c" "c \<in> set cs \<Longrightarrow> continues sp (nspan c)" "c \<in> set cs \<Longrightarrow> compact c"
  using assms by (simp_all add: node_ok.simps)

lemma tips_span: "send sp' = send sp \<Longrightarrow> sledger sp' = sledger sp \<Longrightarrow>
    tips (TrieNode sp' t b cs) = tips (TrieNode sp t b cs)"
  by (simp add: spath_def)

lemma insert_here_ok:
  assumes "located l [] d n" "node_ok n" "l \<noteq> []" "0 < cnt" "sstart (nspan n) < d"
    and cmp: "compact n \<or> send (nspan n) = Suc (sstart (nspan n))"
  shows "\<exists>n'. insert_here l cnt d n = Some n' \<and> node_ok n' \<and> same_place n n'
    \<and> tips n' = tips n + replicate_mset cnt l \<and> nbranch n' = nbranch n + cnt
    \<and> (d = send (nspan n) \<longrightarrow> nspan n' = nspan n)"
proof -
  obtain sp t b cs where n: "n = TrieNode sp t b cs" by (cases n)
  have sp: "span_ok sp" "reaches l sp" and d: "d = diff sp l" and
    stop: "d = send sp \<Longrightarrow> send sp < length l \<Longrightarrow> \<forall>c \<in> set cs. startID (nspan c) \<noteq> l ! send sp"
    using assms(1) node_okD(1)[OF assms(2)[unfolded n]] n by (auto elim: located.cases)
  have lt: "sstart sp < d" "d \<le> send sp" "d \<le> length l" and eq: "take d l = take d (sledger sp)"
    using assms(5) n diff_bounds[OF sp(1), of l] diff_take[OF sp] d by auto
  let ?new = "\<lparr>sstart = d, send = length l, sledger = l\<rparr>"
  have new: "from_span (newSpan l) d = (if d < length l then Some ?new else None)"
    using newSpan_ok assms(3) from_span_eq[of "newSpan l" d] by simp
  have len: "d = length l \<Longrightarrow> take d (sledger sp) = l" using eq by simp
  note n_ok = node_okD[OF assms(2)[unfolded n]]
  let ?p = "\<lparr>sstart = sstart sp, send = d, sledger = sledger sp\<rparr>"
  let ?s = "\<lparr>sstart = d, send = send sp, sledger = sledger sp\<rparr>"
  have p_ok: "span_ok ?p" "continues ?p ?s" using lt sp(1) by (simp_all add: span_ok_def continues_def spath_def)
  have new_ok: "node_ok (TrieNode ?new cnt cnt [])" if "d < length l"
    using that by (intro node_okI) (simp_all add: span_ok_def)
  have old_ok: "node_ok (TrieNode ?s t b cs)" "compact (TrieNode ?s t b cs)" if "d < send sp"
    using node_ok_cut[OF assms(2)[unfolded n] that] cmp lt(1) that n by (auto simp: compact_def)
  consider (same) "d = send sp" "d = length l" | (new) "d = send sp" "d < length l"
    | (cut) "d < send sp" "d = length l" | (fork) "d < send sp" "d < length l"
    using lt by linarith
  then show ?thesis
  proof cases
    case same
    then have "insert_here l cnt d n = Some (TrieNode sp (t + cnt) (b + cnt) cs)"
      using from_span_eq[OF sp(1), of d] lt(1) new n by (simp add: insert_here_def)
    moreover have "node_ok (TrieNode sp (t + cnt) (b + cnt) cs)"
      using n_ok(1,2,3) by (intro node_okI) (auto intro: n_ok)
    ultimately show ?thesis
      using n assms(4) len same by (simp add: same_place_def compact_def spath_def replicate_mset_add)
  next
    case new': new
    let ?c = "TrieNode ?new cnt cnt []"
    have eq': "insert_here l cnt d n = Some (TrieNode sp t (b + cnt) (cs @ [?c]))"
      using from_span_eq[OF sp(1), of d] lt(1) new new' n by (simp add: insert_here_def)
    have "l ! d \<notin> (startID \<circ> nspan) ` set cs" using stop new' by auto
    moreover have "continues sp ?new" "compact ?c" "startID ?new = l ! d"
      using new' eq assms(4) by (simp_all add: continues_def compact_def startID_def spath_def)
    ultimately have "node_ok (TrieNode sp t (b + cnt) (cs @ [?c]))"
      using n_ok(1-3) new_ok[OF new'(2)] by (intro node_okI) (auto simp: n_ok(4-6))
    with eq' show ?thesis using n by (auto simp: same_place_def compact_def spath_def)
  next
    case cut
    let ?c = "TrieNode ?s t b cs"
    have "insert_here l cnt d n = Some (TrieNode ?p cnt (b + cnt) [?c])"
      using from_span_eq[OF sp(1), of d] before_span_eq[OF sp(1), of d] lt new n cut by (simp add: insert_here_def)
    moreover have "node_ok (TrieNode ?p cnt (b + cnt) [?c])"
      using old_ok[OF cut(1)] p_ok by (intro node_okI) auto
    ultimately show ?thesis using n assms(4) len cut by (simp add: same_place_def compact_def spath_def)
  next
    case fork
    then have ne: "l ! d \<noteq> sledger sp ! d" using diff_stop[OF sp] d by auto
    let ?c = "TrieNode ?s t b cs" and ?e = "TrieNode ?new cnt cnt []"
    have "insert_here l cnt d n = Some (TrieNode ?p 0 (b + cnt) [?c, ?e])"
      using from_span_eq[OF sp(1), of d] before_span_eq[OF sp(1), of d] lt new n fork by (simp add: insert_here_def)
    moreover have "node_ok (TrieNode ?p 0 (b + cnt) [?c, ?e])"
      using old_ok[OF fork(1)] p_ok new_ok[OF fork(2)] ne eq assms(4)
      by (intro node_okI) (auto simp: startID_def continues_def spath_def compact_def)
    ultimately show ?thesis using n by (simp add: same_place_def compact_def spath_def)
  qed
qed

text \<open>Replacing a child by one at the same place.\<close>

lemma same_place_start:
  assumes "same_place n n'" "span_ok (nspan n)"
  shows "startID (nspan n') = startID (nspan n)" "continues sp (nspan n) \<Longrightarrow> continues sp (nspan n')"
proof -
  have eq: "take (Suc (sstart (nspan n))) (sledger (nspan n')) = take (Suc (sstart (nspan n))) (sledger (nspan n))"
    using assms(1) by (simp add: same_place_def)
  show "startID (nspan n') = startID (nspan n)"
    using arg_cong[OF eq, of "\<lambda>xs. xs ! sstart (nspan n)"] assms(1) by (simp add: same_place_def startID_def)
  show "continues sp (nspan n')" if "continues sp (nspan n)"
    using arg_cong[OF eq, of "take (sstart (nspan n))"] assms(1) that
    by (simp add: same_place_def continues_def min_def)
qed

lemma node_ok_replace:
  assumes "node_ok (TrieNode sp t b cs)" "i < length cs" "node_ok c" "same_place (cs ! i) c"
  shows "node_ok (TrieNode sp t (t + sum_list (map nbranch (cs[i := c]))) (cs[i := c]))"
proof (rule node_okI)
  note D = node_okD[OF assms(1)]
  have i: "continues sp (nspan (cs ! i))" "compact (cs ! i)" using D(5,6) assms(2) by auto
  have ok: "span_ok (nspan (cs ! i))" using D(4) assms(2) node_ok_span by simp
  note sid = same_place_start[OF assms(4) ok]
  have "map (startID \<circ> nspan) (cs[i := c]) = map (startID \<circ> nspan) cs"
    using assms(2) sid(1) by (simp add: map_update list_update_same_conv)
  then show "distinct (map (startID \<circ> nspan) (cs[i := c]))" using D(3) by simp
  show "span_ok sp" by (rule D(1))
  fix x assume "x \<in> set (cs[i := c])"
  then consider "x = c" | "x \<in> set cs" using set_update_subset_insert[of cs i c] by blast
  then show "node_ok x \<and> continues sp (nspan x) \<and> compact x"
    using i assms(3,4) D(4-6) sid(2) by cases (auto simp: same_place_def)
qed simp

lemma insert_at_ok:
  assumes "located l p d n" "node_ok n" "l \<noteq> []" "0 < cnt" "sstart (nspan n) < diff (nspan n) l"
    and "compact n \<or> send (nspan n) = Suc (sstart (nspan n))"
  shows "\<exists>n'. insert_at l cnt d p n = Some n' \<and> node_ok n' \<and> same_place n n'
    \<and> tips n' = tips n + replicate_mset cnt l \<and> nbranch n' = nbranch n + cnt
    \<and> (p \<noteq> [] \<or> d = send (nspan n) \<longrightarrow> nspan n' = nspan n)"
  using assms
proof induction
  case (Here sp d cs t b)
  have loc: "located l [] d (TrieNode sp t b cs)" using Here.hyps by (rule located.Here)
  have "sstart (nspan (TrieNode sp t b cs)) < d" using Here.prems(4) Here.hyps(2) by simp
  from insert_here_ok[OF loc Here.prems(1-3) this Here.prems(5)] show ?case
    unfolding insert_at.simps by blast
next
  case (Child sp i cs p d t b)
  let ?n = "TrieNode sp t b cs" and ?c = "cs ! i"
  have mem: "?c \<in> set cs" using Child by simp
  note D = node_okD[OF Child.prems(1)]
  have "sstart (nspan ?c) < diff (nspan ?c) l"
    using diff_start_iff[OF node_ok_span[OF D(4)[OF mem]] continues_reaches[OF D(5)[OF mem] Child.hyps(2) D(1)]]
      D(5)[OF mem] Child.hyps by (simp add: continues_def)
  from Child.IH[OF D(4)[OF mem] Child.prems(2,3) this disjI1[OF D(6)[OF mem]]]
  obtain c where c: "insert_at l cnt d p ?c = Some c" "node_ok c" "same_place ?c c"
      "tips c = tips ?c + replicate_mset cnt l" "nbranch c = nbranch ?c + cnt"
    by blast
  have br: "sum_list (map nbranch (cs[i := c])) = sum_list (map nbranch cs) + cnt"
    using sum_list_map_update[OF Child.hyps(3), of nbranch c] c(5) by simp
  have "tips ?c + sum_list (map tips (cs[i := c])) = tips ?c + (sum_list (map tips cs) + replicate_mset cnt l)"
    using sum_list_map_update[OF Child.hyps(3), of tips c] c(4) by (simp add: ac_simps)
  then have tp: "sum_list (map tips (cs[i := c])) = sum_list (map tips cs) + replicate_mset cnt l"
    by (simp only: add_left_cancel)
  have "node_ok (TrieNode sp t (b + cnt) (cs[i := c]))"
    using node_ok_replace[OF Child.prems(1) Child.hyps(3) c(2,3)] D(2) br by (simp add: add.assoc)
  moreover have "insert_at l cnt d (i # p) ?n = Some (TrieNode sp t (b + cnt) (cs[i := c]))" using c(1) by simp
  moreover have "tips (TrieNode sp t (b + cnt) (cs[i := c])) = tips ?n + replicate_mset cnt l"
    using tp by (simp add: add.assoc)
  moreover have "same_place ?n (TrieNode sp t (b + cnt) (cs[i := c]))" by (simp add: same_place_def compact_def)
  ultimately show ?case by auto
qed

section \<open>Removal\<close>

lemma erase_child_append: "i < length cs \<Longrightarrow> erase_child i (cs @ [m]) = cs[i := m]"
  by (simp add: erase_child_def list_update_append butlast_append)

lemma erase_child_update: "i < length cs \<Longrightarrow> erase_child i (cs[i := c]) = erase_child i cs"
  by (cases cs rule: rev_cases) (auto simp: erase_child_def list_update_append nth_append split: nat.splits)

lemma mset_erase_child:
  assumes "i < length cs"
  shows "add_mset (cs ! i) (mset (erase_child i cs)) = mset cs"
proof -
  have ne: "cs \<noteq> []" using assms by auto
  let ?xs = "cs[i := last cs]"
  have "?xs \<noteq> []" using ne by simp
  then have "add_mset (last ?xs) (mset (butlast ?xs)) = mset ?xs"
    by (metis append_butlast_last_id mset.simps(2) mset_append union_mset_add_mset_right add.right_neutral mset.simps(1))
  moreover have "last ?xs = last cs" using ne by (auto simp: last_list_update)
  moreover have "add_mset (cs ! i) (mset ?xs) = add_mset (last cs) (mset cs)"
    using assms by (simp add: mset_update add_mset_remove_trivial_If)
  ultimately show ?thesis unfolding erase_child_def
    by (metis add_mset_add_mset_same_iff add_mset_commute)
qed

lemma sum_list_erase_child:
  fixes f :: "TrieNode \<Rightarrow> 'a::comm_monoid_add"
  assumes "i < length cs"
  shows "f (cs ! i) + sum_list (map f (erase_child i cs)) = sum_list (map f cs)"
proof -
  have "sum_mset (image_mset f (add_mset (cs ! i) (mset (erase_child i cs)))) = sum_mset (image_mset f (mset cs))"
    using mset_erase_child[OF assms] by simp
  then show ?thesis by (simp add: sum_mset_sum_list flip: mset_map)
qed

lemma node_ok_erase:
  assumes "node_ok (TrieNode sp t b cs)" "i < length cs"
  shows "node_ok (TrieNode sp t (t + sum_list (map nbranch (erase_child i cs))) (erase_child i cs))"
proof (rule node_okI)
  note D = node_okD[OF assms(1)]
  have m: "mset cs = add_mset (cs ! i) (mset (erase_child i cs))" using mset_erase_child[OF assms(2)] by simp
  then have "set (erase_child i cs) \<subseteq> set cs"
    by (metis set_mset_mset set_mset_add_mset_insert subset_insertI)
  then show "node_ok c \<and> continues sp (nspan c) \<and> compact c" if "c \<in> set (erase_child i cs)" for c
    using that D(4-6) by blast
  have "mset (map (startID \<circ> nspan) cs) = mset (map (startID \<circ> nspan) (cs ! i # erase_child i cs))"
    using m by simp
  then show "distinct (map (startID \<circ> nspan) (erase_child i cs))"
    using D(3) mset_eq_imp_distinct_iff by fastforce
  show "span_ok sp" by (rule D(1))
qed simp

text \<open>Merging a node without tip support with its only child.\<close>

lemma merge_ok:
  assumes "node_ok c" "ntip c = 0" "nchildren c = [ch]"
  defines "m \<equiv> TrieNode (merge_span (nspan c) (nspan ch)) (ntip ch) (nbranch ch) (nchildren ch)"
  shows "node_ok m \<and> compact m \<and> tips m = tips c \<and> nbranch m = nbranch c
    \<and> sstart (nspan m) = sstart (nspan c)
    \<and> take (Suc (sstart (nspan c))) (sledger (nspan m)) = take (Suc (sstart (nspan c))) (sledger (nspan c))"
proof -
  obtain sp b where c: "c = TrieNode sp 0 b [ch]" using assms(2,3) by (cases c) auto
  obtain sp' t' b' ds where ch: "ch = TrieNode sp' t' b' ds" by (cases ch)
  note D = node_okD[OF assms(1)[unfolded c]]
  have sp: "span_ok sp" "span_ok sp'" "continues sp sp'" "compact ch" "node_ok ch"
    using D(1) D(4-6)[of ch] node_ok_span[of ch] ch by auto
  have m: "merge_span sp sp' = \<lparr>sstart = sstart sp, send = send sp', sledger = sledger sp'\<rparr>"
    using sp(1-3) by (simp add: merge_span_def continues_def span_ok_def)
  have "node_ok (TrieNode \<lparr>sstart = sstart sp, send = send sp', sledger = sledger sp'\<rparr> t' b' ds)"
    using node_ok_cut[OF sp(5)[unfolded ch], of "sstart sp"] sp(1-3) by (simp add: continues_def span_ok_def)
  moreover have "compact (TrieNode \<lparr>sstart = sstart sp, send = send sp', sledger = sledger sp'\<rparr> t' b' ds)"
    using sp(4) ch by (simp add: compact_def)
  moreover have "take (send sp) (sledger sp') = take (send sp) (sledger sp)"
    using sp(3) by (simp add: continues_def spath_def)
  from arg_cong[OF this, of "take (Suc (sstart sp))"]
  have "take (Suc (sstart sp)) (sledger sp') = take (Suc (sstart sp)) (sledger sp)"
    using sp(1) by (simp add: span_ok_def min_def)
  ultimately show ?thesis
    using D(2) by (simp add: m_def c ch m spath_def)
qed

lemma compress_child_ok:
  assumes ok: "node_ok (TrieNode sp t b cs)" "i < length cs" and c: "node_ok c" "nspan c = nspan (cs ! i)"
    and res: "compress_child i (cs[i := c]) = (cs', go)"
  shows "node_ok (TrieNode sp t (t + sum_list (map nbranch cs')) cs')
    \<and> sum_list (map tips cs') + tips (cs ! i) = sum_list (map tips cs) + tips c
    \<and> sum_list (map nbranch cs') + nbranch (cs ! i) = sum_list (map nbranch cs) + nbranch c
    \<and> (go \<or> length cs' = length cs)"
proof -
  consider (keep) "compact c" "cs' = cs[i := c]" "\<not> go"
    | (erase) "ntip c = 0" "nchildren c = []" "cs' = erase_child i cs" go
    | (merge) ch where "ntip c = 0" "nchildren c = [ch]" go
        "cs' = cs[i := TrieNode (merge_span (nspan c) (nspan ch)) (ntip ch) (nbranch ch) (nchildren ch)]"
    using res ok(2) erase_child_append[of i "cs[i := c]"] erase_child_update[OF ok(2), of c]
    by (auto simp: compress_child_def compact_def Let_def split: if_splits list.splits)
  then show ?thesis
  proof cases
    case keep
    then have "same_place (cs ! i) c" using c(2) by (simp add: same_place_def)
    then show ?thesis
      using keep node_ok_replace[OF ok c(1)] sum_list_map_update[OF ok(2), of tips]
        sum_list_map_update[OF ok(2), of nbranch] by simp
  next
    case erase
    have "tips c = {#}" "nbranch c = 0" using erase(1,2) c(1) by (cases c; simp add: node_ok.simps)+
    then show ?thesis
      using erase node_ok_erase[OF ok] sum_list_erase_child[OF ok(2), of tips] sum_list_erase_child[OF ok(2), of nbranch]
      by (simp add: ac_simps)
  next
    case (merge ch)
    let ?m = "TrieNode (merge_span (nspan c) (nspan ch)) (ntip ch) (nbranch ch) (nchildren ch)"
    have m: "node_ok ?m" "tips ?m = tips c" "nbranch ?m = nbranch c" "same_place (cs ! i) ?m"
      using merge_ok[OF c(1) merge(1,2)] unfolding same_place_def c(2)[symmetric] by blast+
    show ?thesis
      using merge(3,4) node_ok_replace[OF ok m(1,4)] sum_list_map_update[OF ok(2), of tips ?m]
        sum_list_map_update[OF ok(2), of nbranch ?m] m(2,3) by simp
  qed
qed

lemma remove_at_ok:
  assumes "located l p d n" "node_ok n" "cnt \<le> ntip (node_at p n)" "spath (nspan (node_at p n)) = l"
  shows "\<exists>n' go. remove_at cnt p n = (n', go) \<and> node_ok n' \<and> nspan n' = nspan n
    \<and> tips n' + replicate_mset cnt l = tips n \<and> nbranch n' + cnt = nbranch n
    \<and> (go \<or> (compact n \<longrightarrow> compact n'))"
  using assms
proof induction
  case (Here sp d cs t b)
  note D = node_okD[OF Here.prems(1)]
  have "node_ok (TrieNode sp (t - cnt) (b - cnt) cs)"
    using D Here.prems(2) by (intro node_okI) auto
  moreover have l: "spath sp = l" "b - cnt + cnt = b" using Here.prems(2,3) D(2) by simp_all
  have "replicate_mset (t - cnt) l + replicate_mset cnt l = replicate_mset t l"
    using Here.prems(2) by (simp flip: replicate_mset_add)
  then have "tips (TrieNode sp (t - cnt) (b - cnt) cs) + replicate_mset cnt l = tips (TrieNode sp t b cs)"
    using l(1) by (simp add: union_ac)
  ultimately show ?case
    using l(2) by (intro exI[of _ "TrieNode sp (t - cnt) (b - cnt) cs"] exI[of _ True]) simp
next
  case (Child sp i cs p d t b)
  let ?c = "cs ! i"
  note D = node_okD[OF Child.prems(1)]
  have mem: "?c \<in> set cs" using Child by simp
  have pre: "cnt \<le> ntip (node_at p ?c)" "spath (nspan (node_at p ?c)) = l" using Child.prems(2,3) by simp_all
  from Child.IH[OF D(4)[OF mem] pre]
  obtain c go where c: "remove_at cnt p ?c = (c, go)" "node_ok c" "nspan c = nspan ?c"
      "tips c + replicate_mset cnt l = tips ?c" "nbranch c + cnt = nbranch ?c" "go \<or> (compact ?c \<longrightarrow> compact c)"
    by blast
  obtain cs' go' where cs': "(if go then compress_child i (cs[i := c]) else (cs[i := c], False)) = (cs', go')"
    by (cases "if go then compress_child i (cs[i := c]) else (cs[i := c], False)")
  have ok: "node_ok (TrieNode sp t (t + sum_list (map nbranch cs')) cs')"
    and tp: "sum_list (map tips cs') + tips ?c = sum_list (map tips cs) + tips c"
    and br: "sum_list (map nbranch cs') + nbranch ?c = sum_list (map nbranch cs) + nbranch c"
    and len: "go' \<or> length cs' = length cs"
  proof -
    have "node_ok (TrieNode sp t (t + sum_list (map nbranch cs')) cs')
      \<and> sum_list (map tips cs') + tips ?c = sum_list (map tips cs) + tips c
      \<and> sum_list (map nbranch cs') + nbranch ?c = sum_list (map nbranch cs) + nbranch c
      \<and> (go' \<or> length cs' = length cs)"
    proof (cases go)
      case True
      then show ?thesis using compress_child_ok[OF Child.prems(1) Child.hyps(3) c(2,3)] cs' by simp
    next
      case False
      then have "same_place ?c c" using c(3,6) by (simp add: same_place_def)
      then show ?thesis
        using False cs' node_ok_replace[OF Child.prems(1) Child.hyps(3) c(2)]
          sum_list_map_update[OF Child.hyps(3), of tips c] sum_list_map_update[OF Child.hyps(3), of nbranch c]
          length_list_update[of cs i c] by simp
    qed
    then show "node_ok (TrieNode sp t (t + sum_list (map nbranch cs')) cs')"
      "sum_list (map tips cs') + tips ?c = sum_list (map tips cs) + tips c"
      "sum_list (map nbranch cs') + nbranch ?c = sum_list (map nbranch cs) + nbranch c"
      "go' \<or> length cs' = length cs" by auto
  qed
  have br': "sum_list (map nbranch cs') + cnt = sum_list (map nbranch cs)" using br c(5) by simp
  have "tips c + (sum_list (map tips cs') + replicate_mset cnt l) = tips c + sum_list (map tips cs)"
    using tp unfolding c(4)[symmetric] by (simp only: ac_simps)
  then have tp': "sum_list (map tips cs') + replicate_mset cnt l = sum_list (map tips cs)"
    by (simp only: add_left_cancel)
  have "remove_at cnt (i # p) (TrieNode sp t b cs) = (TrieNode sp t (b - cnt) cs', go')"
    using c(1) cs' by (simp add: Let_def)
  moreover have "node_ok (TrieNode sp t (b - cnt) cs')" 
  proof -
    have "b - cnt = t + sum_list (map nbranch cs')" using D(2) br' by simp
    then show ?thesis using ok by simp
  qed
  moreover have "tips (TrieNode sp t (b - cnt) cs') + replicate_mset cnt l = tips (TrieNode sp t b cs)"
    using tp' by (simp add: add.assoc)
  moreover have "b - cnt + cnt = b" using br' D(2) by simp
  moreover have "go' \<or> (compact (TrieNode sp t b cs) \<longrightarrow> compact (TrieNode sp t (b - cnt) cs'))"
    using len by (auto simp: compact_def)
  ultimately show ?case
    by (intro exI[of _ "TrieNode sp t (b - cnt) cs'"] exI[of _ go']) (simp only: TrieNode.sel simp_thms)
qed

section \<open>Support by sequence number\<close>

definition support_at :: "(Seq \<times> nat) list \<Rightarrow> Seq \<Rightarrow> nat" where
  "support_at ss s = (case map_of ss s of None \<Rightarrow> 0 | Some c \<Rightarrow> c)"

definition ss_sorted :: "(Seq \<times> nat) list \<Rightarrow> bool" where
  "ss_sorted ss \<longleftrightarrow> sorted_wrt (<) (map fst ss) \<and> (\<forall>x \<in> set ss. snd x > 0)"

definition at_seq :: "LedgerHist multiset \<Rightarrow> Seq \<Rightarrow> nat" where
  "at_seq M s = size {#x \<in># M. seq x = s#}"

lemma filter_replicate_mset: "{#x \<in># replicate_mset n y. P x#} = (if P y then replicate_mset n y else {#})"
  by (induction n) auto

lemma at_seq_simps [simp]:
  "at_seq {#} s = 0" "at_seq (M + N) s = at_seq M s + at_seq N s"
  "at_seq (replicate_mset n x) s = (if seq x = s then n else 0)"
  by (simp_all add: at_seq_def filter_replicate_mset)

lemma support_at_simps [simp]:
  "support_at [] s = 0"
  "support_at ((s', c) # ss) s = (if s = s' then c else support_at ss s)"
  by (simp_all add: support_at_def)

lemma ss_sorted_simps [simp]:
  "ss_sorted []" "ss_sorted ((s, c) # ss) \<longleftrightarrow> c > 0 \<and> (\<forall>x \<in> set ss. s < fst x) \<and> ss_sorted ss"
  by (auto simp: ss_sorted_def)

lemma support_at_0: "s \<notin> fst ` set ss \<Longrightarrow> support_at ss s = 0"
  by (induction ss) auto

lemma keys_add_support [simp]: "fst ` set (add_support s c ss) = insert s (fst ` set ss)"
  by (induction s c ss rule: add_support.induct) auto

lemma below_add_support:
  "(\<forall>x \<in> set (add_support s c ss). k < fst x) \<longleftrightarrow> k < s \<and> (\<forall>x \<in> set ss. k < fst x)"
  by (induction s c ss rule: add_support.induct) auto

lemma add_support_ok:
  assumes "ss_sorted ss" "c > 0"
  shows "ss_sorted (add_support s c ss)"
    "support_at (add_support s c ss) s' = support_at ss s' + (if s = s' then c else 0)"
proof -
  show "ss_sorted (add_support s c ss)"
    using assms by (induction s c ss rule: add_support.induct) (simp_all add: below_add_support, fastforce)
  show "support_at (add_support s c ss) s' = support_at ss s' + (if s = s' then c else 0)"
    using assms by (induction s c ss rule: add_support.induct) (auto intro!: support_at_0 dest: bspec)
qed

lemma sub_support_ok:
  assumes "ss_sorted ss" "c \<le> support_at ss s" "support_at ss s > 0"
  shows "\<exists>ss'. sub_support s c ss = Some ss' \<and> ss_sorted ss' \<and> fst ` set ss' \<subseteq> fst ` set ss
    \<and> (\<forall>s'. support_at ss' s' = support_at ss s' - (if s = s' then c else 0))"
  using assms
proof (induction ss)
  case (Cons x ss)
  obtain s1 c1 where x: "x = (s1, c1)" by (cases x)
  show ?case
  proof (cases "s = s1")
    case True
    have "s1 \<notin> fst ` set ss" using Cons.prems(1) x by fastforce
    then show ?thesis using Cons.prems True x by (auto simp: support_at_0)
  next
    case False
    then obtain ss' where ss': "sub_support s c ss = Some ss'" "ss_sorted ss'" "fst ` set ss' \<subseteq> fst ` set ss"
      "\<forall>s'. support_at ss' s' = support_at ss s' - (if s = s' then c else 0)"
      using Cons.IH Cons.prems x by auto
    have "\<forall>y \<in> set ss'. s1 < fst y" using ss'(3) Cons.prems(1) x by fastforce
    then show ?thesis using False x ss' Cons.prems(1) by auto
  qed
qed simp

lemma ss_sorted_map_of: "ss_sorted a \<Longrightarrow> (s, c) \<in> set a \<Longrightarrow> support_at a s = c"
  unfolding ss_sorted_def support_at_def
  by (metis map_of_is_SomeI option.simps(5) strict_sorted_iff)

lemma ss_sorted_keys: "ss_sorted a \<Longrightarrow> s \<in> fst ` set a \<longleftrightarrow> support_at a s > 0"
  using ss_sorted_map_of[of a s] support_at_0[of s a] by (force simp: ss_sorted_def)

lemma ss_sorted_unique:
  assumes "ss_sorted a" "ss_sorted b" "\<And>s. support_at a s = support_at b s"
  shows "a = b"
proof -
  have canon: "map (\<lambda>k. (k, support_at x k)) (map fst x) = x" if "ss_sorted x" for x
    by (simp add: comp_def) (rule map_idI, use ss_sorted_map_of[OF that] in auto)
  have "fst ` set a = fst ` set b" using assms ss_sorted_keys by (auto simp: set_eq_iff)
  then have "map fst a = map fst b"
    using assms(1,2) by (intro strict_sorted_equal) (auto simp: ss_sorted_def)
  then show ?thesis using canon[OF assms(1)] canon[OF assms(2)] assms(3) by simp
qed

section \<open>The trie\<close>

definition bag :: "LedgerTrie \<Rightarrow> LedgerHist multiset" where
  "bag T = tips (root T)"

definition trie_ok :: "LedgerTrie \<Rightarrow> bool" where
  "trie_ok T \<longleftrightarrow> node_ok (root T) \<and> nspan (root T) = genesisSpan
     \<and> ss_sorted (seqSupport T) \<and> (\<forall>s. support_at (seqSupport T) s = at_seq (bag T) s)"

text \<open>Every ledger descends from the genesis ledger.\<close>

definition ledger_ok :: "LedgerHist \<Rightarrow> bool" where
  "ledger_ok l \<longleftrightarrow> l \<noteq> [] \<and> hd l = 0"

lemma ledger_ok_genesis:
  assumes "ledger_ok l"
  shows "l \<noteq> []" "reaches l genesisSpan" "diff genesisSpan l = 1" "send genesisSpan = 1" "sstart genesisSpan = 0"
  using assms by (cases l; simp add: ledger_ok_def genesisSpan_def reaches_def diff_def clamp_def)+

lemma trie_find_root:
  assumes "trie_ok T" "ledger_ok l" "trie_find (root T) l = (p, d)"
  shows "located l p d (root T)"
  using trie_find_located[OF _ _ assms(3)] assms(1) ledger_ok_genesis(2)[OF assms(2)] by (simp add: trie_ok_def)

lemma emptyTrie_ok: "trie_ok emptyTrie" "bag emptyTrie = {#}"
  by (simp_all add: trie_ok_def emptyTrie_def bag_def node_ok.simps genesisSpan_def span_ok_def)

lemma trie_insert_ok:
  assumes "trie_ok T" "ledger_ok l" "0 < cnt"
  shows "\<exists>T'. trie_insert l cnt T = Some T' \<and> trie_ok T' \<and> bag T' = bag T + replicate_mset cnt l"
proof -
  obtain p d where pd: "trie_find (root T) l = (p, d)" by (cases "trie_find (root T) l")
  note loc = trie_find_root[OF assms(1,2) pd]
  note G = ledger_ok_genesis[OF assms(2)]
  have ok: "node_ok (root T)" "nspan (root T) = genesisSpan" using assms(1) by (simp_all add: trie_ok_def)
  have d: "p \<noteq> [] \<or> d = send (nspan (root T))"
    using loc ok(2) G by (auto elim: located.cases)
  obtain r where r: "insert_at l cnt d p (root T) = Some r" "node_ok r" "tips r = tips (root T) + replicate_mset cnt l"
      "nspan r = nspan (root T)"
    using insert_at_ok[OF loc ok(1) G(1) assms(3)] G ok(2) d by auto
  then show ?thesis
    using pd assms(1,3) add_support_ok[of "seqSupport T" cnt "seq l"]
    by (auto simp: trie_insert_def trie_ok_def bag_def)
qed

lemma tipSupport_bag:
  assumes "trie_ok T" "ledger_ok l"
  shows "tipSupport T l = count (bag T) l"
proof -
  obtain p d where pd: "trie_find (root T) l = (p, d)" by (cases "trie_find (root T) l")
  have ok: "node_ok (root T)" and l: "l \<noteq> []" using assms ledger_ok_genesis by (auto simp: trie_ok_def)
  let ?n = "node_at p (root T)"
  have loc: "node_ok ?n" "located l [] d ?n"
    and flt: "filter_mset (prefix l) (bag T) = filter_mset (prefix l) (tips ?n)"
    using located_loc[OF trie_find_root[OF assms pd] ok] by (auto simp: bag_def)
  have "count (bag T) l = count (tips ?n) l"
    using arg_cong[OF flt, of "\<lambda>M. count M l"] by simp
  moreover have "d = length l \<longleftrightarrow> d > seq l"
    using here_support(1)[OF loc(2,1)] l by (auto simp: seq_def)
  ultimately show ?thesis
    using here_support(3)[OF loc(2,1)] pd by (auto simp: tipSupport_def)
qed

lemma branchSupport_bag:
  assumes "trie_ok T" "ledger_ok l"
  shows "branchSupport T l = size {#x \<in># bag T. prefix l x#}"
proof -
  obtain p d where pd: "trie_find (root T) l = (p, d)" by (cases "trie_find (root T) l")
  have ok: "node_ok (root T)" and l: "l \<noteq> []" using assms ledger_ok_genesis by (auto simp: trie_ok_def)
  let ?n = "node_at p (root T)"
  have loc: "node_ok ?n" "located l [] d ?n"
    and flt: "filter_mset (prefix l) (bag T) = filter_mset (prefix l) (tips ?n)"
    using located_loc[OF trie_find_root[OF assms pd] ok] by (auto simp: bag_def)
  have d: "d = length l \<longleftrightarrow> d > seq l" using here_support(1)[OF loc(2,1)] l by (auto simp: seq_def)
  have "d = diff (nspan ?n) l" using loc(2) by (auto elim: located.cases)
  then have "d \<le> send (nspan ?n)" using diff_bounds[OF node_ok_span[OF loc(1)], of l] by simp
  then have "d > seq l \<and> seq l < send (nspan ?n) \<longleftrightarrow> d = length l" using d by auto
  then show ?thesis
    using flt here_support(2)[OF loc(2,1)] size_tips[OF loc(1)] pd by (auto simp: branchSupport_def)
qed

lemma trie_remove_ok:
  assumes "trie_ok T" "ledger_ok l"
  shows "\<exists>T'. trie_remove l cnt T = Some (l \<in># bag T, T') \<and> trie_ok T'
    \<and> bag T' = bag T - replicate_mset cnt l"
proof -
  obtain p d where pd: "trie_find (root T) l = (p, d)" by (cases "trie_find (root T) l")
  let ?n = "node_at p (root T)" and ?hit = "d = send (nspan (node_at p (root T))) \<and> d > seq l"
  have ok: "node_ok (root T)" "nspan (root T) = genesisSpan" using assms(1) by (auto simp: trie_ok_def)
  note loc = trie_find_root[OF assms pd]
  have tip: "count (bag T) l = (if ?hit then ntip ?n else 0)"
    using tipSupport_bag[OF assms] pd by (simp add: tipSupport_def Let_def)
  show ?thesis
  proof (cases "?hit \<and> ntip ?n > 0")
    case False
    then have "l \<notin># bag T" using tip by (auto simp: not_in_iff)
    moreover from this have "bag T - replicate_mset cnt l = bag T"
      by (simp add: multiset_eq_iff not_in_iff)
    ultimately show ?thesis using False pd assms(1) by (auto simp: trie_remove_def)
  next
    case True
    let ?c = "min cnt (ntip ?n)"
    have n: "node_ok ?n" "located l [] d ?n" using located_loc[OF loc ok(1)] by auto
    have dl: "d = length l" using True here_support(1)[OF n(2,1)] by (auto simp: seq_def)
    have rl: "reaches l (nspan ?n)" "d = diff (nspan ?n) l"
      using located_loc[OF loc ok(1)] n(2) by (auto elim: located.cases)
    have "take d l = take d (sledger (nspan ?n))" using diff_take(1)[OF node_ok_span[OF n(1)] rl(1)] rl(2) by simp
    then have sl: "spath (nspan ?n) = l" using True dl by (simp add: spath_def)
    obtain r go where r: "remove_at ?c p (root T) = (r, go)" "node_ok r" "nspan r = genesisSpan"
        "tips r + replicate_mset ?c l = tips (root T)"
      using remove_at_ok[OF loc ok(1), of ?c] sl ok(2) by auto
    have bag: "bag T = tips r + replicate_mset ?c l" using r(4) by (simp add: bag_def)
    have mem: "l \<in># bag T" using True tip by (simp add: count_greater_zero_iff flip: count_greater_zero_iff)
    have "at_seq (bag T) (seq l) \<ge> count (bag T) l"
      unfolding at_seq_def by (metis (mono_tags, lifting) count_filter_mset count_le_size)
    then have "?c \<le> support_at (seqSupport T) (seq l)" "0 < support_at (seqSupport T) (seq l)"
      using assms(1) tip True by (auto simp: trie_ok_def)
    then obtain ss where ss: "sub_support (seq l) ?c (seqSupport T) = Some ss" "ss_sorted ss"
        "\<forall>s. support_at ss s = support_at (seqSupport T) s - (if seq l = s then ?c else 0)"
      using sub_support_ok[of "seqSupport T" ?c "seq l"] assms(1) by (auto simp: trie_ok_def)
    have "bag T - replicate_mset cnt l = tips r"
    proof (rule multiset_eqI)
      fix x
      have "count (bag T) x = count (tips r) x + (if x = l then ?c else 0)" by (simp add: bag)
      then show "count (bag T - replicate_mset cnt l) x = count (tips r) x" using tip True by auto
    qed
    moreover have "support_at ss s = at_seq (tips r) s" for s
      using ss(3) assms(1) by (simp add: trie_ok_def bag)
    then have "trie_ok \<lparr>root = r, seqSupport = ss\<rparr>"
      using r(2,3) ss(2) by (simp add: trie_ok_def bag_def)
    ultimately show ?thesis
      using True pd r(1) ss(1) mem by (auto simp: trie_remove_def bag_def Let_def)
  qed
qed

section \<open>The run-time check\<close>

lemma node_checks_ok: "node_ok n \<Longrightarrow> isRoot \<or> compact n \<Longrightarrow> node_checks isRoot n"
proof (induction n arbitrary: isRoot)
  case (TrieNode sp t b cs)
  note D = node_okD[OF TrieNode.prems(1)]
  have "list_all (node_checks False) cs" using TrieNode.IH D(4,6) by (auto simp: list_all_iff)
  then show ?case using TrieNode.prems(2) D(2) by (auto simp: compact_def)
qed

lemma expected_support_ok:
  "node_ok n \<Longrightarrow> ss_sorted ss \<Longrightarrow> ss_sorted (expected_support n ss)
     \<and> (\<forall>s. support_at (expected_support n ss) s = support_at ss s + at_seq (tips n) s)"
proof (induction n arbitrary: ss)
  case (TrieNode sp t b cs)
  note D = node_okD[OF TrieNode.prems(1)]
  have fold: "ss_sorted (fold expected_support ds ss)
      \<and> (\<forall>s. support_at (fold expected_support ds ss) s = support_at ss s + at_seq (sum_list (map tips ds)) s)"
    if "ss_sorted ss" "set ds \<subseteq> set cs" for ds ss
    using that
  proof (induction ds arbitrary: ss)
    case (Cons d ds)
    then have "ss_sorted (expected_support d ss)
      \<and> (\<forall>s. support_at (expected_support d ss) s = support_at ss s + at_seq (tips d) s)"
      using TrieNode.IH D(4) by auto
    then show ?case using Cons by (simp add: add.assoc)
  qed simp
  define ss0 where "ss0 = (if t \<noteq> 0 then add_support (send sp - 1) t ss else ss)"
  have "seq (spath sp) = send sp - 1" using D(1) by (simp add: seq_def)
  then have "ss_sorted ss0" "support_at ss0 s = support_at ss s + at_seq (replicate_mset t (spath sp)) s" for s
    using TrieNode.prems(2) add_support_ok[of ss t "send sp - 1"] by (auto simp: ss0_def)
  moreover have "sum_list (map tips (rev cs)) = sum_list (map tips cs)"
    by (metis sum_list_rev rev_map)
  ultimately show ?case
    using fold[of ss0 "rev cs"] unfolding expected_support.simps ss0_def[symmetric] tips.simps at_seq_simps(2)
    by (simp add: add.assoc)
qed

lemma checkInvariants_ok: "trie_ok T \<Longrightarrow> checkInvariants T"
proof -
  assume ok: "trie_ok T"
  then have "node_checks True (root T)" by (simp add: trie_ok_def node_checks_ok)
  moreover have "expected_support (root T) [] = seqSupport T"
    using expected_support_ok[of "root T" "[]"] ok by (intro ss_sorted_unique) (auto simp: trie_ok_def bag_def)
  ultimately show ?thesis by (simp add: checkInvariants_def)
qed

section \<open>The contract of the trie\<close>

text \<open>
  What the validation tracker relies on: a bag of ledgers under insertion and removal, its counts, and
  the counts of descendants.
\<close>

locale ledger_support =
  fixes inv :: "'t \<Rightarrow> bool" and content :: "'t \<Rightarrow> LedgerHist multiset"
    and ins :: "LedgerHist \<Rightarrow> nat \<Rightarrow> 't \<Rightarrow> 't option"
    and rem :: "LedgerHist \<Rightarrow> nat \<Rightarrow> 't \<Rightarrow> (bool \<times> 't) option"
    and tipSup :: "'t \<Rightarrow> LedgerHist \<Rightarrow> nat" and branchSup :: "'t \<Rightarrow> LedgerHist \<Rightarrow> nat"
  assumes ins_law: "inv T \<Longrightarrow> ledger_ok l \<Longrightarrow> 0 < n \<Longrightarrow>
      \<exists>T'. ins l n T = Some T' \<and> inv T' \<and> content T' = content T + replicate_mset n l"
    and rem_law: "inv T \<Longrightarrow> ledger_ok l \<Longrightarrow>
      \<exists>T'. rem l n T = Some (l \<in># content T, T') \<and> inv T' \<and> content T' = content T - replicate_mset n l"
    and tip_law: "inv T \<Longrightarrow> ledger_ok l \<Longrightarrow> tipSup T l = count (content T) l"
    and branch_law: "inv T \<Longrightarrow> ledger_ok l \<Longrightarrow> branchSup T l = size {#x \<in># content T. prefix l x#}"
begin

text \<open>Moving a vote from one ledger to another, which is how a validator updates its support.\<close>

lemma move_support:
  assumes "inv T" "ledger_ok a" "ledger_ok b" "a \<in># content T"
  shows "\<exists>T1 T2. rem a 1 T = Some (True, T1) \<and> ins b 1 T1 = Some T2 \<and> inv T2
    \<and> content T2 = content T - {#a#} + {#b#} \<and> size (content T2) = size (content T)"
proof -
  obtain T1 where T1: "rem a 1 T = Some (True, T1)" "inv T1" "content T1 = content T - {#a#}"
    using rem_law[OF assms(1,2), of 1] assms(4) by auto
  obtain T2 where "ins b 1 T1 = Some T2" "inv T2" "content T2 = content T1 + {#b#}"
    using ins_law[OF T1(2) assms(3), of 1] by auto
  moreover have "size (content T - {#a#} + {#b#}) = size (content T)"
    using assms(4) by (simp add: size_Suc_Diff1)
  ultimately show ?thesis using T1 by (intro exI[of _ T1] exI[of _ T2]) simp
qed

lemma branch_antimono:
  assumes "inv T" "ledger_ok a" "ledger_ok b" "prefix a b"
  shows "branchSup T b \<le> branchSup T a"
proof -
  have "{#x \<in># content T. prefix b x#} \<subseteq># {#x \<in># content T. prefix a x#}"
    using assms(4) by (auto simp: subseteq_mset_def intro: prefix_order.trans)
  then show ?thesis using branch_law[OF assms(1)] assms(2,3) by (simp add: size_mset_mono)
qed

lemma tip_le_branch:
  assumes "inv T" "ledger_ok l"
  shows "tipSup T l \<le> branchSup T l"
proof -
  have "count (content T) l = count {#x \<in># content T. prefix l x#} l" by simp
  also have "\<dots> \<le> size {#x \<in># content T. prefix l x#}" by (rule count_le_size)
  finally show ?thesis using tip_law branch_law assms by simp
qed

end

interpretation trie: ledger_support trie_ok bag trie_insert trie_remove tipSupport branchSupport
  by unfold_locales (simp_all add: trie_insert_ok trie_remove_ok tipSupport_bag branchSupport_bag)

end
