(* ===== verification/LedgerTrie_Preferred.thy ===== *)
theory LedgerTrie_Preferred
  imports LedgerTrie_Correct
begin

text \<open>
  The preferred ledger. The documentation of \<^verbatim>\<open>getPreferred\<close> describes it sequence by sequence:
  go on to the ledger whose support no other ledger of that sequence could reach, even one not yet
  known, if every uncommitted validator supported it. The walk over the compressed trie, which skips
  whole spans and whole runs of sequence numbers, is shown to compute exactly this ledger.
\<close>

section \<open>Specification\<close>

definition supp :: "LedgerTrie \<Rightarrow> LedgerHist \<Rightarrow> nat" where
  "supp T q = size {#x \<in># bag T. prefix q x#}"

text \<open>
  Support not yet committed at sequence \<open>s\<close>: last votes before \<open>s\<close>, or before
  the last sequence this node has itself voted for.
\<close>

definition uncommitted :: "LedgerTrie \<Rightarrow> Seq \<Rightarrow> Seq \<Rightarrow> nat" where
  "uncommitted T largest s = size {#x \<in># bag T. seq x < max s largest#}"

definition dominates :: "LedgerTrie \<Rightarrow> Seq \<Rightarrow> LedgerHist \<Rightarrow> nat \<Rightarrow> bool" where
  "dominates T largest q x \<longleftrightarrow> (\<forall>y. y \<noteq> x \<longrightarrow>
     supp T (q @ [y]) + uncommitted T largest (length q) < supp T (q @ [x])
     \<or> supp T (q @ [y]) + uncommitted T largest (length q) = supp T (q @ [x]) \<and> y < x)"

definition tip_chain :: "SpanTip \<Rightarrow> LedgerHist" where
  "tip_chain t = take (Suc (tipSeq t)) (tipLedger t)"

section \<open>The iterator over the support by sequence number\<close>

definition below :: "(Seq \<times> nat) list \<Rightarrow> Seq \<Rightarrow> nat" where
  "below S B = sum_list (map snd (filter (\<lambda>x. fst x < B) S))"

lemma below_Suc: "ss_sorted S \<Longrightarrow> below S (Suc B) = below S B + support_at S B"
proof (induction S)
  case (Cons x S)
  obtain s c where x: "x = (s, c)" by (cases x)
  have "support_at S B = 0" if "s = B"
    using Cons.prems x that by (intro support_at_0) auto
  then show ?case using Cons x by (auto simp: below_def less_Suc_eq)
qed (simp add: below_def)

lemma below_eq:
  assumes "ss_sorted S" "\<And>s. support_at S s = at_seq M s"
  shows "below S B = size {#x \<in># M. seq x < B#}"
proof (induction B)
  case (Suc B)
  have "{#x \<in># M. seq x < Suc B#} = {#x \<in># M. seq x < B#} + {#x \<in># M. seq x = B#}"
    by (rule multiset_eqI) auto
  then show ?case using Suc below_Suc[OF assms(1)] assms(2) by (simp add: at_seq_def)
qed (simp add: below_def)

lemma below_uncommitted: "trie_ok T \<Longrightarrow> below (seqSupport T) (max s largest) = uncommitted T largest s"
  by (simp add: trie_ok_def uncommitted_def below_eq)

text \<open>The iterator has passed a prefix of the list and summed it up.\<close>

definition cursor :: "(Seq \<times> nat) list \<Rightarrow> Seq \<Rightarrow> nat \<Rightarrow> (Seq \<times> nat) list \<Rightarrow> bool" where
  "cursor S B u ss \<longleftrightarrow> (\<exists>pre. S = pre @ ss \<and> (\<forall>x \<in> set pre. fst x < B) \<and> u = sum_list (map snd pre))"

definition settled :: "(Seq \<times> nat) list \<Rightarrow> Seq \<Rightarrow> nat \<Rightarrow> (Seq \<times> nat) list \<Rightarrow> bool" where
  "settled S B u ss \<longleftrightarrow> cursor S B u ss \<and> (\<forall>x \<in> set ss. B \<le> fst x)"

lemma cursor_mono: "cursor S B u ss \<Longrightarrow> B \<le> B' \<Longrightarrow> cursor S B' u ss"
  unfolding cursor_def by (elim exE, rule_tac x = pre in exI) fastforce

lemma settled_below: "settled S B u ss \<Longrightarrow> u = below S B"
  unfolding settled_def cursor_def below_def by (fastforce simp: filter_empty_conv)

lemma cursor_step: "cursor S B u ((s, c) # ss) \<Longrightarrow> s < B \<Longrightarrow> cursor S B (u + c) ss"
  unfolding cursor_def by (elim exE, rule_tac x = "pre @ [(s, c)]" in exI) auto

lemma cursor_sorted: "ss_sorted S \<Longrightarrow> cursor S B u ss \<Longrightarrow> ss_sorted ss"
  unfolding cursor_def ss_sorted_def by (auto simp: sorted_wrt_append)

lemma add_uncommitted_settled:
  "ss_sorted S \<Longrightarrow> cursor S B u ss \<Longrightarrow> add_uncommitted B u ss = (u', ss') \<Longrightarrow> settled S B u' ss'"
proof (induction B u ss rule: add_uncommitted.induct)
  case (2 B u s c ss)
  show ?case
  proof (cases "s < B")
    case True
    then show ?thesis using 2 cursor_step by simp
  next
    case False
    then show ?thesis using 2(2-4) cursor_sorted[OF 2(2,3)] by (fastforce simp: settled_def)
  qed
qed (simp add: settled_def)

lemma below_const:
  assumes "settled S B u ss" "B \<le> B'" "\<forall>x \<in> set ss. B' \<le> fst x"
  shows "below S B' = u" "settled S B' u ss"
  using assms cursor_mono settled_below unfolding settled_def by metis+

lemma advance_ok:
  assumes "ss_sorted S" "settled S (max n L) u ss" "n \<le> e" "advance e b n u ss = (n', u', ss')"
  shows "n \<le> n' \<and> n' \<le> e \<and> (\<forall>j. n \<le> j \<and> j < n' \<longrightarrow> below S (max j L) < b)
    \<and> (n' < e \<longrightarrow> b \<le> below S (max n' L)) \<and> settled S (max n' L) u' ss'"
  using assms(2-)
proof (induction e b n u ss rule: advance.induct)
  case (1 e b n u)
  have "settled S (max j L) u [] \<and> below S (max j L) = u" if "n \<le> j" for j
    using below_const[OF 1(1), of "max j L"] that by (simp add: max.coboundedI1 max.coboundedI2)
  then show ?case using 1 by (auto split: if_splits)
next
  case (2 e b n u s c ss)
  have u: "u = below S (max n L)" using settled_below[OF 2(2)] .
  have "ss_sorted ((s, c) # ss)" using 2(2) unfolding settled_def by (blast intro: cursor_sorted[OF assms(1)])
  then have s: "max n L \<le> s" "\<forall>x \<in> set ss. s < fst x" using 2(2) by (auto simp: settled_def)
  have const: "below S (max j L) = u" "settled S (max j L) u ((s, c) # ss)" if "n \<le> j" "j \<le> s" for j
  proof -
    have "\<forall>x \<in> set ((s, c) # ss). max j L \<le> fst x" "max n L \<le> max j L" using s that by fastforce+
    then show "below S (max j L) = u" "settled S (max j L) u ((s, c) # ss)" using below_const[OF 2(2)] by blast+
  qed
  show ?case
  proof (cases "n < e \<and> b > u")
    case False
    then show ?thesis using 2(2-4) u by auto
  next
    case go: True
    show ?thesis
    proof (cases "s < e")
      case True
      have "settled S (max (s + 1) L) (u + c) ss"
        using 2(2) s cursor_step[OF cursor_mono, of S "max n L" u s c ss "max (s + 1) L"]
        by (auto simp: settled_def)
      then have "s + 1 \<le> n' \<and> n' \<le> e \<and> (\<forall>j. s + 1 \<le> j \<and> j < n' \<longrightarrow> below S (max j L) < b)
          \<and> (n' < e \<longrightarrow> b \<le> below S (max n' L)) \<and> settled S (max n' L) u' ss'"
        using 2(1)[OF go True] True 2(4) go by simp
      moreover have "below S (max j L) < b" if "n \<le> j" "j < s + 1" for j using const(1)[of j] that go by simp
      ultimately show ?thesis using s(1) by (metis Suc_eq_plus1 le_SucI le_trans max.bounded_iff not_less)
    next
      case False
      then show ?thesis using 2(3,4) go const by auto
    qed
  qed
qed

section \<open>Support along a node\<close>

text \<open>The ledgers below a node are those that extend the start of its span.\<close>

definition holds :: "LedgerTrie \<Rightarrow> TrieNode \<Rightarrow> bool" where
  "holds T n \<longleftrightarrow> node_ok n
     \<and> {#x \<in># bag T. prefix (take (Suc (sstart (nspan n))) (sledger (nspan n))) x#} = tips n"

lemma filter_prefix:
  "prefix a q \<Longrightarrow> {#x \<in># M. prefix q x#} = {#x \<in># {#x \<in># M. prefix a x#}. prefix q x#}"
  unfolding filter_filter_mset by (rule filter_mset_cong) (auto dest: prefix_order.trans)

lemma supp_below:
  assumes "holds T n" "prefix (take (Suc (sstart (nspan n))) (sledger (nspan n))) q"
  shows "supp T q = size {#x \<in># tips n. prefix q x#}"
  using assms(1) filter_prefix[OF assms(2), of "bag T"] by (simp add: supp_def holds_def)

lemma prefix_take_mono: "j \<le> k \<Longrightarrow> prefix (take j xs) (take k xs)"
  by (metis min.absorb1 take_is_prefix take_take)

lemma prefix_snoc_iff: "prefix (q @ [y]) x \<longleftrightarrow> prefix q x \<and> length q < length x \<and> x ! length q = y"
proof
  assume "prefix q x \<and> length q < length x \<and> x ! length q = y"
  then obtain z where "x = q @ z" "z \<noteq> []" "hd z = y" by (auto simp: prefix_def nth_append hd_conv_nth)
  then show "prefix (q @ [y]) x" by (cases z) auto
qed (auto simp: prefix_def)

lemma tips_take: "node_ok n \<Longrightarrow> x \<in># tips n \<Longrightarrow> k \<le> send (nspan n) \<Longrightarrow> prefix (take k (sledger (nspan n))) x"
  using tips_prefix[of n x] prefix_take_mono[of k "send (nspan n)" "sledger (nspan n)"]
  by (auto simp: spath_def intro: prefix_order.trans)

lemma supp_span:
  assumes "holds T n" "sstart (nspan n) < k" "k \<le> send (nspan n)"
  shows "supp T (take k (sledger (nspan n))) = nbranch n"
    and "k < send (nspan n) \<Longrightarrow>
      supp T (take k (sledger (nspan n)) @ [y]) = (if y = sledger (nspan n) ! k then nbranch n else 0)"
proof -
  let ?l = "sledger (nspan n)" and ?sp = "nspan n"
  have ok: "node_ok n" "span_ok ?sp" using assms(1) node_ok_span by (auto simp: holds_def)
  have len: "send ?sp \<le> length ?l" using ok(2) by (simp add: span_ok_def)
  have sup: "supp T (take k ?l) = nbranch n" if "sstart ?sp < k" "k \<le> send ?sp" for k
  proof -
    have "{#x \<in># tips n. prefix (take k ?l) x#} = tips n"
      using tips_take[OF ok(1)] that(2) by (intro filter_mset_all)
    then show ?thesis using supp_below[OF assms(1), of "take k ?l"] that prefix_take_mono[of _ k ?l] size_tips[OF ok(1)] by simp
  qed
  show "supp T (take k ?l) = nbranch n" using sup assms(2,3) .
  assume k: "k < send ?sp"
  have suc: "take (Suc k) ?l = take k ?l @ [?l ! k]" using k len by (simp add: take_Suc_conv_app_nth)
  have "{#x \<in># tips n. prefix (take k ?l @ [y]) x#} = {#}" if "y \<noteq> ?l ! k"
  proof (rule filter_mset_none)
    fix x assume "x \<in># tips n"
    then have "prefix (take (Suc k) ?l) x" using tips_take[OF ok(1)] k by simp
    then show "\<not> prefix (take k ?l @ [y]) x" using that unfolding suc by (auto simp: prefix_def)
  qed
  then show "supp T (take k ?l @ [y]) = (if y = ?l ! k then nbranch n else 0)"
    using supp_below[OF assms(1), of "take k ?l @ [y]"] sup[of "Suc k"] suc k assms(2)
      prefix_order.trans[OF prefix_take_mono[of "Suc (sstart ?sp)" k ?l], of "take k ?l @ [y]"] by auto
qed

lemma tips_filter_child:
  assumes "node_ok (TrieNode sp t b cs)" "i < length cs"
  shows "{#x \<in># tips (TrieNode sp t b cs). prefix (spath sp @ [startID (nspan (cs ! i))]) x#} = tips (cs ! i)"
proof -
  let ?q = "spath sp @ [startID (nspan (cs ! i))]"
  note D = node_okD[OF assms(1)]
  have iff: "prefix ?q x \<longleftrightarrow> j = i" if "j < length cs" "x \<in># tips (cs ! j)" for j x
  proof -
    have x: "prefix (spath sp) x" "send sp < length x" "x ! send sp = startID (nspan (cs ! j))"
      using tips_child[OF assms(1) _ that(2)] that(1) by auto
    have "prefix ?q x \<longleftrightarrow> x ! send sp = startID (nspan (cs ! i))"
      using x(1,2) length_spath[OF D(1)] by (simp add: prefix_snoc_iff)
    then show ?thesis using x(3) D(3) that(1) assms(2) by (auto simp: distinct_conv_nth)
  qed
  have "{#x \<in># sum_list (map tips cs). prefix ?q x#} = {#x \<in># tips (cs ! i). prefix ?q x#}"
    using assms(2) iff by (intro filter_sum_list_single) (auto intro!: filter_mset_none)
  also have "\<dots> = tips (cs ! i)" using iff assms(2) by (intro filter_mset_all) auto
  finally have "{#x \<in># sum_list (map tips cs). prefix ?q x#} = tips (cs ! i)" .
  moreover have "{#x \<in># replicate_mset t (spath sp). prefix ?q x#} = {#}"
    by (intro filter_mset_none) (auto split: if_splits simp: prefix_def)
  ultimately show ?thesis by simp
qed

lemma holds_child:
  assumes "holds T (TrieNode sp t b cs)" "i < length cs"
  shows "holds T (cs ! i)" "supp T (spath sp @ [startID (nspan (cs ! i))]) = nbranch (cs ! i)"
    "take (Suc (sstart (nspan (cs ! i)))) (sledger (nspan (cs ! i))) = spath sp @ [startID (nspan (cs ! i))]"
proof -
  let ?c = "cs ! i" and ?n = "TrieNode sp t b cs" and ?q = "spath sp @ [startID (nspan (cs ! i))]"
  have ok: "node_ok ?n" using assms(1) by (simp add: holds_def)
  note D = node_okD[OF ok]
  have c: "node_ok ?c" "continues sp (nspan ?c)" "span_ok (nspan ?c)" using D(4,5) assms(2) node_ok_span by auto
  show q: "take (Suc (sstart (nspan ?c))) (sledger (nspan ?c)) = ?q"
    using c(2,3) by (simp add: continues_def span_ok_def startID_def take_Suc_conv_app_nth)
  have pre: "prefix (take (Suc (sstart (nspan ?n))) (sledger (nspan ?n))) ?q"
    using D(1) prefix_take_mono[of "Suc (sstart sp)" "send sp" "sledger sp"]
    by (auto simp: spath_def span_ok_def intro: prefix_order.trans)
  have tc: "{#x \<in># bag T. prefix ?q x#} = tips ?c"
    using filter_prefix[OF pre, of "bag T"] assms(1) tips_filter_child[OF ok assms(2)] by (simp add: holds_def)
  then show "holds T ?c" using c(1) q by (simp add: holds_def)
  show "supp T ?q = nbranch ?c" using tc size_tips[OF c(1)] by (simp add: supp_def)
qed

lemma supp_no_child:
  assumes "holds T (TrieNode sp t b cs)" "\<And>i. i < length cs \<Longrightarrow> startID (nspan (cs ! i)) \<noteq> y"
  shows "supp T (spath sp @ [y]) = 0"
proof -
  let ?n = "TrieNode sp t b cs"
  have ok: "node_ok ?n" using assms(1) by (simp add: holds_def)
  have "{#x \<in># tips ?n. prefix (spath sp @ [y]) x#} = {#}"
  proof (rule filter_mset_none)
    fix x assume x: "x \<in># tips ?n"
    show "\<not> prefix (spath sp @ [y]) x"
    proof (cases "x \<in># sum_list (map tips cs)")
      case True
      then obtain c where c: "c \<in> set cs" "x \<in># tips c" by (auto simp: in_sum_list_mset)
      then show ?thesis
        using tips_child[OF ok c] assms(2) node_okD(1)[OF ok] by (auto simp: prefix_snoc_iff in_set_conv_nth)
    next
      case False
      then show ?thesis using x by (auto simp: prefix_snoc_iff split: if_splits)
    qed
  qed
  moreover have "prefix (take (Suc (sstart (nspan ?n))) (sledger (nspan ?n))) (spath sp @ [y])"
    using node_okD(1)[OF ok] prefix_take_mono[of "Suc (sstart sp)" "send sp" "sledger sp"]
    by (auto simp: spath_def span_ok_def intro: prefix_order.trans)
  ultimately show ?thesis using supp_below[OF assms(1)] by simp
qed

section \<open>The best child\<close>

lemma better_total: "startID (nspan a) \<noteq> startID (nspan b) \<Longrightarrow> better a b \<or> better b a"
  by (auto simp: better_def)

lemma better_trans: "better a b \<Longrightarrow> better b c \<Longrightarrow> better a c"
  by (auto simp: better_def)

lemma better_asym: "better a b \<Longrightarrow> \<not> better b a"
  by (auto simp: better_def)

lemma best_child_best:
  "distinct (map (startID \<circ> nspan) cs) \<Longrightarrow> c \<in> set cs \<Longrightarrow> c = cs ! best_child cs \<or> better (cs ! best_child cs) c"
proof (induction cs arbitrary: c rule: best_child.induct)
  case (3 a b cs)
  define m where "m = (b # cs) ! best_child (b # cs)"
  have m: "m \<in> set (b # cs)" unfolding m_def by (rule nth_mem) (rule best_child_less, simp)
  have IH: "c = m \<or> better m c" if "c \<in> set (b # cs)" for c
    using 3(1)[of c] 3(2) that unfolding m_def by auto
  have "startID (nspan a) \<noteq> startID (nspan m)" using 3(2) m by auto
  then have am: "better a m \<or> better m a" by (rule better_total)
  have eq: "(a # b # cs) ! best_child (a # b # cs) = (if better m a then m else a)"
    by (simp add: m_def Let_def)
  show ?case
    unfolding eq using 3(3) am IH better_trans by (cases "c = a") auto
qed auto

text \<open>The margin of the best child over the others, ties broken by the id.\<close>

lemma best_margin_iff:
  assumes d: "distinct (map (startID \<circ> nspan) cs)" and pos: "\<And>c. c \<in> set cs \<Longrightarrow> nbranch c > 0"
    and bm: "best_margin cs = (i, margin)" and ne: "cs \<noteq> []"
  shows "i < length cs"
    and "\<And>c. c \<in> set cs \<Longrightarrow> c = cs ! i \<or> better (cs ! i) c"
    and "u < margin \<longleftrightarrow> u < nbranch (cs ! i) \<and> (\<forall>c \<in> set cs. c \<noteq> cs ! i \<longrightarrow>
        nbranch c + u < nbranch (cs ! i)
        \<or> nbranch c + u = nbranch (cs ! i) \<and> startID (nspan c) < startID (nspan (cs ! i)))"
    and "margin > 0"
proof -
  have i: "i = best_child cs" using bm by (auto simp: best_margin_def Let_def split: if_splits)
  show less: "i < length cs" unfolding i by (rule best_child_less[OF ne])
  let ?b = "cs ! i"
  show best: "c = ?b \<or> better ?b c" if "c \<in> set cs" for c using best_child_best[OF d that] i by simp
  have mem: "?b \<in> set cs" using less by simp
  show "u < margin \<longleftrightarrow> u < nbranch ?b \<and> (\<forall>c \<in> set cs. c \<noteq> ?b \<longrightarrow>
        nbranch c + u < nbranch ?b \<or> nbranch c + u = nbranch ?b \<and> startID (nspan c) < startID (nspan ?b))"
    and "margin > 0"
  proof (atomize (full), cases "length cs = 1")
    case True
    then have "cs = [?b]" using less by (cases cs) auto
    then have "\<forall>c \<in> set cs. c = ?b" by (metis empty_iff empty_set set_ConsD)
    then show "(u < margin \<longleftrightarrow> u < nbranch ?b \<and> (\<forall>c \<in> set cs. c \<noteq> ?b \<longrightarrow>
        nbranch c + u < nbranch ?b \<or> nbranch c + u = nbranch ?b \<and> startID (nspan c) < startID (nspan ?b)))
        \<and> margin > 0"
      using bm True pos[OF mem] i by (auto simp: best_margin_def Let_def)
  next
    case False
    define rest where "rest = take i cs @ drop (Suc i) cs"
    define s where "s = rest ! best_child rest"
    have cs: "cs = take i cs @ ?b # drop (Suc i) cs" using less by (rule id_take_nth_drop)
    have d': "distinct (map (startID \<circ> nspan) rest)" "\<forall>c \<in> set rest. startID (nspan c) \<noteq> startID (nspan ?b)"
    proof -
      have "distinct (map (startID \<circ> nspan) (take i cs @ ?b # drop (Suc i) cs))"
        using d by (simp only: cs[symmetric])
      then show "distinct (map (startID \<circ> nspan) rest)" "\<forall>c \<in> set rest. startID (nspan c) \<noteq> startID (nspan ?b)"
        by (auto simp: rest_def image_iff)
    qed
    have set: "set cs = insert ?b (set rest)" unfolding rest_def by (subst cs) auto
    have "rest \<noteq> []" using False less by (auto simp: rest_def)
    then have s: "s \<in> set rest" unfolding s_def by (intro nth_mem best_child_less)
    have s_best: "c = s \<or> better s c" if "c \<in> set rest" for c using best_child_best[OF d'(1) that] by (simp add: s_def)
    have bs: "better ?b s" using best[of s] s set d'(2) by auto
    have m: "margin = nbranch ?b - nbranch s + (if startID (nspan ?b) > startID (nspan s) then 1 else 0)"
      using bm False i by (simp add: best_margin_def Let_def rest_def s_def)
    have pos_s: "nbranch s > 0" using pos s set by auto
    have all: "(\<forall>c \<in> set cs. c \<noteq> ?b \<longrightarrow> nbranch c + u < nbranch ?b
          \<or> nbranch c + u = nbranch ?b \<and> startID (nspan c) < startID (nspan ?b))
        \<longleftrightarrow> nbranch s + u < nbranch ?b \<or> nbranch s + u = nbranch ?b \<and> startID (nspan s) < startID (nspan ?b)"
    proof
      assume r: "nbranch s + u < nbranch ?b \<or> nbranch s + u = nbranch ?b \<and> startID (nspan s) < startID (nspan ?b)"
      show "\<forall>c \<in> set cs. c \<noteq> ?b \<longrightarrow> nbranch c + u < nbranch ?b
          \<or> nbranch c + u = nbranch ?b \<and> startID (nspan c) < startID (nspan ?b)"
      proof (intro ballI impI)
        fix c assume "c \<in> set cs" "c \<noteq> ?b"
        then have "c = s \<or> better s c" using s_best set by auto
        then show "nbranch c + u < nbranch ?b \<or> nbranch c + u = nbranch ?b \<and> startID (nspan c) < startID (nspan ?b)"
          using r by (auto simp: better_def)
      qed
    qed (use s set d'(2) in auto)
    show "(u < margin \<longleftrightarrow> u < nbranch ?b \<and> (\<forall>c \<in> set cs. c \<noteq> ?b \<longrightarrow>
        nbranch c + u < nbranch ?b \<or> nbranch c + u = nbranch ?b \<and> startID (nspan c) < startID (nspan ?b)))
        \<and> margin > 0"
      unfolding all m using bs pos_s by (auto simp: better_def)
  qed
qed

lemma branch_pos: "node_ok n \<Longrightarrow> compact n \<Longrightarrow> nbranch n > 0"
proof (induction n)
  case (TrieNode sp t b cs)
  note D = node_okD[OF TrieNode.prems(1)]
  show ?case
  proof (cases "t > 0")
    case False
    then obtain c where c: "c \<in> set cs" using TrieNode.prems(2) by (cases cs) (auto simp: compact_def)
    then have "nbranch c > 0" using TrieNode.IH D(4,6) by blast
    then show ?thesis using D(2) c member_le_sum_list[of "nbranch c" "map nbranch cs"] by auto
  qed (use D(2) in auto)
qed

lemma supp_children:
  assumes "holds T (TrieNode sp t b cs)"
  obtains (child) c where "c \<in> set cs" "y = startID (nspan c)" "supp T (spath sp @ [y]) = nbranch c"
    | (none) "supp T (spath sp @ [y]) = 0" "y \<notin> (startID \<circ> nspan) ` set cs"
proof (cases "\<exists>i < length cs. startID (nspan (cs ! i)) = y")
  case True
  then show ?thesis using holds_child(2)[OF assms] that(1) by force
next
  case False
  then have "y \<notin> (startID \<circ> nspan) ` set cs" by (auto simp: in_set_conv_nth)
  then show ?thesis using supp_no_child[OF assms, of y] that(2) False by blast
qed

lemma best_child_dominates:
  assumes h: "holds T (TrieNode sp t b cs)" and ne: "cs \<noteq> []" and bm: "best_margin cs = (i, margin)"
    and u_def: "u = uncommitted T L (send sp)"
  shows "margin > u \<or> u = 0 \<Longrightarrow> dominates T L (spath sp) (startID (nspan (cs ! i)))"
    and "\<not> (margin > u \<or> u = 0) \<Longrightarrow> \<not> dominates T L (spath sp) x"
proof -
  have ok: "node_ok (TrieNode sp t b cs)" using h by (simp add: holds_def)
  note D = node_okD[OF ok]
  have len: "length (spath sp) = send sp" using D(1) by simp
  have pos: "nbranch c > 0" if "c \<in> set cs" for c using branch_pos D(4,6) that by blast
  note BM = best_margin_iff[OF D(3) pos bm ne]
  let ?b = "cs ! i"
  have b: "?b \<in> set cs" "supp T (spath sp @ [startID (nspan ?b)]) = nbranch ?b"
    using BM(1) holds_child(2)[OF h] by auto
  have inj: "c = c'" if "c \<in> set cs" "c' \<in> set cs" "startID (nspan c) = startID (nspan c')" for c c'
    using D(3) that by (auto simp: distinct_map inj_on_def)
  show "dominates T L (spath sp) (startID (nspan ?b))" if "margin > u \<or> u = 0"
    unfolding dominates_def len u_def[symmetric] b(2)
  proof (intro allI impI)
    fix y assume y: "y \<noteq> startID (nspan ?b)"
    have u: "u < margin" using that BM(4) by auto
    show "supp T (spath sp @ [y]) + u < nbranch ?b \<or> supp T (spath sp @ [y]) + u = nbranch ?b \<and> y < startID (nspan ?b)"
      using supp_children[OF h, of y] u BM(3)[of u] y by (metis add_0)
  qed
  assume no: "\<not> (margin > u \<or> u = 0)"
  show "\<not> dominates T L (spath sp) x"
  proof
    assume dom: "dominates T L (spath sp) x"
    have dom': "supp T (spath sp @ [y]) + u < supp T (spath sp @ [x])
        \<or> supp T (spath sp @ [y]) + u = supp T (spath sp @ [x]) \<and> y < x" if "y \<noteq> x" for y
      using dom that unfolding dominates_def len u_def by blast
    show False
    proof (cases "x = startID (nspan ?b)")
      case True
      have "nbranch c + u < nbranch ?b \<or> nbranch c + u = nbranch ?b \<and> startID (nspan c) < startID (nspan ?b)"
        if "c \<in> set cs" "c \<noteq> ?b" for c
        using dom'[of "startID (nspan c)"] True inj[OF that(1) b(1)] that b(2) holds_child(2)[OF h]
        by (metis in_set_conv_nth)
      moreover define y where "y = Suc (x + sum_list (map (startID \<circ> nspan) cs))"
      have "startID (nspan c) < y" if "c \<in> set cs" for c
        using member_le_sum_list[of "startID (nspan c)" "map (startID \<circ> nspan) cs"] that by (auto simp: y_def)
      then have "supp T (spath sp @ [y]) = 0" using supp_no_child[OF h, of y] by (metis less_irrefl nth_mem)
      then have "u < nbranch ?b" using dom'[of y] True b(2) by (auto simp: y_def)
      ultimately show False using BM(3)[of u] no by blast
    next
      case False
      have "supp T (spath sp @ [x]) \<le> nbranch ?b"
      proof (rule supp_children[OF h, of x])
        fix c assume "c \<in> set cs" "supp T (spath sp @ [x]) = nbranch c"
        then show ?thesis using BM(2)[of c] by (auto simp: better_def)
      qed simp
      then show False using dom'[of "startID (nspan ?b)"] False b no by auto
    qed
  qed
qed

section \<open>The walk\<close>

text \<open>Domination along a span, where no other ledger has support.\<close>

lemma span_dominates:
  assumes "holds T n" "sstart (nspan n) < k" "k < send (nspan n)"
  shows "uncommitted T L k < nbranch n \<Longrightarrow> dominates T L (take k (sledger (nspan n))) (sledger (nspan n) ! k)"
    and "nbranch n \<le> uncommitted T L k \<Longrightarrow> nbranch n > 0 \<Longrightarrow> \<not> dominates T L (take k (sledger (nspan n))) x"
proof -
  let ?l = "sledger (nspan n)"
  have "span_ok (nspan n)" using assms(1) node_ok_span by (auto simp: holds_def)
  then have len: "length (take k ?l) = k" using assms(3) by (simp add: span_ok_def)
  note S = supp_span(2)[OF assms(1,2) _ assms(3)]
  show "dominates T L (take k ?l) (?l ! k)" if "uncommitted T L k < nbranch n"
    unfolding dominates_def len using S assms(3) that by simp
  show "\<not> dominates T L (take k ?l) x" if u: "nbranch n \<le> uncommitted T L k" and p: "nbranch n > 0"
  proof
    assume "dominates T L (take k ?l) x"
    then have "supp T (take k ?l @ [Suc x]) + uncommitted T L k < supp T (take k ?l @ [x])"
      unfolding dominates_def len by (metis lessI less_asym n_not_Suc_n)
    then show False using S assms(3) u p by (auto split: if_splits)
  qed
qed

lemma last_take_nth: "0 < m \<Longrightarrow> m \<le> length l \<Longrightarrow> last (take m l) = l ! (m - 1)"
  by (cases m) (simp_all add: take_Suc_conv_app_nth)

lemma preferred_from_ok:
  assumes T: "trie_ok T" and h: "holds T n" "nbranch n > 0"
    and c: "cursor (seqSupport T) (max (Suc (sstart (nspan n))) L) u ss"
  shows "\<exists>t. preferred_from L n u ss = Some t
    \<and> prefix (take (Suc (sstart (nspan n))) (sledger (nspan n))) (tip_chain t)
    \<and> (\<forall>j. Suc (sstart (nspan n)) \<le> j \<and> j < length (tip_chain t) \<longrightarrow>
         dominates T L (take j (tip_chain t)) (tip_chain t ! j))
    \<and> (\<forall>x. \<not> dominates T L (tip_chain t) x) \<and> tipID t = last (tip_chain t)"
  using h c
proof (induction L n u ss rule: preferred_from.induct)
  case (1 L sp t b cs u ss)
  let ?n = "TrieNode sp t b cs" and ?S = "seqSupport T"
  have ok: "node_ok ?n" "span_ok sp" using 1(2) node_ok_span[of ?n] by (auto simp: holds_def)
  have S: "ss_sorted ?S" using T by (simp add: trie_ok_def)
  obtain u1 ss1 where u1: "add_uncommitted (max (sstart sp + 1) L) u ss = (u1, ss1)" by fastforce
  have set1: "settled ?S (max (sstart sp + 1) L) u1 ss1" using add_uncommitted_settled[OF S _ u1] 1(4) by simp
  obtain k u2 ss2 where adv: "advance (send sp) b (sstart sp + 1) u1 ss1 = (k, u2, ss2)"
    by (cases "advance (send sp) b (sstart sp + 1) u1 ss1") auto
  have "sstart sp + 1 \<le> send sp" using ok(2) by (simp add: span_ok_def)
  note A = advance_ok[OF S set1 this adv]
  have k: "sstart sp < k" "k \<le> send sp" "k < send sp \<Longrightarrow> b \<le> uncommitted T L k"
    "\<And>j. Suc (sstart sp) \<le> j \<Longrightarrow> j < k \<Longrightarrow> uncommitted T L j < b"
    "settled ?S (max k L) u2 ss2"
    using A below_uncommitted[OF T] by auto
  have u2: "u2 = uncommitted T L k" using settled_below[OF k(5)] below_uncommitted[OF T] by simp
  have dom: "dominates T L (take j (sledger sp)) (sledger sp ! j)" if "Suc (sstart sp) \<le> j" "j < k" for j
    using span_dominates(1)[OF 1(2), of j L] that k(2,4) by simp
  have chain: "tip_chain (tip \<lparr>sstart = sstart sp, send = m, sledger = sledger sp\<rparr>) = take m (sledger sp)"
    "tipID (tip \<lparr>sstart = sstart sp, send = m, sledger = sledger sp\<rparr>) = last (take m (sledger sp))"
    if "sstart sp < m" "m \<le> send sp" for m
    using that ok(2) last_take_nth[of m "sledger sp"] by (auto simp: tip_chain_def tip_def span_ok_def)
  have sp_eq: "sp = \<lparr>sstart = sstart sp, send = send sp, sledger = sledger sp\<rparr>" by simp
  have stop: "\<exists>t. Some (tip \<lparr>sstart = sstart sp, send = k, sledger = sledger sp\<rparr>) = Some t
      \<and> prefix (take (Suc (sstart sp)) (sledger sp)) (tip_chain t)
      \<and> (\<forall>j. Suc (sstart sp) \<le> j \<and> j < length (tip_chain t) \<longrightarrow>
           dominates T L (take j (tip_chain t)) (tip_chain t ! j))
      \<and> (\<forall>x. \<not> dominates T L (tip_chain t) x) \<and> tipID t = last (tip_chain t)"
    if "\<And>x. \<not> dominates T L (take k (sledger sp)) x"
    using chain[OF k(1,2)] that dom k(1,2) ok(2) prefix_take_mono[of "Suc (sstart sp)" k "sledger sp"]
    by (auto simp: span_ok_def min_def)
  consider (inside) "k < send sp" | (leaf) "k = send sp" "cs = []" | (branch) "k = send sp" "cs \<noteq> []"
    using k(2) by fastforce
  then show ?case
  proof cases
    case inside
    then have "before_span sp k = Some \<lparr>sstart = sstart sp, send = k, sledger = sledger sp\<rparr>"
      using before_span_eq[OF ok(2) k(1,2)] by simp
    then have "preferred_from L ?n u ss = Some (tip \<lparr>sstart = sstart sp, send = k, sledger = sledger sp\<rparr>)"
      using inside u1 adv by (simp add: Let_def)
    then show ?thesis
      using stop span_dominates(2)[OF 1(2), of k L] k(1,3) inside 1(3) by simp
  next
    case leaf
    then have "supp T (take k (sledger sp) @ [x]) = 0" for x
      using supp_no_child[OF 1(2), of x] by (simp add: spath_def)
    then have "\<not> dominates T L (take k (sledger sp)) x" for x
      unfolding dominates_def by (metis add_0 less_asym lessI n_not_Suc_n not_less_zero)
    moreover have "preferred_from L ?n u ss = Some (tip sp)" using leaf u1 adv by (simp add: Let_def)
    ultimately show ?thesis using stop sp_eq leaf(1) by simp
  next
    case branch
    obtain i margin where bm: "best_margin cs = (i, margin)" by (cases "best_margin cs")
    note BD = best_child_dominates[OF 1(2) branch(2) bm u2[unfolded branch(1)]]
    show ?thesis
    proof (cases "margin > u2 \<or> u2 = 0")
      case False
      have "preferred_from L ?n u ss = Some (tip sp)" using False branch u1 adv bm by (simp add: Let_def)
      moreover have "\<not> dominates T L (take k (sledger sp)) x" for x
        using BD(2)[OF False] branch(1) by (simp add: spath_def)
      ultimately show ?thesis using stop sp_eq branch(1) by simp
    next
      case True
      let ?c = "cs ! i"
      note D = node_okD[OF ok(1)]
      have i: "i < length cs" and ci: "?c \<in> set cs"
        using best_child_less[OF branch(2)] bm by (auto simp: best_margin_def Let_def split: if_splits)
      have cont: "sstart (nspan ?c) = send sp" using D(5)[OF ci] by (simp add: continues_def)
      have cur: "cursor ?S (max (Suc (sstart (nspan ?c))) L) u2 ss2"
        using k(5) cont branch(1) cursor_mono[of ?S "max k L" u2 ss2 "max (Suc k) L"] by (auto simp: settled_def)
      have "\<not> k < send sp" using branch(1) by simp
      from 1(1)[OF refl refl u1[symmetric] refl adv[symmetric] refl this branch(2) refl bm[symmetric] True
          holds_child(1)[OF 1(2) i] branch_pos[OF D(4,6)[OF ci]] cur]
      obtain r where r: "preferred_from L ?c u2 ss2 = Some r"
          "prefix (spath sp @ [startID (nspan ?c)]) (tip_chain r)"
          "\<And>j. Suc k \<le> j \<Longrightarrow> j < length (tip_chain r) \<Longrightarrow> dominates T L (take j (tip_chain r)) (tip_chain r ! j)"
          "\<And>x. \<not> dominates T L (tip_chain r) x" "tipID r = last (tip_chain r)"
        unfolding cont holds_child(3)[OF 1(2) i, unfolded cont] branch(1) by blast
      obtain z where z: "tip_chain r = spath sp @ startID (nspan ?c) # z" using r(2) by (auto simp: prefix_def)
      have len: "length (spath sp) = k" using branch(1) ok(2) by simp
      have "dominates T L (take j (tip_chain r)) (tip_chain r ! j)"
        if "Suc (sstart sp) \<le> j" "j < length (tip_chain r)" for j
      proof (cases "j < k")
        case True
        then have "take j (tip_chain r) = take j (sledger sp)" "tip_chain r ! j = sledger sp ! j"
          using len unfolding z spath_def branch(1)[symmetric] by (simp_all add: nth_append min_def)
        then show ?thesis using dom[OF that(1) True] by simp
      next
        case False
        then show ?thesis
          using r(3)[of j] that BD(1)[OF True] len unfolding z by (cases "j = k") (simp_all add: nth_append)
      qed
      moreover have "preferred_from L ?n u ss = Some r" using True branch u1 adv bm r(1) by (simp add: Let_def)
      moreover have "prefix (take (Suc (sstart sp)) (sledger sp)) (tip_chain r)"
        using prefix_take_mono[of "Suc (sstart sp)" k "sledger sp"] k(1) unfolding z spath_def branch(1)[symmetric]
        by (simp add: prefix_order.trans)
      ultimately show ?thesis using r(4,5) by simp
    qed
  qed
qed

lemma getPreferred_ok:
  assumes T: "trie_ok T" and ne: "bag T \<noteq> {#}"
  shows "\<exists>t. getPreferred L T = Some t \<and> prefix [0] (tip_chain t)
    \<and> (\<forall>j. 1 \<le> j \<and> j < length (tip_chain t) \<longrightarrow> dominates T L (take j (tip_chain t)) (tip_chain t ! j))
    \<and> (\<forall>x. \<not> dominates T L (tip_chain t) x) \<and> tipID t = last (tip_chain t)"
proof -
  have ok: "node_ok (root T)" "nspan (root T) = genesisSpan" using T by (auto simp: trie_ok_def)
  have gen: "take (Suc (sstart genesisSpan)) (sledger genesisSpan) = [0]" "spath genesisSpan = [0]"
    by (simp_all add: genesisSpan_def spath_def)
  have "{#x \<in># bag T. prefix [0] x#} = bag T"
    using tips_prefix[OF ok(1)] ok(2) gen(2) by (intro filter_mset_all) (auto simp: bag_def)
  then have h: "holds T (root T)" using ok gen(1) by (simp add: holds_def bag_def)
  have pos: "nbranch (root T) > 0" using size_tips[OF ok(1)] ne by (metis bag_def gr0I size_eq_0_iff_empty)
  have "cursor (seqSupport T) (max (Suc (sstart (nspan (root T)))) L) 0 (seqSupport T)"
    by (auto simp: cursor_def intro: exI[of _ "[]"])
  from preferred_from_ok[OF T h pos this] show ?thesis
    using pos unfolding ok(2) gen(1) by (simp add: getPreferred_def trie_empty_def genesisSpan_def)
qed

section \<open>Properties of the trie\<close>

text \<open>Sequences of operations on a trie, and the same operations on a bag of ledgers.\<close>

datatype TrieOp = Insert LedgerHist nat | Remove LedgerHist nat

fun trie_op_ok :: "TrieOp \<Rightarrow> bool" where
  "trie_op_ok (Insert l n) \<longleftrightarrow> ledger_ok l \<and> 0 < n"
| "trie_op_ok (Remove l n) \<longleftrightarrow> ledger_ok l"

fun run_trie :: "TrieOp list \<Rightarrow> LedgerTrie \<Rightarrow> LedgerTrie option" where
  "run_trie [] T = Some T"
| "run_trie (Insert l n # ops) T = trie_insert l n T \<bind> run_trie ops"
| "run_trie (Remove l n # ops) T = trie_remove l n T \<bind> (\<lambda>(found, T). run_trie ops T)"

fun run_bag :: "TrieOp list \<Rightarrow> LedgerHist multiset \<Rightarrow> LedgerHist multiset" where
  "run_bag [] M = M"
| "run_bag (Insert l n # ops) M = run_bag ops (M + replicate_mset n l)"
| "run_bag (Remove l n # ops) M = run_bag ops (M - replicate_mset n l)"

lemma run_trie_ok:
  "trie_ok T \<Longrightarrow> list_all trie_op_ok ops \<Longrightarrow>
     \<exists>T'. run_trie ops T = Some T' \<and> trie_ok T' \<and> bag T' = run_bag ops (bag T)"
proof (induction ops arbitrary: T)
  case (Cons x ops)
  show ?case
  proof (cases x)
    case (Insert l n)
    then obtain T1 where "trie_insert l n T = Some T1" "trie_ok T1" "bag T1 = bag T + replicate_mset n l"
      using trie.ins_law[OF Cons.prems(1), of l n] Cons.prems(2) by auto
    then show ?thesis using Cons.IH[of T1] Cons.prems(2) Insert by simp
  next
    case (Remove l n)
    then obtain T1 where "trie_remove l n T = Some (l \<in># bag T, T1)" "trie_ok T1" "bag T1 = bag T - replicate_mset n l"
      using trie.rem_law[OF Cons.prems(1), of l n] Cons.prems(2) by auto
    then show ?thesis using Cons.IH[of T1] Cons.prems(2) Remove by simp
  qed
qed simp

text \<open>
  C12. The compressed trie is a bag of ledgers. After any sequence of insertions and removals, none of
  which fails an assertion, the trie passes \<^verbatim>\<open>checkInvariants\<close>, \<^verbatim>\<open>tipSupport\<close> is the
  number of entries for exactly the given ledger and \<^verbatim>\<open>branchSupport\<close> the number of entries
  for it or a descendant.
\<close>

theorem trie_refines_bag:
  assumes "list_all trie_op_ok ops"
  shows "\<exists>T. run_trie ops emptyTrie = Some T \<and> checkInvariants T
    \<and> (\<forall>l. ledger_ok l \<longrightarrow> tipSupport T l = count (run_bag ops {#}) l
         \<and> branchSupport T l = size {#x \<in># run_bag ops {#}. prefix l x#})"
proof -
  obtain T where "run_trie ops emptyTrie = Some T" "trie_ok T" "bag T = run_bag ops {#}"
    using run_trie_ok[OF emptyTrie_ok(1) assms] emptyTrie_ok(2) by auto
  then show ?thesis
    using checkInvariants_ok trie.tip_law trie.branch_law by metis
qed

definition example_ops :: "TrieOp list" where
  "example_ops = [Insert [0, 1, 2, 3] 2, Insert [0, 1, 4] 3, Insert [0, 1, 2, 5] 1, Remove [0, 1, 4] 1]"

theorem trie_refines_bag_witness:
  "\<exists>T. run_trie example_ops emptyTrie = Some T \<and> checkInvariants T
     \<and> tipSupport T [0, 1, 4] = 2 \<and> branchSupport T [0, 1, 2] = 3"
proof -
  have "list_all trie_op_ok example_ops" by (simp add: example_ops_def ledger_ok_def)
  from trie_refines_bag[OF this] obtain T where T: "run_trie example_ops emptyTrie = Some T" "checkInvariants T"
    "\<And>l. ledger_ok l \<Longrightarrow> tipSupport T l = count (run_bag example_ops {#}) l
         \<and> branchSupport T l = size {#x \<in># run_bag example_ops {#}. prefix l x#}" by blast
  have "tipSupport T [0, 1, 4] = 2" "branchSupport T [0, 1, 2] = 3"
    using T(3)[of "[0, 1, 4]"] T(3)[of "[0, 1, 2]"]
    by (simp_all add: ledger_ok_def example_ops_def numeral_eq_Suc prefix_def)
  then show ?thesis using T by blast
qed

text \<open>
  C11. \<^verbatim>\<open>getPreferred\<close> on a trie that tracks a ledger returns the ledger its documentation describes:
  starting at the genesis ledger, at every sequence number the preferred branch has more support
  than any other ledger of that sequence would have with all uncommitted support added, ties going to
  the larger id, and beyond the returned ledger no branch has. On an empty trie there is none.
\<close>

theorem getPreferred_documented:
  assumes "list_all trie_op_ok ops" "run_trie ops emptyTrie = Some T"
  shows "case getPreferred largest T of
      None \<Rightarrow> run_bag ops {#} = {#}
    | Some t \<Rightarrow> prefix [0] (tip_chain t) \<and> tipID t = last (tip_chain t)
        \<and> (\<forall>j. 1 \<le> j \<and> j < length (tip_chain t) \<longrightarrow>
              dominates T largest (take j (tip_chain t)) (tip_chain t ! j))
        \<and> (\<forall>x. \<not> dominates T largest (tip_chain t) x)"
proof -
  have T: "trie_ok T" "bag T = run_bag ops {#}"
    using run_trie_ok[OF emptyTrie_ok(1) assms(1)] assms(2) emptyTrie_ok(2) by auto
  show ?thesis
  proof (cases "bag T = {#}")
    case True
    then have "getPreferred largest T = None"
      using size_tips[of "root T"] T(1) by (simp add: getPreferred_def trie_empty_def trie_ok_def bag_def)
    then show ?thesis using True T(2) by simp
  next
    case False
    then show ?thesis using getPreferred_ok[OF T(1) False, of largest] by auto
  qed
qed

theorem getPreferred_documented_witness:
  "\<exists>T t. run_trie example_ops emptyTrie = Some T \<and> getPreferred 2 T = Some t \<and> tip_chain t = [0, 1, 2]
     \<and> (\<forall>x. \<not> dominates T 2 [0, 1, 2] x)"
proof -
  have ok: "list_all trie_op_ok example_ops" by (simp add: example_ops_def ledger_ok_def)
  have "map_option (\<lambda>T. map_option tip_chain (getPreferred 2 T)) (run_trie example_ops emptyTrie)
      = Some (Some [0, 1, 2])" by code_simp
  then obtain T t where T: "run_trie example_ops emptyTrie = Some T" "getPreferred 2 T = Some t" "tip_chain t = [0, 1, 2]"
    by auto
  then show ?thesis using getPreferred_documented[OF ok T(1), of 2] by auto
qed

end
