(* ===== verification/Decimal.thy ===== *)
theory Decimal
  imports Complex_Main Prelude_Ripple
begin

text \<open>
  Decimal floating point as the amount classes of the ledger use it: a magnitude and a decimal
  exponent.  The theory holds the two scaling loops that
  \<^verbatim>\<open>protocol/impl/IOUAmount.cpp\<close> (\<^verbatim>\<open>normalize\<close>) and
  \<^verbatim>\<open>protocol/impl/STAmount.cpp\<close> (\<^verbatim>\<open>canonicalize\<close>) both contain, the exact
  rational value of a pair, and a locale for a decimal format in which the result of the loops
  is characterised by that value alone.
\<close>

section \<open>Exact values\<close>

definition dec :: "int \<Rightarrow> int \<Rightarrow> rat" where
  "dec m e = of_int m * 10 powi e"

named_theorems dec_simps \<open>normal forms of decimal values\<close>

lemma dec_0 [simp]: "dec 0 e = 0"
  by (simp add: dec_def)

lemma dec_minus [simp]: "dec (- m) e = - dec m e"
  by (simp add: dec_def)

lemma dec_add: "dec (m + n) e = dec m e + dec n e"
  by (simp add: dec_def algebra_simps)

lemma dec_diff: "dec (m - n) e = dec m e - dec n e"
  by (simp add: dec_def algebra_simps)

lemma dec_abs: "dec \<bar>m\<bar> e = \<bar>dec m e\<bar>"
  by (simp add: dec_def abs_mult power_int_abs)

lemma dec_less_iff [simp]: "dec m e < dec n e \<longleftrightarrow> m < n"
  by (simp add: dec_def)

lemma dec_le_iff [simp]: "dec m e \<le> dec n e \<longleftrightarrow> m \<le> n"
  by (simp add: dec_def)

lemma dec_eq_iff [simp]: "dec m e = dec n e \<longleftrightarrow> m = n"
  by (simp add: dec_def)

lemma dec_pos_iff [simp]: "0 < dec m e \<longleftrightarrow> 0 < m"
  using dec_less_iff[of 0 e m] by (simp del: dec_less_iff)

lemma dec_neg_iff [simp]: "dec m e < 0 \<longleftrightarrow> m < 0"
  using dec_less_iff[of m e 0] by (simp del: dec_less_iff)

lemma dec_nonneg_iff [simp]: "0 \<le> dec m e \<longleftrightarrow> 0 \<le> m"
  using dec_le_iff[of 0 e m] by (simp del: dec_le_iff)

lemma dec_nonpos_iff [simp]: "dec m e \<le> 0 \<longleftrightarrow> m \<le> 0"
  using dec_le_iff[of m e 0] by (simp del: dec_le_iff)

lemma dec_zero_iff [simp]: "dec m e = 0 \<longleftrightarrow> m = 0"
  by (simp add: dec_def)

lemma dec_shift: "dec (m * 10 ^ k) e = dec m (e + int k)"
  by (simp add: dec_def power_int_add)

lemma dec_ten: "dec (10 * m) e = dec m (e + 1)"
  using dec_shift[of m 1 e] by (simp add: mult.commute)

lemma dec_mono_exp: "0 \<le> m \<Longrightarrow> e \<le> f \<Longrightarrow> dec m e \<le> dec m f"
  by (simp add: dec_def mult_left_mono power_int_increasing)

lemma dec_align:
  assumes "e \<le> f"
  shows "dec m f = dec (m * 10 ^ nat (f - e)) e"
  using assms by (simp add: dec_shift)

section \<open>The scaling loops\<close>

text \<open>
  The first loop multiplies the magnitude by ten until it has enough digits or the exponent is
  at its minimum; the second drops digits until the magnitude fits, and gives up
  (\<^const>\<open>None\<close>: the source throws) when the exponent is already at its maximum.
\<close>

function scale_up :: "nat \<Rightarrow> int \<Rightarrow> nat \<Rightarrow> int \<Rightarrow> nat \<times> int" where
  "scale_up lo emin a e = (if a < lo \<and> emin < e then scale_up lo emin (a * 10) (e - 1) else (a, e))"
  by pat_completeness auto
termination by (relation "measure (\<lambda>(lo, emin, a, e). nat (e - emin))") auto

function scale_down :: "nat \<Rightarrow> int \<Rightarrow> nat \<Rightarrow> int \<Rightarrow> (nat \<times> int) option" where
  "scale_down hi emax a e =
     (if hi < a then (if emax \<le> e then None else scale_down hi emax (a div 10) (e + 1))
      else Some (a, e))"
  by pat_completeness auto
termination by (relation "measure (\<lambda>(hi, emax, a, e). a)") auto

declare scale_up.simps [simp del] scale_down.simps [simp del]

lemma scale_up_stop: "\<not> (a < lo \<and> emin < e) \<Longrightarrow> scale_up lo emin a e = (a, e)"
  by (simp add: scale_up.simps)

lemma scale_down_stop: "a \<le> hi \<Longrightarrow> scale_down hi emax a e = Some (a, e)"
  by (simp add: scale_down.simps)

lemma scale_up_exact:
  assumes "scale_up lo emin a e = (b, f)"
  shows "dec (int b) f = dec (int a) e \<and> (b < lo \<longrightarrow> f \<le> emin) \<and> f \<le> e \<and>
         (a < lo \<longrightarrow> b < 10 * lo) \<and> (lo \<le> a \<longrightarrow> b = a) \<and> (0 < a \<longrightarrow> 0 < b)"
  using assms
proof (induction lo emin a e rule: scale_up.induct)
  case (1 lo emin a e)
  show ?case
  proof (cases "a < lo \<and> emin < e")
    case True
    then have "scale_up lo emin (a * 10) (e - 1) = (b, f)"
      using "1.prems" by (simp add: scale_up.simps[of lo emin a e])
    moreover have "dec (int (a * 10)) (e - 1) = dec (int a) e"
      using dec_ten[of "int a" "e - 1"] by (simp add: mult.commute)
    ultimately show ?thesis using "1.IH"[OF True] True by (cases "a * 10 < lo") auto
  next
    case False
    then show ?thesis using "1.prems" by (auto simp: scale_up_stop)
  qed
qed

lemma dec_div_ten: "dec (int (a div 10)) (e + 1) \<le> dec (int a) e"
  unfolding dec_ten[symmetric] by simp

lemma dec_div_ten_upper: "dec (int a) e < dec (int (a div 10) + 1) (e + 1)"
  unfolding dec_ten[symmetric] by simp

lemma scale_down_floor:
  assumes "scale_down hi emax a e = Some (b, f)"
  shows "b \<le> hi \<and> e \<le> f \<and> dec (int b) f \<le> dec (int a) e \<and> dec (int a) e < dec (int b + 1) f \<and>
         (hi < a \<longrightarrow> hi < 10 * b + 9 \<and> f \<le> emax) \<and> (a \<le> hi \<longrightarrow> b = a \<and> f = e)"
  using assms
proof (induction hi emax a e rule: scale_down.induct)
  case (1 hi emax a e)
  show ?case
  proof (cases "hi < a")
    case True
    then have e: "\<not> emax \<le> e" and s: "scale_down hi emax (a div 10) (e + 1) = Some (b, f)"
      using "1.prems" by (auto simp: scale_down.simps[of hi emax a e] split: if_splits)
    note IH = "1.IH"[OF True e s]
    have "\<exists>q. 10 * q \<le> a \<and> a < 10 * q + 10 \<and> q = a div 10" by auto
    moreover have "dec (int a) e < dec (int b + 1) f"
    proof -
      have "dec (int (a div 10)) (e + 1) < dec (int b + 1) f" using IH by simp
      moreover have "dec (int b + 1) f = dec ((int b + 1) * 10 ^ nat (f - (e + 1))) (e + 1)"
        using IH by (intro dec_align) simp
      ultimately have "int (a div 10) + 1 \<le> (int b + 1) * 10 ^ nat (f - (e + 1))" by simp
      then have "dec (int (a div 10) + 1) (e + 1) \<le> dec (int b + 1) f"
        by (simp add: \<open>dec (int b + 1) f = _\<close>)
      then show ?thesis using dec_div_ten_upper[of a e] by (rule order.strict_trans2[rotated])
    qed
    ultimately show ?thesis using IH True e dec_div_ten[of a e]
      by (cases "hi < a div 10") auto
  next
    case False
    then show ?thesis using "1.prems" by (auto simp: scale_down_stop)
  qed
qed

lemma scale_down_None:
  assumes "scale_down hi emax a e = None"
  shows "dec (int hi + 1) emax \<le> dec (int a) e"
  using assms
proof (induction hi emax a e rule: scale_down.induct)
  case (1 hi emax a e)
  have a: "hi < a" using "1.prems" by (auto simp: scale_down.simps[of hi emax a e] split: if_splits)
  show ?case
  proof (cases "emax \<le> e")
    case True
    have "dec (int hi + 1) emax \<le> dec (int hi + 1) e" using True by (simp add: dec_mono_exp)
    also have "\<dots> \<le> dec (int a) e" using a by simp
    finally show ?thesis .
  next
    case False
    then have "scale_down hi emax (a div 10) (e + 1) = None"
      using "1.prems" a by (simp add: scale_down.simps[of hi emax a e])
    then show ?thesis using "1.IH"[OF a False] dec_div_ten[of a e] by linarith
  qed
qed

section \<open>A decimal format\<close>

text \<open>
  A format has magnitudes of a fixed number of digits, \<open>lo \<dots> 10 * lo - 1\<close>, and a range of
  exponents.  Its laws are what both amount classes rely on: which values overflow, which
  round to zero, and that the digits kept are those of the exact value.
\<close>

locale decimal_format =
  fixes lo hi :: nat and emin emax :: int
  assumes lo_pos: "0 < lo" and digits: "hi + 1 = 10 * lo" and range: "emin \<le> emax"
begin

definition fits :: "nat \<Rightarrow> int \<Rightarrow> bool" where
  "fits a e \<longleftrightarrow> lo \<le> a \<and> a \<le> hi \<and> emin \<le> e \<and> e \<le> emax"

lemma below_next_exp:
  assumes "a \<le> hi" "lo \<le> b" "e < f"
  shows "dec (int a + 1) e \<le> dec (int b) f"
proof -
  have "int a + 1 \<le> 10 * int lo" using assms digits by linarith
  then have "dec (int a + 1) e \<le> dec (10 * int lo) e" by simp
  also have "\<dots> = dec (int lo) (e + 1)" by (rule dec_ten)
  also have "\<dots> \<le> dec (int lo) f" using assms by (intro dec_mono_exp) auto
  also have "\<dots> \<le> dec (int b) f" using assms by simp
  finally show ?thesis .
qed

lemma fits_unique:
  assumes "fits a e" "fits b f"
    and "dec (int a) e \<le> x" "x < dec (int a + 1) e" "dec (int b) f \<le> x" "x < dec (int b + 1) f"
  shows "a = b \<and> e = f"
proof (cases e f rule: linorder_cases)
  case less
  then have "dec (int a + 1) e \<le> dec (int b) f" using assms(1,2)
    by (intro below_next_exp) (auto simp: fits_def)
  then show ?thesis using assms(4,5) by linarith
next
  case greater
  then have "dec (int b + 1) f \<le> dec (int a) e" using assms(1,2)
    by (intro below_next_exp) (auto simp: fits_def)
  then show ?thesis using assms(3,6) by linarith
next
  case equal
  then have "dec (int a) e < dec (int b + 1) e" "dec (int b) e < dec (int a + 1) e"
    using assms(3-6) by (auto simp del: dec_less_iff)
  then have "a < b + 1" "b < a + 1" by (simp_all only: dec_less_iff)
  then show ?thesis using equal by simp
qed

lemma fits_less_iff:
  assumes "fits a e" "fits b f"
  shows "dec (int a) e < dec (int b) f \<longleftrightarrow> e < f \<or> e = f \<and> a < b"
proof (cases e f rule: linorder_cases)
  case less
  have "dec (int a) e < dec (int a + 1) e" by simp
  also have "\<dots> \<le> dec (int b) f" using less assms
    by (intro below_next_exp) (auto simp: fits_def)
  finally show ?thesis using less by simp
next
  case greater
  have "dec (int b) f \<le> dec (int b + 1) f" by simp
  also have "\<dots> \<le> dec (int a) e" using greater assms
    by (intro below_next_exp) (auto simp: fits_def)
  finally show ?thesis using greater by simp
qed simp

lemma fits_range:
  assumes "fits a e"
  shows "dec (int lo) emin \<le> dec (int a) e" "dec (int a + 1) e \<le> dec (10 * int lo) emax"
proof -
  have "dec (int lo) emin \<le> dec (int lo) e" using assms by (intro dec_mono_exp) (auto simp: fits_def)
  also have "\<dots> \<le> dec (int a) e" using assms by (simp add: fits_def)
  finally show "dec (int lo) emin \<le> dec (int a) e" .
  have "dec (int a + 1) e \<le> dec (10 * int lo) e" using assms digits by (simp add: fits_def)
  also have "\<dots> \<le> dec (10 * int lo) emax" using assms by (intro dec_mono_exp) (auto simp: fits_def)
  finally show "dec (int a + 1) e \<le> dec (10 * int lo) emax" .
qed

lemma scale_overflow:
  assumes "scale_up lo emin a e = (b, f)" "scale_down hi emax b f = None"
  shows "dec (10 * int lo) emax \<le> dec (int a) e"
proof -
  have h: "int hi + 1 = 10 * int lo" using digits by linarith
  show ?thesis
    using scale_down_None[OF assms(2)] scale_up_exact[OF assms(1)] by (simp add: h)
qed

lemma scale_big:
  assumes up: "scale_up lo emin a e = (b, f)" and down: "scale_down hi emax b f = Some (c, g)"
    and big: "emax < g" and nz: "emin \<le> g" "lo \<le> c"
  shows "dec (10 * int lo) emax \<le> dec (int a) e"
proof -
  have c: "c = b \<and> g = f" using scale_down_floor[OF down] big by (cases "hi < b") auto
  have "dec (10 * int lo) emax = dec (int lo) (emax + 1)" by (rule dec_ten)
  also have "\<dots> \<le> dec (int lo) g" using big by (intro dec_mono_exp) auto
  also have "\<dots> \<le> dec (int c) g" using nz by simp
  also have "\<dots> = dec (int a) e" using scale_up_exact[OF up] c by simp
  finally show ?thesis .
qed

lemma scale_small:
  assumes up: "scale_up lo emin a e = (b, f)" and down: "scale_down hi emax b f = Some (c, g)"
    and small: "g < emin \<or> c < lo"
  shows "dec (int a) e < dec (int lo) emin"
proof -
  have x: "dec (int a) e < dec (int c + 1) g" and c: "c \<le> hi"
    using scale_down_floor[OF down] scale_up_exact[OF up] by simp_all
  show ?thesis
  proof (cases "g < emin")
    case True
    then have "dec (int c + 1) g \<le> dec (int lo) emin" using c by (intro below_next_exp) auto
    then show ?thesis using x by simp
  next
    case False
    then have cl: "c < lo" using small by simp
    then have "b \<le> hi" using scale_down_floor[OF down] digits by (cases "hi < b") auto
    then have "g \<le> emin" using scale_down_floor[OF down] scale_up_exact[OF up] cl by auto
    have "dec (int c + 1) g \<le> dec (int lo) g" using cl by simp
    also have "\<dots> \<le> dec (int lo) emin" using \<open>g \<le> emin\<close> by (intro dec_mono_exp) auto
    finally show ?thesis using x by simp
  qed
qed

lemma scale_fits:
  assumes up: "scale_up lo emin a e = (b, f)" and down: "scale_down hi emax b f = Some (c, g)"
    and "emin \<le> g" "lo \<le> c" "g \<le> emax"
  shows "fits c g" "dec (int c) g \<le> dec (int a) e" "dec (int a) e < dec (int c + 1) g"
  using assms scale_down_floor[OF down] scale_up_exact[OF up] by (auto simp: fits_def)

lemma scale_id:
  assumes "fits a e"
  shows "scale_up lo emin a e = (a, e)" "scale_down hi emax a e = Some (a, e)"
  using assms by (auto simp: fits_def scale_up_stop scale_down_stop)

end

end
