(* ===== verification/IOUAmount_Correct.thy ===== *)
theory IOUAmount_Correct
  imports IOUAmount
begin

text \<open>
  Correctness of the issued-currency amounts against their exact rational values:
  normalisation truncates to sixteen digits, the comparison is the order of the values,
  addition is commutative and accurate to a few units in the last place, and
  \<^verbatim>\<open>mulRatio\<close> is accurate to one unit.
\<close>

section \<open>Normalisation\<close>

text \<open>
  The specification of normalisation in terms of the exact value \<open>x\<close>: overflow exactly for
  values of more than sixteen digits at the largest exponent, zero exactly for values below the
  smallest amount, and otherwise the sixteen leading digits.
\<close>

definition truncates_to :: "rat \<Rightarrow> amount_error + IOUAmount \<Rightarrow> bool" where
  "truncates_to x res \<longleftrightarrow>
     (case res of
        Inl _ \<Rightarrow> dec (10 * int minMantissa) maxExponent \<le> \<bar>x\<bar>
      | Inr r \<Rightarrow> iou_ok r \<and>
          (if r = iou_zero then \<bar>x\<bar> < dec (int minMantissa) minExponent
           else \<bar>iou_value r\<bar> \<le> \<bar>x\<bar> \<and> \<bar>x\<bar> < \<bar>iou_value r\<bar> + dec 1 (exponent r) \<and>
                (mantissa r < 0 \<longleftrightarrow> x < 0)))"

lemma iou_zero_simps [simp]:
  "mantissa iou_zero = 0" "exponent iou_zero = -100" "iou_value iou_zero = 0" "iou_ok iou_zero"
  by (simp_all add: iou_zero_def iou_value_def iou_ok_def)

lemma apply_sign_simps [simp]:
  "\<bar>apply_sign neg a\<bar> = int a" "apply_sign neg a = 0 \<longleftrightarrow> a = 0"
  "apply_sign neg a < 0 \<longleftrightarrow> neg \<and> 0 < a" "apply_sign neg 0 = 0"
  by (auto simp: apply_sign_def)

lemma iou_ok_fits:
  "iou_ok a \<longleftrightarrow> a = iou_zero \<or> iou.fits (nat \<bar>mantissa a\<bar>) (exponent a)"
  by (auto simp: iou_ok_def iou.fits_def)

lemma iou_fits_iff:
  "iou.fits a e \<longleftrightarrow> 1000000000000000 \<le> a \<and> a \<le> 9999999999999999 \<and> -96 \<le> e \<and> e \<le> 80"
  unfolding iou.fits_def unfolding iou_consts ..

lemma iou_ok_nz:
  assumes "iou_ok a" "mantissa a \<noteq> 0"
  shows "iou.fits (nat \<bar>mantissa a\<bar>) (exponent a)"
  using assms by (auto simp: iou_ok_fits)

lemma iou_ok_zero_iff: "iou_ok a \<Longrightarrow> mantissa a = 0 \<longleftrightarrow> a = iou_zero"
  by (auto simp: iou_ok_def iou_consts)

lemma abs_iou_value: "\<bar>iou_value a\<bar> = dec (int (nat \<bar>mantissa a\<bar>)) (exponent a)"
  by (simp add: iou_value_def dec_abs)

lemma iou_value_sign [simp]:
  "iou_value a < 0 \<longleftrightarrow> mantissa a < 0" "0 < iou_value a \<longleftrightarrow> 0 < mantissa a"
  "iou_value a = 0 \<longleftrightarrow> mantissa a = 0"
  by (simp_all add: iou_value_def)

lemma iou_normalize_truncates: "truncates_to (dec m e) (iou_normalize m e)"
proof (cases "m = 0")
  case True
  then show ?thesis by (simp add: truncates_to_def iou_normalize_def iou_consts)
next
  case False
  obtain a f where up: "scale_up minMantissa minExponent (nat \<bar>m\<bar>) e = (a, f)" by fastforce
  have x: "dec (int (nat \<bar>m\<bar>)) e = \<bar>dec m e\<bar>" by (simp add: dec_abs)
  show ?thesis
  proof (cases "scale_down maxMantissa maxExponent a f")
    case None
    then show ?thesis using False iou.scale_overflow[OF up None]
      by (simp add: truncates_to_def iou_normalize_def up dec_abs)
  next
    case (Some p)
    then obtain b g where down: "scale_down maxMantissa maxExponent a f = Some (b, g)"
      by (cases p) simp
    consider (small) "g < minExponent \<or> b < minMantissa"
      | (big) "minExponent \<le> g" "minMantissa \<le> b" "maxExponent < g"
      | (fits) "minExponent \<le> g" "minMantissa \<le> b" "g \<le> maxExponent" by linarith
    then show ?thesis
    proof cases
      case small
      then show ?thesis using False iou.scale_small[OF up down small]
        by (simp add: truncates_to_def iou_normalize_def up down dec_abs)
    next
      case big
      then show ?thesis using False iou.scale_big[OF up down] x
        by (auto simp: truncates_to_def iou_normalize_def up down)
    next
      case fits
      note F = iou.scale_fits[OF up down fits]
      have "b \<noteq> 0" using fits by (simp add: iou_consts)
      then show ?thesis using False fits F x
        by (auto simp: truncates_to_def iou_normalize_def up down iou_ok_fits abs_iou_value
            dec_add iou_zero_def apply_sign_def)
    qed
  qed
qed

lemma truncates_to_nz:
  assumes "truncates_to x (Inr r)" "r \<noteq> iou_zero"
  shows "iou.fits (nat \<bar>mantissa r\<bar>) (exponent r)" "dec (int minMantissa) minExponent \<le> \<bar>x\<bar>"
proof -
  show f: "iou.fits (nat \<bar>mantissa r\<bar>) (exponent r)"
    using assms by (simp add: truncates_to_def iou_ok_fits)
  have "dec (int (nat \<bar>mantissa r\<bar>)) (exponent r) \<le> \<bar>x\<bar>"
    using assms by (simp only: truncates_to_def abs_iou_value sum.case if_False)
  then show "dec (int minMantissa) minExponent \<le> \<bar>x\<bar>" using iou.fits_range(1)[OF f] by linarith
qed

lemma truncates_to_zero_iff:
  assumes "truncates_to x (Inr r)"
  shows "r = iou_zero \<longleftrightarrow> \<bar>x\<bar> < dec (int minMantissa) minExponent"
proof (cases "r = iou_zero")
  case True
  then show ?thesis using assms by (simp add: truncates_to_def)
next
  case False
  then show ?thesis using truncates_to_nz(2)[OF assms] by simp
qed

lemma truncates_to_unique:
  assumes "truncates_to x (Inr r)" "truncates_to x (Inr s)"
  shows "r = s"
proof (cases "r = iou_zero")
  case True
  then show ?thesis using truncates_to_zero_iff[OF assms(1)] truncates_to_zero_iff[OF assms(2)] by simp
next
  case False
  then have nz: "s \<noteq> iou_zero"
    using truncates_to_zero_iff[OF assms(1)] truncates_to_zero_iff[OF assms(2)] by simp
  have "nat \<bar>mantissa r\<bar> = nat \<bar>mantissa s\<bar> \<and> exponent r = exponent s"
    using assms False nz truncates_to_nz(1)[OF assms(1) False] truncates_to_nz(1)[OF assms(2) nz]
    by (intro iou.fits_unique[of _ _ _ _ "\<bar>x\<bar>"])
      (simp_all only: truncates_to_def abs_iou_value dec_add sum.case if_False)
  moreover have "mantissa r < 0 \<longleftrightarrow> mantissa s < 0"
    using assms False nz by (simp add: truncates_to_def)
  ultimately show ?thesis by (cases r; cases s) auto
qed

lemma truncates_to_exact:
  assumes "iou_ok r"
  shows "truncates_to (iou_value r) (Inr r)"
  using assms by (auto simp: truncates_to_def iou_consts)

lemma truncates_no_overflow:
  assumes "iou_ok r" "truncates_to (iou_value r) (Inl err)"
  shows False
proof -
  have "mantissa r \<noteq> 0"
    using assms(2) by (auto simp: truncates_to_def abs_iou_value iou_consts)
  then have "dec (int (nat \<bar>mantissa r\<bar>) + 1) (exponent r) \<le> dec (10 * int minMantissa) maxExponent"
    using iou_ok_nz[OF assms(1)] by (intro iou.fits_range(2)) auto
  moreover have "(0::rat) < dec 1 (exponent r)" by simp
  ultimately show False using assms(2)
    by (simp only: truncates_to_def abs_iou_value dec_add sum.case)
qed

text \<open>A value the format represents is normalised exactly, from whatever digits it is given.\<close>

lemma iou_normalize_exact:
  assumes "iou_ok r" "dec m e = iou_value r"
  shows "iou_normalize m e = Inr r"
proof (cases "iou_normalize m e")
  case (Inl err)
  then show ?thesis using truncates_no_overflow[OF assms(1)] iou_normalize_truncates[of m e] assms(2)
    by simp
next
  case (Inr s)
  then show ?thesis
    using truncates_to_unique[OF _ truncates_to_exact[OF assms(1)]] iou_normalize_truncates[of m e] assms(2)
    by simp
qed

lemma iou_normalize_ok: "iou_normalize m e = Inr r \<Longrightarrow> iou_ok r"
  using iou_normalize_truncates[of m e] by (simp add: truncates_to_def)

lemma iou_neg_ok:
  assumes "iou_ok a"
  shows "iou_neg a = Inr \<lparr>mantissa = - mantissa a, exponent = exponent a\<rparr>"
    and "iou_ok \<lparr>mantissa = - mantissa a, exponent = exponent a\<rparr>"
proof -
  show ok: "iou_ok \<lparr>mantissa = - mantissa a, exponent = exponent a\<rparr>"
    using assms by (auto simp: iou_ok_def iou_zero_def)
  show "iou_neg a = Inr \<lparr>mantissa = - mantissa a, exponent = exponent a\<rparr>"
    unfolding iou_neg_def by (rule iou_normalize_exact[OF ok]) (simp add: iou_value_def)
qed

section \<open>Comparison\<close>

lemma iou_value_signed:
  "mantissa a < 0 \<Longrightarrow> iou_value a = - dec (int (nat \<bar>mantissa a\<bar>)) (exponent a)"
  "0 \<le> mantissa a \<Longrightarrow> iou_value a = dec (int (nat \<bar>mantissa a\<bar>)) (exponent a)"
  by (simp_all add: iou_value_def)

lemma iou_less_same_sign:
  assumes "iou_ok a" "iou_ok b" "mantissa a \<noteq> 0" "mantissa b \<noteq> 0"
    and "mantissa a < 0 \<longleftrightarrow> mantissa b < 0"
  shows "iou_less a b \<longleftrightarrow> iou_value a < iou_value b"
proof -
  note fa = iou_ok_nz[OF assms(1,3)] and fb = iou_ok_nz[OF assms(2,4)]
  show ?thesis
  proof (cases "mantissa a < 0")
    case True
    have "iou_value a < iou_value b \<longleftrightarrow>
      exponent b < exponent a \<or> exponent b = exponent a \<and> nat \<bar>mantissa b\<bar> < nat \<bar>mantissa a\<bar>"
      using True assms(5)
      by (simp only: iou_value_signed neg_less_iff_less iou.fits_less_iff[OF fb fa])
    then show ?thesis using True assms(3-5) by (auto simp: iou_less_def)
  next
    case False
    then have "0 \<le> mantissa a" "0 \<le> mantissa b" using assms(5) by auto
    then have "iou_value a < iou_value b \<longleftrightarrow>
      exponent a < exponent b \<or> exponent a = exponent b \<and> nat \<bar>mantissa a\<bar> < nat \<bar>mantissa b\<bar>"
      by (simp only: iou_value_signed iou.fits_less_iff[OF fa fb])
    then show ?thesis using False assms(3-5) by (auto simp: iou_less_def)
  qed
qed

lemma iou_less_value_aux:
  assumes "iou_ok a" "iou_ok b"
  shows "iou_less a b \<longleftrightarrow> iou_value a < iou_value b"
proof (cases "mantissa a \<noteq> 0 \<and> mantissa b \<noteq> 0 \<and> (mantissa a < 0 \<longleftrightarrow> mantissa b < 0)")
  case True
  then show ?thesis using assms by (intro iou_less_same_sign) auto
next
  case False
  have neg: "\<And>x y::rat. x < 0 \<Longrightarrow> 0 \<le> y \<Longrightarrow> x < y" by linarith
  have nn: "\<And>c. 0 \<le> iou_value c \<longleftrightarrow> 0 \<le> mantissa c" by (simp add: iou_value_def)
  consider "mantissa a < 0" "0 \<le> mantissa b" | "0 \<le> mantissa a" "mantissa b < 0"
    | "mantissa a = 0" "0 \<le> mantissa b" | "0 \<le> mantissa a" "mantissa b = 0" using False by linarith
  then show ?thesis
  proof cases
    case 1
    then show ?thesis using neg[of "iou_value a" "iou_value b"] by (simp add: iou_less_def nn)
  next
    case 2
    then have "iou_value b < 0" "0 \<le> iou_value a" by (simp_all add: nn)
    then have "\<not> iou_value a < iou_value b" by linarith
    then show ?thesis using 2 by (simp add: iou_less_def)
  next
    case 3
    then have "iou_value a < iou_value b \<longleftrightarrow> 0 < iou_value b" by (simp add: iou_value_def)
    then show ?thesis using 3 by (simp add: iou_less_def)
  next
    case 4
    then have "\<not> iou_value a < iou_value b" by (simp add: iou_value_def)
    then show ?thesis using 4 by (simp add: iou_less_def)
  qed
qed

section \<open>Addition\<close>

lemma sdiv_ten: "\<bar>10 * (m sdiv 10) - m\<bar> \<le> (9::int)"
  unfolding signed_divide_int_def by (cases "0 \<le> m") (auto simp: sgn_if abs_if; presburger)+

lemma dec_9: "dec 9 e = dec 1 (e + 1) - dec 1 e"
  unfolding dec_ten[symmetric] dec_diff[symmetric] by simp

lemma align_exponent: "snd (align m e f) = max e f"
  by (induction m e f rule: align.induct) (subst align.simps, auto)

lemma align_error: "\<bar>dec (fst (align m e f)) (max e f) - dec m e\<bar> \<le> dec 1 (max e f) - dec 1 e"
proof (induction m e f rule: align.induct)
  case (1 m e f)
  show ?case
  proof (cases "e < f")
    case True
    have "\<bar>dec (m sdiv 10) (e + 1) - dec m e\<bar> = dec \<bar>10 * (m sdiv 10) - m\<bar> e"
      unfolding dec_ten[symmetric] dec_diff[symmetric] dec_abs ..
    also have "\<dots> \<le> dec 1 (e + 1) - dec 1 e" unfolding dec_9[symmetric] using sdiv_ten by simp
    finally have "\<bar>dec (m sdiv 10) (e + 1) - dec m e\<bar> \<le> dec 1 (e + 1) - dec 1 e" .
    moreover have "max (e + 1) f = max e f" using True by simp
    ultimately show ?thesis using "1.IH"[OF True] True
      by (subst (1) align.simps) (simp only: if_True)
  next
    case False
    then show ?thesis by (subst align.simps) simp
  qed
qed

lemma align_magnitude: "\<bar>fst (align m e f)\<bar> \<le> \<bar>m\<bar>"
proof (induction m e f rule: align.induct)
  case (1 m e f)
  have "\<bar>m sdiv 10\<bar> \<le> \<bar>m\<bar>" using sdiv_ten[of m] by linarith
  then show ?case using 1 by (subst align.simps) fastforce
qed

lemma align_below: "f \<le> e \<Longrightarrow> align m e f = (m, e)"
  by (subst align.simps) simp

lemma align_max: "align m e (max e f) = align m e f"
  by (cases "e < f") (simp_all add: align_below max_def)

lemma align_eq: "align m e f = (fst (align m e f), max e f)"
  by (simp add: prod_eq_iff align_exponent)

text \<open>The body of \<^verbatim>\<open>operator+=\<close> on two non-zero amounts, with both operands treated alike.\<close>

lemma iou_add_unfold:
  assumes "mantissa a \<noteq> 0" "mantissa b \<noteq> 0"
  shows "iou_add a b =
    (let m = fst (align (mantissa a) (exponent a) (exponent b)) +
             fst (align (mantissa b) (exponent b) (exponent a))
     in if -10 \<le> m \<and> m \<le> 10 then Inr iou_zero
        else iou_normalize m (max (exponent a) (exponent b)))"
proof -
  have "align (mantissa b) (exponent b) (max (exponent a) (exponent b)) =
        align (mantissa b) (exponent b) (exponent a)"
    using align_max[of "mantissa b" "exponent b" "exponent a"] by (simp add: max.commute)
  moreover obtain m1 where "align (mantissa a) (exponent a) (exponent b) =
      (m1, max (exponent a) (exponent b))" using align_eq by blast
  moreover obtain m2 where "align (mantissa b) (exponent b) (exponent a) =
      (m2, max (exponent b) (exponent a))" using align_eq by blast
  ultimately show ?thesis using assms by (simp add: iou_add_def iou_signum_def)
qed

lemma iou_add_zero:
  "iou_ok a \<Longrightarrow> mantissa b = 0 \<Longrightarrow> iou_add a b = Inr a"
  "iou_ok a \<Longrightarrow> iou_ok b \<Longrightarrow> mantissa a = 0 \<Longrightarrow> iou_add a b = Inr b"
  by (auto simp: iou_add_def iou_signum_def iou_ok_zero_iff)

lemma iou_add_commute_aux:
  assumes "iou_ok a" "iou_ok b"
  shows "iou_add a b = iou_add b a"
proof (cases "mantissa a = 0 \<or> mantissa b = 0")
  case True
  then show ?thesis using assms by (auto simp: iou_add_zero)
next
  case False
  then show ?thesis by (simp add: iou_add_unfold max.commute[of "exponent a"] add.commute Let_def)
qed

lemma truncates_to_bounds:
  assumes "truncates_to x (Inr r)" "r \<noteq> iou_zero"
  shows "dec \<bar>mantissa r\<bar> (exponent r) \<le> \<bar>x\<bar>" "\<bar>x\<bar> < dec (\<bar>mantissa r\<bar> + 1) (exponent r)"
    "mantissa r < 0 \<longleftrightarrow> x < 0" "int minMantissa \<le> \<bar>mantissa r\<bar>"
  using assms truncates_to_nz(1)[OF assms]
  by (auto simp: truncates_to_def iou_value_def dec_add dec_abs iou.fits_def)

text \<open>No digit is lost unless the exponent has to grow, and then only the last ones.\<close>

lemma truncates_to_kept:
  assumes "truncates_to (dec m e) (Inr r)" "r \<noteq> iou_zero" "exponent r \<le> e"
  shows "iou_value r = dec m e"
proof -
  note b = truncates_to_bounds[OF assms(1,2)]
  have x: "\<bar>dec m e\<bar> = dec (\<bar>m\<bar> * 10 ^ nat (e - exponent r)) (exponent r)"
    using assms(3) by (simp add: dec_shift dec_abs)
  have "\<bar>mantissa r\<bar> = \<bar>m\<bar> * 10 ^ nat (e - exponent r)" using b(1,2) unfolding x by simp
  then have "\<bar>iou_value r\<bar> = \<bar>dec m e\<bar>" by (simp only: x iou_value_def dec_abs[of "mantissa r", symmetric])
  then show ?thesis using b(3) iou_value_sign(1)[of r] by linarith
qed

lemma truncates_to_dropped:
  assumes "truncates_to (dec m e) (Inr r)" "r \<noteq> iou_zero" "e \<le> exponent r"
  shows "\<bar>mantissa r\<bar> = \<bar>m\<bar> div 10 ^ nat (exponent r - e)"
proof -
  note b = truncates_to_bounds[OF assms(1,2)]
  let ?p = "10 ^ nat (exponent r - e) :: int"
  have al: "\<And>n. dec n (exponent r) = dec (n * ?p) e" using assms(3) by (intro dec_align)
  have "\<bar>mantissa r\<bar> * ?p \<le> \<bar>m\<bar>" "\<bar>m\<bar> < (\<bar>mantissa r\<bar> + 1) * ?p"
    using b(1,2) unfolding al dec_abs[symmetric] by simp_all
  then have "\<bar>mantissa r\<bar> \<le> \<bar>m\<bar> div ?p" "\<not> \<bar>mantissa r\<bar> + 1 \<le> \<bar>m\<bar> div ?p"
    by (simp_all only: int_le_div_iff[of ?p] not_le zero_less_power zero_less_numeral)
  then show ?thesis by linarith
qed

lemma abs_diff_same_sign:
  fixes x y d :: rat
  assumes "\<bar>y\<bar> \<le> \<bar>x\<bar>" "y < 0 \<longleftrightarrow> x < 0" "\<bar>x\<bar> \<le> \<bar>y\<bar> + d"
  shows "\<bar>y - x\<bar> \<le> d"
  using assms by linarith

lemma iou_normalize_error:
  assumes "iou_normalize m e = Inr r" "\<bar>m\<bar> < 100 * int minMantissa"
  shows "\<bar>iou_value r - dec m e\<bar> \<le> dec 9 e + dec (int minMantissa) minExponent"
proof -
  have T: "truncates_to (dec m e) (Inr r)" using iou_normalize_truncates[of m e] assms(1) by simp
  have nn: "0 \<le> dec 9 e" "0 \<le> dec (int minMantissa) minExponent" by simp_all
  consider "r = iou_zero" | "r \<noteq> iou_zero" "exponent r \<le> e" | "r \<noteq> iou_zero" "e < exponent r" by linarith
  then show ?thesis
  proof cases
    case 1
    then have "\<bar>dec m e\<bar> < dec (int minMantissa) minExponent" using truncates_to_zero_iff[OF T] by simp
    moreover have "\<bar>iou_value r - dec m e\<bar> = \<bar>dec m e\<bar>" using 1 by simp
    ultimately show ?thesis using nn by linarith
  next
    case 2
    then show ?thesis using truncates_to_kept[OF T] nn by simp
  next
    case 3
    note b = truncates_to_bounds[OF T 3(1)]
    have "dec (int minMantissa) (exponent r) < dec (int minMantissa * 10 ^ 2) e"
      using b(1,4) assms(2) order.strict_trans1[OF order.trans[OF _ b(1)], of "dec (int minMantissa) (exponent r)"]
      by (simp add: dec_abs[symmetric])
    then have "dec (int minMantissa) (exponent r) < dec (int minMantissa) (e + 2)"
      unfolding dec_shift by simp
    then have "exponent r < e + 2"
      using dec_mono_exp[of "int minMantissa" "e + 2" "exponent r"] by linarith
    then have er: "exponent r = e + 1" using 3(2) by simp
    have "\<bar>m\<bar> \<le> 10 * \<bar>mantissa r\<bar> + 9" using truncates_to_dropped[OF T 3(1)] er by simp
    then have "dec \<bar>m\<bar> e \<le> dec (10 * \<bar>mantissa r\<bar> + 9) e" by simp
    then have "\<bar>dec m e\<bar> \<le> \<bar>iou_value r\<bar> + dec 9 e"
      by (simp only: dec_add dec_ten er[symmetric] dec_abs iou_value_def)
    then have "\<bar>iou_value r - dec m e\<bar> \<le> dec 9 e"
      using b(1,3) by (intro abs_diff_same_sign) (simp_all add: dec_abs iou_value_def)
    then show ?thesis using nn by linarith
  qed
qed

lemma iou_ok_abs: "iou_ok a \<Longrightarrow> \<bar>mantissa a\<bar> \<le> int maxMantissa"
  by (auto simp: iou_ok_def iou_consts)

lemma aligned_sum_error:
  fixes ma ea mb eb :: int
  defines "E \<equiv> max ea eb"
  shows "\<bar>dec (fst (align ma ea eb) + fst (align mb eb ea)) E - (dec ma ea + dec mb eb)\<bar> < dec 1 E"
proof -
  have "\<bar>dec (fst (align ma ea eb)) E - dec ma ea\<bar> \<le> dec 1 E - dec 1 ea"
    using align_error[of ma ea eb] by (simp add: E_def)
  moreover have "\<bar>dec (fst (align mb eb ea)) E - dec mb eb\<bar> \<le> dec 1 E - dec 1 eb"
    using align_error[of mb eb ea] by (simp add: E_def max.commute)
  moreover have "dec 1 E = dec 1 ea \<or> dec 1 E = dec 1 eb" by (simp add: E_def max_def)
  moreover have "0 < dec 1 ea" "0 < dec 1 eb" by simp_all
  ultimately show ?thesis unfolding dec_add by linarith
qed

lemma iou_add_error_aux:
  assumes "iou_ok a" "iou_ok b" "mantissa a \<noteq> 0" "mantissa b \<noteq> 0" "iou_add a b = Inr r"
  defines "E \<equiv> max (exponent a) (exponent b)"
  shows "iou_ok r \<and> \<bar>iou_value r - (iou_value a + iou_value b)\<bar> < dec 11 E + dec (int minMantissa) minExponent"
proof -
  define m where "m = fst (align (mantissa a) (exponent a) (exponent b)) +
    fst (align (mantissa b) (exponent b) (exponent a))"
  have err: "\<bar>dec m E - (iou_value a + iou_value b)\<bar> < dec 1 E"
    unfolding m_def E_def iou_value_def by (rule aligned_sum_error)
  have nn: "0 < dec 1 E" "0 < dec (int minMantissa) minExponent" "dec 11 E = dec 1 E + dec 10 E"
    "dec 10 E = dec 9 E + dec 1 E"
    by (simp_all add: iou_consts dec_add[symmetric])
  have res: "iou_add a b = (if -10 \<le> m \<and> m \<le> 10 then Inr iou_zero else iou_normalize m E)"
    using assms(3,4) by (simp add: iou_add_unfold m_def E_def Let_def)
  show ?thesis
  proof (cases "-10 \<le> m \<and> m \<le> 10")
    case True
    then have "\<bar>m\<bar> \<le> 10" by linarith
    then have "dec \<bar>m\<bar> E \<le> dec 10 E" by simp
    then have "\<bar>dec m E\<bar> \<le> dec 10 E" by (simp only: dec_abs)
    moreover have "r = iou_zero" using True res assms(5) by simp
    ultimately show ?thesis using err nn
      by (simp only: iou_zero_simps simp_thms)
  next
    case False
    then have N: "iou_normalize m E = Inr r" using res assms(5) by (simp only: if_False)
    have "\<bar>m\<bar> < 100 * int minMantissa"
      using align_magnitude[of "mantissa a" "exponent a" "exponent b"]
        align_magnitude[of "mantissa b" "exponent b" "exponent a"]
        iou_ok_abs[OF assms(1)] iou_ok_abs[OF assms(2)] by (simp add: m_def iou_consts)
    then show ?thesis using iou_normalize_error[OF N] iou_normalize_ok[OF N] err nn by linarith
  qed
qed

section \<open>Ratios\<close>

lemma lower_bound_powers:
  assumes "k < 30" "v \<le> 10 ^ k" "0 < k \<Longrightarrow> 10 ^ (k - 1) < v"
  shows "lower_bound_index powerTable v = k"
proof -
  have below: "10 ^ i < v" if "i < k" for i
  proof -
    have "(10::nat) ^ i \<le> 10 ^ (k - 1)" using that by (intro power_increasing) auto
    also have "\<dots> < v" using that by (intro assms(3)) simp
    finally show ?thesis .
  qed
  have "takeWhile (\<lambda>p. p < v) powerTable = take k powerTable"
    using assms(1,2) below by (intro takeWhile_eq_take_P_nth) (auto simp: powerTable_def)
  then show ?thesis using assms(1) by (simp add: lower_bound_index_def powerTable_def)
qed

lemma powerTable_nth: "k < 30 \<Longrightarrow> powerTable ! k = 10 ^ k"
  by (simp add: powerTable_def)

lemma log10Ceil_spec:
  assumes "v \<le> 10 ^ 29"
  obtains k where "log10Ceil v = int k" "k \<le> 29" "v \<le> 10 ^ k" "0 < k \<Longrightarrow> 10 ^ (k - 1) < v"
proof -
  define k where "k = (LEAST k. v \<le> 10 ^ k)"
  have k: "v \<le> 10 ^ k" "k \<le> 29" unfolding k_def
    using LeastI[of "\<lambda>k. v \<le> 10 ^ k", OF assms] Least_le[of "\<lambda>k. v \<le> 10 ^ k", OF assms] .
  have low: "10 ^ (k - 1) < v" if "0 < k"
    using not_less_Least[of "k - 1" "\<lambda>k. v \<le> 10 ^ k"] that by (simp add: k_def)
  show thesis
    using that[of k] k low lower_bound_powers[of k v] by (simp add: log10Ceil_def)
qed

lemma fl64_18: "fl64 = 18"
proof -
  have "lower_bound_index powerTable (2 ^ 63 - 1) = 19" by (rule lower_bound_powers) auto
  then show ?thesis by (simp add: fl64_def log10Floor_def powerTable_nth)
qed

text \<open>
  The 128-bit intermediate is at most \<open>10 ^ 26\<close>.  Growing keeps the quotient exact and fills
  eighteen digits when there is a remainder; shrinking keeps eighteen.
\<close>

lemma ratio_grow_unfold:
  "ratio_grow mul den e =
     (if mul mod den = 0 then (mul div den, 0, e)
      else let t = nat (18 - log10Ceil (mul div den)); r = mul mod den * 10 ^ t
           in (mul div den * 10 ^ t + r div den, r mod den, e - int t))"
proof -
  have r: "mul - mul div den * den = mul mod den" for mul by (simp add: minus_div_mult_eq_mod)
  have nn: "nat (18 - log10Ceil v) < 30" "log10Ceil v \<ge> 0" for v by (simp_all add: log10Ceil_def)
  show ?thesis
    unfolding ratio_grow_def Let_def r fl64_18 by (simp add: powerTable_nth[OF nn(1)])
qed

lemma ratio_grow_exact:
  assumes "0 < den" and g: "ratio_grow mul den e = (low, rem, e')"
  shows "dec (int mul) e = dec (int den * int low + int rem) e'" "rem < den" "e' \<le> e"
proof -
  have "\<exists>t. den * low + rem = mul * 10 ^ t \<and> e' = e - int t \<and> rem < den"
  proof (cases "mul mod den = 0")
    case True
    then show ?thesis using g assms(1) by (intro exI[of _ 0]) (auto simp: ratio_grow_unfold)
  next
    case False
    define t where "t = nat (18 - log10Ceil (mul div den))"
    let ?r = "mul mod den * 10 ^ t"
    have v: "low = mul div den * 10 ^ t + ?r div den" "rem = ?r mod den" "e' = e - int t"
      using g False by (auto simp: ratio_grow_unfold Let_def t_def)
    have "den * low + rem = den * (mul div den) * 10 ^ t + (den * (?r div den) + ?r mod den)"
      unfolding v by (simp only: distrib_left mult.assoc add.assoc)
    also have "\<dots> = (den * (mul div den) + mul mod den) * 10 ^ t"
      by (simp only: mult_div_mod_eq distrib_right[symmetric])
    finally show ?thesis using v assms(1) by (intro exI[of _ t]) simp
  qed
  then obtain t where t: "den * low + rem = mul * 10 ^ t" "e' = e - int t" "rem < den" by blast
  have "int den * int low + int rem = int mul * 10 ^ t"
    using arg_cong[OF t(1), of int] by simp
  then show "dec (int mul) e = dec (int den * int low + int rem) e'"
    using t(2) dec_shift[of "int mul" t "e - int t"] by simp
  show "rem < den" "e' \<le> e" using t by simp_all
qed

lemma ratio_grow_digits:
  assumes "0 < den" "den \<le> mul" "mul \<le> 10 ^ 26" and g: "ratio_grow mul den e = (low, rem, e')"
  shows "low \<le> 10 ^ 26" "rem \<noteq> 0 \<Longrightarrow> 10 ^ 17 \<le> low"
proof -
  define q where "q = mul div den"
  have q: "0 < q" "q \<le> 10 ^ 26"
    using assms(1-3) order.trans[OF div_le_dividend[of mul den] assms(3)]
    by (simp_all add: q_def div_greater_zero_iff)
  have "q \<le> 10 ^ 29" using q(2) by (rule order.trans) (intro power_increasing; simp)
  then obtain k where k: "log10Ceil q = int k" "q \<le> 10 ^ k" "0 < k \<Longrightarrow> 10 ^ (k - 1) < q"
    using log10Ceil_spec by blast
  define t where "t = nat (18 - int k)"
  let ?r = "mul mod den * 10 ^ t"
  have v: "low = (if mul mod den = 0 then q else q * 10 ^ t + ?r div den)"
      "mul mod den = 0 \<Longrightarrow> rem = 0"
    using g by (auto simp: ratio_grow_unfold Let_def t_def k q_def[symmetric] split: if_splits)
  have rt: "?r div den < 10 ^ t" using assms(1) by (simp add: div_less_iff_less_mult mult.commute)
  have top: "q * 10 ^ t + ?r div den \<le> 10 ^ 26"
  proof (cases "t = 0")
    case True
    then show ?thesis using rt q(2) by simp
  next
    case False
    have "q * 10 ^ t + ?r div den \<le> (q + 1) * 10 ^ t" using rt by simp
    also have "\<dots> \<le> (10 ^ k * 10) * 10 ^ t" 
    proof (intro mult_right_mono)
      have "(1::nat) \<le> 10 ^ k" by simp
      then show "q + 1 \<le> 10 ^ k * 10" using k(2) by linarith
    qed simp
    also have "\<dots> = 10 ^ (k + 1 + t)" by (simp add: power_add)
    also have "\<dots> \<le> 10 ^ 26" using False by (intro power_increasing) (auto simp: t_def)
    finally show ?thesis .
  qed
  show "low \<le> 10 ^ 26" using v(1) top q(2)
    by (cases "mul mod den = 0") (simp_all only: if_True if_False simp_thms)
  show "10 ^ 17 \<le> low" if "rem \<noteq> 0"
  proof -
    have "k \<noteq> 0 \<or> t = 18" by (auto simp: t_def)
    then have "(10::nat) ^ 17 \<le> q * 10 ^ t"
    proof (cases "k = 0")
      case True
      then have "t = 18" by (simp add: t_def)
      then show ?thesis using q(1) by simp
    next
      case False
      have "(10::nat) ^ 17 \<le> 10 ^ (k - 1 + t)" using False
        by (intro power_increasing) (auto simp: t_def)
      also have "\<dots> \<le> q * 10 ^ t" unfolding power_add using k(3) False by (intro mult_right_mono) auto
      finally show ?thesis .
    qed
    then show ?thesis using v that by (auto split: if_splits)
  qed
qed

lemma ratio_shrink_digits:
  assumes "low \<le> 10 ^ 26" and sh: "ratio_shrink low rem e = (low', hr, e')"
  obtains s where "low' = low div 10 ^ s" "e' = e + int s" "hr \<longleftrightarrow> rem \<noteq> 0 \<or> low mod 10 ^ s \<noteq> 0"
    "low' \<le> 10 ^ 18" "0 < s \<or> 10 ^ 17 \<le> low \<Longrightarrow> 10 ^ 17 \<le> low'"
proof -
  have "low \<le> 10 ^ 29" using assms(1) by (rule order.trans) (intro power_increasing; simp)
  then obtain k where k: "log10Ceil low = int k" "k \<le> 29" "low \<le> 10 ^ k" "0 < k \<Longrightarrow> 10 ^ (k - 1) < low"
    using log10Ceil_spec by blast
  define s where "s = k - 18"
  have ns: "nat (int k - 18) = s" "s < 30" using k(2) by (auto simp: s_def)
  have v: "low' = low div 10 ^ s" "e' = e + int s" "hr \<longleftrightarrow> rem \<noteq> 0 \<or> low mod 10 ^ s \<noteq> 0"
    using sh k(1) ns unfolding ratio_shrink_def Let_def fl64_18
    by (auto simp: powerTable_nth minus_div_mult_eq_mod s_def split: if_splits)
  have "(10::nat) ^ k \<le> 10 ^ (18 + s)" by (intro power_increasing) (auto simp: s_def)
  then have "low \<le> 10 ^ 18 * 10 ^ s" using k(3) unfolding power_add by linarith
  then have "low div 10 ^ s \<le> (10 ^ 18 * 10 ^ s) div 10 ^ s" by (rule div_le_mono)
  then have top: "low' \<le> 10 ^ 18" using v(1) by simp
  have "10 ^ 17 \<le> low'" if "0 < s \<or> 10 ^ 17 \<le> low"
  proof (cases "0 < s")
    case True
    then have "k - 1 = 17 + s" "0 < k" by (simp_all add: s_def)
    then have "(10::nat) ^ 17 * 10 ^ s \<le> low"
      using k(4) by (simp only: power_add less_imp_le_nat)
    then show ?thesis unfolding v(1) by (subst div_ge_iff_mult_le) simp_all
  next
    case False
    then show ?thesis using that v(1) by simp
  qed
  then show thesis using that[of s] v top by blast
qed

text \<open>The digits that remain are those of the exact quotient, and the remainder flag is exact.\<close>

lemma ratio_digits:
  assumes "0 < den" "den \<le> mul" "mul \<le> 10 ^ 26"
    and g: "ratio_grow mul den e = (low0, rem, e0)" and sh: "ratio_shrink low0 rem e0 = (low, hr, e')"
  defines "E \<equiv> dec (int mul) e / of_nat den"
  shows "dec (int low) e' \<le> E" "E < dec (int low + 1) e'" "hr \<longleftrightarrow> dec (int low) e' \<noteq> E"
    "hr \<Longrightarrow> 10 ^ 17 \<le> low" "low \<le> 10 ^ 18"
proof -
  note G = ratio_grow_exact[OF assms(1) g] and D = ratio_grow_digits[OF assms(1-3) g]
  obtain s where s: "low = low0 div 10 ^ s" "e' = e0 + int s" "hr \<longleftrightarrow> rem \<noteq> 0 \<or> low0 mod 10 ^ s \<noteq> 0"
    "low \<le> 10 ^ 18" "0 < s \<or> 10 ^ 17 \<le> low0 \<Longrightarrow> 10 ^ 17 \<le> low"
    using ratio_shrink_digits[OF D(1) sh] by blast
  define d where "d = den * (low0 mod 10 ^ s) + rem"
  have "den * (low0 mod 10 ^ s) + den \<le> den * 10 ^ s"
    using mult_le_mono2[of "Suc (low0 mod 10 ^ s)" "10 ^ s" den] by (simp add: Suc_le_eq)
  then have d: "d < den * 10 ^ s" using G(2) by (simp add: d_def)
  have "den * low0 = den * (low * 10 ^ s + low0 mod 10 ^ s)" by (simp only: s(1) div_mult_mod_eq)
  then have "den * low0 + rem = den * low * 10 ^ s + d" by (simp add: d_def distrib_left)
  then have "int den * int low0 + int rem = int den * int low * 10 ^ s + int d"
    by (metis of_nat_add of_nat_mult of_nat_numeral of_nat_power)
  then have X: "dec (int mul) e = dec (int den * int low * 10 ^ s + int d) e0" using G(1) by simp
  have lift: "of_nat den * dec n e' = dec (int den * n * 10 ^ s) e0" for n
    unfolding dec_shift s(2) by (simp add: dec_def)
  have dpos: "(0::rat) < of_nat den" using assms(1) by simp
  have dd: "int d < int den * 10 ^ s" using d by (metis of_nat_less_iff of_nat_mult of_nat_numeral of_nat_power)
  have lift': "dec n e' * of_nat den = dec (int den * n * 10 ^ s) e0" for n
    unfolding lift[symmetric] by (rule mult.commute)
  show "dec (int low) e' \<le> E" unfolding E_def pos_le_divide_eq[OF dpos] lift' X by simp
  have "int den * int low * 10 ^ s + int d < int den * (int low + 1) * 10 ^ s"
    using dd by (simp only: distrib_left distrib_right mult_1_right)
  then show "E < dec (int low + 1) e'" unfolding E_def pos_divide_less_eq[OF dpos] lift' X by simp
  have "d = 0 \<longleftrightarrow> \<not> hr" using assms(1) by (auto simp: s(3) d_def)
  moreover have "dec (int low) e' = E \<longleftrightarrow> d = 0"
    unfolding E_def nonzero_eq_divide_eq[OF dpos[THEN less_imp_neq, symmetric]] lift' X by simp
  ultimately show "hr \<longleftrightarrow> dec (int low) e' \<noteq> E" by blast
  show "10 ^ 17 \<le> low" if hr
    using that s(3,5) D(2) by (cases "0 < s") auto
  show "low \<le> 10 ^ 18" by (rule s(4))
qed

lemma dec_gap:
  assumes "e \<le> f" "dec m e < dec n f"
  shows "dec (m + 1) e \<le> dec n f"
  using assms(2) unfolding dec_align[OF assms(1)] by simp

text \<open>Normalising the digits of a quotient truncates the quotient itself.\<close>

lemma ratio_truncates:
  assumes x: "dec (int low) e \<le> E" "E < dec (int low + 1) e" "hr \<longleftrightarrow> dec (int low) e \<noteq> E" "hr \<Longrightarrow> 10 ^ 17 \<le> low"
    and T: "truncates_to (dec (apply_sign neg low) e) (Inr r)"
  shows "r = iou_zero \<Longrightarrow> E < dec (int minMantissa) minExponent"
    and "r \<noteq> iou_zero \<Longrightarrow> \<bar>iou_value r\<bar> \<le> E \<and> E < \<bar>iou_value r\<bar> + dec 1 (exponent r)"
    and "r \<noteq> iou_zero \<Longrightarrow> hr \<Longrightarrow> \<bar>iou_value r\<bar> < E"
proof -
  have ax: "\<bar>dec (apply_sign neg low) e\<bar> = dec (int low) e" by (simp add: apply_sign_def dec_abs[symmetric])
  have big: "e < f" if "hr" "dec (int low) e < dec n f" "n \<le> 10 ^ 16" "0 \<le> n" for n f
  proof (rule ccontr)
    assume "\<not> e < f"
    then have "dec n f \<le> dec n e" using that(4) by (intro dec_mono_exp) auto
    moreover have "dec n e \<le> dec (int low) e" using x(4)[OF that(1)] that(3) by simp
    ultimately show False using that(2) by linarith
  qed
  have gap: "E < dec n f" if "dec (int low) e < dec n f" "n \<le> 10 ^ 16" "0 \<le> n" for n f
  proof (cases hr)
    case True
    then show ?thesis using dec_gap[OF less_imp_le[OF big[OF True that]] that(1)] x(2) by linarith
  next
    case False
    then show ?thesis using that(1) x(3) by simp
  qed
  show "E < dec (int minMantissa) minExponent" if "r = iou_zero"
    using truncates_to_zero_iff[OF T] that by (intro gap) (simp_all add: ax iou_consts)
  assume nz: "r \<noteq> iou_zero"
  note b = truncates_to_bounds[OF T nz, unfolded ax]
  have "\<bar>mantissa r\<bar> + 1 \<le> 10 ^ 16"
    using truncates_to_nz(1)[OF T nz, unfolded iou_fits_iff] by auto
  then have "E < dec (\<bar>mantissa r\<bar> + 1) (exponent r)" by (intro gap b(2)) auto
  moreover have v: "\<bar>iou_value r\<bar> = dec \<bar>mantissa r\<bar> (exponent r)" by (simp add: iou_value_def dec_abs)
  ultimately show "\<bar>iou_value r\<bar> \<le> E \<and> E < \<bar>iou_value r\<bar> + dec 1 (exponent r)"
    using b(1) x(1) by (simp add: dec_add)
  show "\<bar>iou_value r\<bar> < E" if hr using b(1) x(1,3) that v by simp
qed

lemma iou_step:
  assumes "iou_ok a" "a \<noteq> iou_zero" "\<bar>m\<bar> = \<bar>mantissa a\<bar> + 1" "iou_normalize m (exponent a) = Inr r"
  shows "iou_ok r" "iou_value r = dec m (exponent a)" "exponent a \<le> exponent r"
proof -
  have f: "iou.fits (nat \<bar>mantissa a\<bar>) (exponent a)" using assms(1,2) by (simp add: iou_ok_fits)
  show "iou_ok r" by (rule iou_normalize_ok[OF assms(4)])
  have "\<exists>s. iou_ok s \<and> dec m (exponent a) = iou_value s \<and> exponent a \<le> exponent s"
  proof (cases "\<bar>m\<bar> \<le> int maxMantissa")
    case True
    then show ?thesis using f assms(3)
      by (intro exI[of _ "\<lparr>mantissa = m, exponent = exponent a\<rparr>"])
        (auto simp: iou_ok_fits iou.fits_def iou_value_def)
  next
    case False
    then have m: "\<bar>m\<bar> = 10 * int minMantissa" 
      using f[unfolded iou_fits_iff] assms(3) by (auto simp: iou_consts)
    have T: "truncates_to (dec m (exponent a)) (Inr r)"
      using iou_normalize_truncates[of m "exponent a"] assms(4) by simp
    have x: "\<bar>dec m (exponent a)\<bar> = dec (10 * int minMantissa) (exponent a)" by (simp add: m dec_abs[symmetric])
    have "exponent a \<noteq> maxExponent"
    proof
      assume top: "exponent a = maxExponent"
      have "r \<noteq> iou_zero" using truncates_to_zero_iff[OF T] x top
          dec_mono_exp[of "int minMantissa" minExponent "maxExponent + 1"]
        by (auto simp: dec_ten iou_consts(3,4))
      then show False using truncates_to_bounds(2)[OF T] x top
          iou.fits_range(2)[OF truncates_to_nz(1)[OF T]] by simp
    qed
    have "10 * (sgn m * int minMantissa) = m"
      using m mult_sgn_abs[of m] by (metis mult.left_commute)
    then have "dec m (exponent a) = iou_value \<lparr>mantissa = sgn m * int minMantissa, exponent = exponent a + 1\<rparr>"
      using dec_ten[of "sgn m * int minMantissa" "exponent a"] by (simp add: iou_value_def)
    moreover have "iou_ok \<lparr>mantissa = sgn m * int minMantissa, exponent = exponent a + 1\<rparr>"
      using f[unfolded iou_fits_iff] \<open>exponent a \<noteq> maxExponent\<close> m
      by (auto simp: iou_ok_def abs_mult sgn_if iou_consts)
    ultimately show ?thesis by (intro exI conjI) auto
  qed
  then obtain s where s: "iou_ok s" "dec m (exponent a) = iou_value s" "exponent a \<le> exponent s" by blast
  have "r = s" using iou_normalize_exact[OF s(1,2)] assms(4) by simp
  then show "iou_value r = dec m (exponent a)" "exponent a \<le> exponent r" using s by simp_all
qed

text \<open>
  A ratio of magnitude at least the smallest amount is either truncated to sixteen digits, or,
  when the direction of rounding asks for it, moved one unit away from zero.
\<close>

lemma mulRatio_core:
  assumes ok: "iou_ok amt" "0 < num" "num < 2 ^ 32" "0 < den" "den < 2 ^ 32" and nz: "mantissa amt \<noteq> 0"
    and res: "mulRatio amt num den up = Inr r"
  defines "E \<equiv> \<bar>iou_value amt\<bar> * of_nat num / of_nat den"
  assumes big: "dec (int minMantissa) minExponent \<le> E"
  shows "iou_ok r \<and> r \<noteq> iou_zero \<and> (mantissa r < 0 \<longleftrightarrow> mantissa amt < 0) \<and>
    (\<bar>iou_value r\<bar> \<le> E \<and> E < \<bar>iou_value r\<bar> + dec 1 (exponent r) \<or>
     E < \<bar>iou_value r\<bar> \<and> \<bar>iou_value r\<bar> < E + dec 1 (exponent r) \<and> (up \<longleftrightarrow> 0 < mantissa amt))"
proof -
  define mul where "mul = nat \<bar>mantissa amt\<bar> * num"
  define neg where "neg \<longleftrightarrow> mantissa amt < 0"
  obtain low0 rem e0 low hr e where
    g: "ratio_grow mul den (exponent amt) = (low0, rem, e0)" and sh: "ratio_shrink low0 rem e0 = (low, hr, e)"
    using prod_cases3 by metis
  note f = iou_ok_nz[OF ok(1) nz, unfolded iou_fits_iff]
  have "nat \<bar>mantissa amt\<bar> * num \<le> 9999999999999999 * 2 ^ 32" using f ok(3) by (intro mult_mono) auto
  then have m26: "mul \<le> 10 ^ 26" unfolding mul_def by simp
  have "1000000000000000 * 1 \<le> nat \<bar>mantissa amt\<bar> * num" using f ok(2) by (intro mult_mono) auto
  then have dm: "den \<le> mul" using ok(5) unfolding mul_def by simp
  have E: "E = dec (int mul) (exponent amt) / of_nat den"
    unfolding E_def mul_def by (simp add: abs_iou_value dec_def)
  note D = ratio_digits[OF ok(4) dm m26 g sh, folded E]
  obtain r0 where r0: "iou_normalize (apply_sign neg low) e = Inr r0"
    using res ok(4) by (cases "iou_normalize (apply_sign neg low) e")
      (auto simp: mulRatio_def Let_def g[unfolded mul_def] sh neg_def)
  have T: "truncates_to (dec (apply_sign neg low) e) (Inr r0)"
    using iou_normalize_truncates[of "apply_sign neg low" e] r0 by simp
  have r0nz: "r0 \<noteq> iou_zero" using ratio_truncates(1)[OF D(1-4) T] big by auto
  note R = ratio_truncates(2,3)[OF D(1-4) T r0nz] and ok0 = iou_normalize_ok[OF r0]
  have m0: "mantissa r0 \<noteq> 0" using ok0 r0nz by (simp add: iou_ok_zero_iff)
  have sg: "mantissa r0 < 0 \<longleftrightarrow> neg" "0 < mantissa r0 \<longleftrightarrow> \<not> neg"
    using truncates_to_bounds(1,3)[OF T r0nz] m0 by (auto simp: apply_sign_def)
  have form: "mulRatio amt num den up =
    (if hr \<and> (up \<longleftrightarrow> \<not> neg) then iou_normalize (mantissa r0 + (if neg then -1 else 1)) (exponent r0) else Inr r0)"
    using ok(4) m0 r0 by (auto simp: mulRatio_def Let_def g[unfolded mul_def] sh neg_def[symmetric] iou_bool_def)
  show ?thesis
  proof (cases "hr \<and> (up \<longleftrightarrow> \<not> neg)")
    case False
    then have "r = r0" using form res by (simp only: if_False sum.inject)
    then show ?thesis using R(1) ok0 r0nz sg by (simp add: neg_def)
  next
    case True
    define m where "m = mantissa r0 + (if neg then -1 else 1)"
    have "iou_normalize m (exponent r0) = Inr r" using True form res by (simp add: m_def)
    moreover have am: "\<bar>m\<bar> = \<bar>mantissa r0\<bar> + 1" "m < 0 \<longleftrightarrow> neg" using sg m0 by (auto simp: m_def)
    ultimately have S: "iou_ok r" "iou_value r = dec m (exponent r0)" "exponent r0 \<le> exponent r"
      using iou_step[OF ok0 r0nz] by blast+
    have v: "\<bar>iou_value r\<bar> = \<bar>iou_value r0\<bar> + dec 1 (exponent r0)"
      by (simp only: S(2) iou_value_def[of r0] am(1) dec_add dec_abs[symmetric])
    have "r \<noteq> iou_zero" using S(2) am(1) by auto
    moreover have "mantissa r < 0 \<longleftrightarrow> neg" using iou_value_sign(1)[of r] am(2) by (simp add: S(2))
    moreover have "dec 1 (exponent r0) \<le> dec 1 (exponent r)" using S(3) by (simp add: dec_mono_exp)
    moreover have "E < \<bar>iou_value r\<bar>" using R(1) v by simp
    moreover have "\<bar>iou_value r\<bar> < E + dec 1 (exponent r0)" using R(2) True v by simp
    moreover have "up \<longleftrightarrow> 0 < mantissa amt" using True nz by (auto simp: neg_def)
    ultimately show ?thesis using S(1) by (simp add: neg_def)
  qed
qed

section \<open>Properties\<close>


text \<open>
  C14. The comparison operator, which looks at signs, zero and exponents before mantissas, is the
  order of the exact values on normalised amounts.
\<close>

theorem iou_less_value:
  assumes "iou_ok a" "iou_ok b"
  shows "iou_less a b \<longleftrightarrow> iou_value a < iou_value b"
  using assms by (rule iou_less_value_aux)

text \<open>
  C15. Addition of normalised amounts does not depend on the order of the operands, gives a
  normalised amount, and is within eleven units of the last place of the larger operand of the
  exact sum, up to the smallest amount.
\<close>

theorem iou_add_accurate:
  assumes "iou_ok a" "iou_ok b" "iou_add a b = Inr r"
  shows "iou_add b a = Inr r \<and> iou_ok r \<and>
    \<bar>iou_value r - (iou_value a + iou_value b)\<bar>
      < dec 11 (max (exponent a) (exponent b)) + dec (int minMantissa) minExponent"
proof (cases "mantissa a = 0 \<or> mantissa b = 0")
  case True
  then have "iou_value r = iou_value a + iou_value b \<and> iou_ok r"
    using assms by (auto simp: iou_add_zero iou_value_def)
  moreover have "0 < dec 11 (max (exponent a) (exponent b))" "0 < dec (int minMantissa) minExponent"
    by (simp_all add: iou_consts)
  ultimately have "iou_ok r \<and> \<bar>iou_value r - (iou_value a + iou_value b)\<bar>
      < dec 11 (max (exponent a) (exponent b)) + dec (int minMantissa) minExponent" by linarith
  then show ?thesis using assms(3) iou_add_commute_aux[OF assms(1,2)] by simp
next
  case False
  then show ?thesis using assms iou_add_commute_aux[OF assms(1,2)] iou_add_error_aux by metis
qed

text \<open>
  C16. The ratio of a normalised amount by 32-bit factors is within one unit of the last place of
  the exact quotient when that is not below the smallest amount, and never errs away from zero
  against the requested direction: rounding down a positive amount never exceeds the quotient,
  rounding up a negative one is never below it.
\<close>

theorem mulRatio_accurate:
  assumes "iou_ok amt" "num < 2 ^ 32" "0 < den" "den < 2 ^ 32"
    and "mulRatio amt num den up = Inr r"
    and "E = iou_value amt * of_nat num / of_nat den"
    and "dec (int minMantissa) minExponent \<le> \<bar>E\<bar>"
  shows "iou_ok r \<and> \<bar>iou_value r - E\<bar> < dec 1 (exponent r) \<and>
    (\<not> up \<and> 0 < E \<longrightarrow> iou_value r \<le> E) \<and> (up \<and> E < 0 \<longrightarrow> E \<le> iou_value r)"
proof -
  have "E \<noteq> 0" using assms(7) by (auto simp: iou_consts)
  then have nz: "mantissa amt \<noteq> 0" "0 < num" using assms(6) by auto
  have aE: "\<bar>E\<bar> = \<bar>iou_value amt\<bar> * of_nat num / of_nat den" by (simp add: assms(6) abs_mult)
  have sE: "E < 0 \<longleftrightarrow> mantissa amt < 0"
    using nz assms(3) by (simp add: assms(6) divide_less_0_iff mult_less_0_iff)
  note C = mulRatio_core[OF assms(1) nz(2) assms(2-4) nz(1) assms(5), folded aE, OF assms(7)]
  show ?thesis
  proof (cases "mantissa amt < 0")
    case True
    then have neg: "E < 0" "iou_value r < 0" using C sE by simp_all
    then show ?thesis using C[unfolded abs_of_neg[OF neg(1)] abs_of_neg[OF neg(2)]] True by auto
  next
    case False
    then have pos: "0 < E" "0 < iou_value r" using C sE \<open>E \<noteq> 0\<close> iou_ok_zero_iff[of r] by auto
    then show ?thesis using C[unfolded abs_of_pos[OF pos(1)] abs_of_pos[OF pos(2)]] False nz by auto
  qed
qed

subsection \<open>Witnesses\<close>

definition iou_a :: IOUAmount where "iou_a = \<lparr>mantissa = 1234567890123456, exponent = -10\<rparr>"
definition iou_b :: IOUAmount where "iou_b = \<lparr>mantissa = -5000000000000007, exponent = -13\<rparr>"

lemma iou_ab_ok: "iou_ok iou_a" "iou_ok iou_b"
  by (simp_all add: iou_ok_def iou_a_def iou_b_def iou_consts)

theorem iou_less_value_witness: "iou_value iou_b < iou_value iou_a"
  using iou_less_value[OF iou_ab_ok(2,1)] by (simp add: iou_less_def iou_a_def iou_b_def)

lemma iou_ab_sum: "iou_add iou_a iou_b = Inr \<lparr>mantissa = 1229567890123456, exponent = -10\<rparr>"
  by (simp add: iou_a_def iou_b_def iou_add_def iou_signum_def align.simps iou_normalize_def
      scale_up.simps scale_down.simps iou_consts apply_sign_def signed_divide_int_def)

theorem iou_add_accurate_witness:
  "iou_add iou_b iou_a = Inr \<lparr>mantissa = 1229567890123456, exponent = -10\<rparr>"
  using iou_add_accurate[OF iou_ab_ok iou_ab_sum] by simp

lemma log10Ceil_I: "k < 30 \<Longrightarrow> v \<le> 10 ^ k \<Longrightarrow> (0 < k \<Longrightarrow> 10 ^ (k - 1) < v) \<Longrightarrow> log10Ceil v = int k"
  by (simp add: log10Ceil_def lower_bound_powers)

lemma iou_a_ratio: "mulRatio iou_a 3 11 True = Inr \<lparr>mantissa = 3367003336700335, exponent = -11\<rparr>"
proof -
  have l: "log10Ceil 336700333670033 = 15" using log10Ceil_I[of 15 336700333670033] by simp
  have h: "log10Ceil 336700333670033454 = 18" using log10Ceil_I[of 18 336700333670033454] by simp
  show ?thesis
    by (simp add: mulRatio_def ratio_grow_unfold ratio_shrink_def fl64_18 iou_a_def l h iou_bool_def
        iou_normalize_def scale_up.simps scale_down.simps iou_consts apply_sign_def)
qed

theorem mulRatio_accurate_witness:
  "\<bar>iou_value \<lparr>mantissa = 3367003336700335, exponent = -11\<rparr> - iou_value iou_a * 3 / 11\<bar> < dec 1 (-11)"
proof -
  have "dec (int minMantissa) minExponent \<le> \<bar>iou_value iou_a * of_nat 3 / of_nat 11\<bar>"
    by (simp add: iou_value_def iou_a_def dec_def iou_consts power_int_minus)
  then show ?thesis using mulRatio_accurate[OF iou_ab_ok(1) _ _ _ iou_a_ratio refl] by simp
qed

text \<open>
  The mantissa of sixteen nines tripled leaves no remainder, so the request to round up is not
  acted on, yet the seventeen digits are cut to sixteen: the result is below the exact product.
\<close>

definition iou_nines :: IOUAmount where
  "iou_nines = \<lparr>mantissa = 9999999999999999, exponent = 0\<rparr>"

lemma mulRatio_roundUp_below:
  "\<exists>r. mulRatio iou_nines 3 1 True = Inr r \<and> iou_value r < iou_value iou_nines * 3"
proof -
  have l: "log10Ceil 29999999999999997 = 17" using log10Ceil_I[of 17 29999999999999997] by simp
  have "mulRatio iou_nines 3 1 True = Inr \<lparr>mantissa = 2999999999999999, exponent = 1\<rparr>"
    by (simp add: mulRatio_def ratio_grow_unfold ratio_shrink_def fl64_18 iou_nines_def l
        iou_normalize_def scale_up.simps scale_down.simps iou_consts apply_sign_def)
  then show ?thesis by (simp add: iou_value_def iou_nines_def dec_def)
qed

end
