(* ===== verification/Serializer.thy ===== *)
theory Serializer
  imports Prelude_Ripple
begin

text \<open>
  The binary format of the protocol, \<^verbatim>\<open>protocol/Serializer.h\<close> and
  \<^verbatim>\<open>protocol/impl/Serializer.cpp\<close>: the append-only writer \<^verbatim>\<open>Serializer\<close>, its
  offset-based readers, and the cursor \<^verbatim>\<open>SerialIter\<close>.  Bytes are 8-bit words, a
  \<^verbatim>\<open>base_uint\<close> is its bytes in memory order.  An exception is a left value; the
  offsets and lengths that callers pass are naturals, since negative ones are undefined in the
  source wherever they would get past its size checks.
\<close>

section \<open>Types\<close>

unbundle bit_operations_syntax

type_synonym byte = uint8
type_synonym blob = "byte list"

datatype throw = overflow_error string | runtime_error string | logic_error string

text \<open>Sequencing of operations that may throw.\<close>

definition andThen :: "throw + 'a \<Rightarrow> ('a \<Rightarrow> throw + 'b) \<Rightarrow> throw + 'b" where
  "andThen r f = (case r of Inl err \<Rightarrow> Inl err | Inr x \<Rightarrow> f x)"

lemma andThen_simps [simp]: "andThen (Inl err) f = Inl err" "andThen (Inr x) f = f x"
  by (simp_all add: andThen_def)

lemma andThen_eq_Inr [simp]:
  "andThen r f = Inr y \<longleftrightarrow> (\<exists>x. r = Inr x \<and> f x = Inr y)"
  by (cases r) simp_all

record Serializer =
  mData :: blob

section \<open>Writing\<close>

text \<open>Every writer returns the offset at which it wrote.\<close>

definition addRaw :: "blob \<Rightarrow> Serializer \<Rightarrow> nat \<times> Serializer" where
  "addRaw v s = (length (mData s), s\<lparr>mData := mData s @ v\<rparr>)"

definition addZeros :: "nat \<Rightarrow> Serializer \<Rightarrow> nat \<times> Serializer" where
  "addZeros n s = (length (mData s), s\<lparr>mData := mData s @ replicate n 0\<rparr>)"

definition bytes16 :: "16 word \<Rightarrow> blob" where
  "bytes16 i = [ucast (drop_bit 8 i), ucast (i AND 0xff)]"

definition bytes32 :: "uint32 \<Rightarrow> blob" where
  "bytes32 i = [ucast (drop_bit 24 i), ucast (drop_bit 16 i AND 0xff),
                ucast (drop_bit 8 i AND 0xff), ucast (i AND 0xff)]"

definition bytes64 :: "uint64 \<Rightarrow> blob" where
  "bytes64 i = [ucast (drop_bit 56 i), ucast (drop_bit 48 i AND 0xff),
                ucast (drop_bit 40 i AND 0xff), ucast (drop_bit 32 i AND 0xff),
                ucast (drop_bit 24 i AND 0xff), ucast (drop_bit 16 i AND 0xff),
                ucast (drop_bit 8 i AND 0xff), ucast (i AND 0xff)]"

definition add8 :: "byte \<Rightarrow> Serializer \<Rightarrow> nat \<times> Serializer" where
  "add8 b s = (length (mData s), s\<lparr>mData := mData s @ [b]\<rparr>)"

definition add16 :: "16 word \<Rightarrow> Serializer \<Rightarrow> nat \<times> Serializer" where
  "add16 i s = (length (mData s), s\<lparr>mData := mData s @ bytes16 i\<rparr>)"

definition add32 :: "uint32 \<Rightarrow> Serializer \<Rightarrow> nat \<times> Serializer" where
  "add32 i s = (length (mData s), s\<lparr>mData := mData s @ bytes32 i\<rparr>)"

definition add64 :: "uint64 \<Rightarrow> Serializer \<Rightarrow> nat \<times> Serializer" where
  "add64 i s = (length (mData s), s\<lparr>mData := mData s @ bytes64 i\<rparr>)"

definition addBitString :: "blob \<Rightarrow> Serializer \<Rightarrow> nat \<times> Serializer" where
  "addBitString v s = (length (mData s), s\<lparr>mData := mData s @ v\<rparr>)"

text \<open>\<^verbatim>\<open>add128\<close>, \<^verbatim>\<open>add160\<close> and \<^verbatim>\<open>add256\<close> are the same insertion of the value's bytes.\<close>

definition add128 :: "blob \<Rightarrow> Serializer \<Rightarrow> nat \<times> Serializer" where
  "add128 i s = (length (mData s), s\<lparr>mData := mData s @ i\<rparr>)"

definition add160 :: "blob \<Rightarrow> Serializer \<Rightarrow> nat \<times> Serializer" where
  "add160 i s = addBitString i s"

definition add256 :: "blob \<Rightarrow> Serializer \<Rightarrow> nat \<times> Serializer" where
  "add256 i s = (length (mData s), s\<lparr>mData := mData s @ i\<rparr>)"

text \<open>The type and name codes of a field; out of range the source asserts (\<^const>\<open>None\<close>).\<close>

definition fieldID_bytes :: "int \<Rightarrow> int \<Rightarrow> blob" where
  "fieldID_bytes type name =
     (if type < 16 then
        (if name < 16 then [word_of_int (push_bit 4 type OR name)]
         else [word_of_int (push_bit 4 type), word_of_int name])
      else if name < 16 then [word_of_int name, word_of_int type]
      else [0, word_of_int type, word_of_int name])"

definition addFieldID :: "int \<Rightarrow> int \<Rightarrow> Serializer \<Rightarrow> (nat \<times> Serializer) option" where
  "addFieldID type name s =
     (if 0 < type \<and> type < 256 \<and> 0 < name \<and> name < 256
      then Some (length (mData s), s\<lparr>mData := mData s @ fieldID_bytes type name\<rparr>)
      else None)"

section \<open>Variable-length data\<close>

definition encodeLengthLength :: "int \<Rightarrow> throw + int" where
  "encodeLengthLength len =
     (if len < 0 then Inl (overflow_error ''len<0'')
      else if len \<le> 192 then Inr 1
      else if len \<le> 12480 then Inr 2
      else if len \<le> 918744 then Inr 3
      else Inl (overflow_error ''len>918744''))"

definition lengthVL :: "int \<Rightarrow> throw + int" where
  "lengthVL len = andThen (encodeLengthLength len) (\<lambda>n. Inr (len + n))"

definition decodeLengthLength :: "int \<Rightarrow> throw + int" where
  "decodeLengthLength b1 =
     (if b1 < 0 then Inl (overflow_error ''b1<0'')
      else if b1 \<le> 192 then Inr 1
      else if b1 \<le> 240 then Inr 2
      else if b1 \<le> 254 then Inr 3
      else Inl (overflow_error ''b1>254''))"

definition decodeVLLength1 :: "int \<Rightarrow> throw + int" where
  "decodeVLLength1 b1 =
     (if b1 < 0 then Inl (overflow_error ''b1<0'')
      else if 254 < b1 then Inl (overflow_error ''b1>254'')
      else Inr b1)"

definition decodeVLLength2 :: "int \<Rightarrow> int \<Rightarrow> throw + int" where
  "decodeVLLength2 b1 b2 =
     (if b1 < 193 then Inl (overflow_error ''b1<193'')
      else if 240 < b1 then Inl (overflow_error ''b1>240'')
      else Inr (193 + (b1 - 193) * 256 + b2))"

definition decodeVLLength3 :: "int \<Rightarrow> int \<Rightarrow> int \<Rightarrow> throw + int" where
  "decodeVLLength3 b1 b2 b3 =
     (if b1 < 241 then Inl (overflow_error ''b1<241'')
      else if 254 < b1 then Inl (overflow_error ''b1>254'')
      else Inr (12481 + (b1 - 241) * 65536 + b2 * 256 + b3))"

text \<open>
  \<^verbatim>\<open>addEncoded\<close> writes one to three length bytes; the casts to \<^verbatim>\<open>unsigned char\<close> and the
  8-bit additions wrap.
\<close>

definition encoded_length :: "int \<Rightarrow> throw + blob" where
  "encoded_length len =
     (if len \<le> 192 then Inr [word_of_int len]
      else if len \<le> 12480 then
        (let l = len - 193 in
         Inr [193 + word_of_int (drop_bit 8 l), word_of_int (l AND 0xff)])
      else if len \<le> 918744 then
        (let l = len - 12481 in
         Inr [241 + word_of_int (drop_bit 16 l), word_of_int (drop_bit 8 l AND 0xff),
              word_of_int (l AND 0xff)])
      else Inl (overflow_error ''lenlen''))"

definition addEncoded :: "int \<Rightarrow> Serializer \<Rightarrow> throw + (nat \<times> Serializer)" where
  "addEncoded len s = andThen (encoded_length len) (\<lambda>bs. Inr (addRaw bs s))"

definition addVL :: "blob \<Rightarrow> Serializer \<Rightarrow> throw + (nat \<times> Serializer)" where
  "addVL v s =
     andThen (addEncoded (int (length v)) s) (\<lambda>(ret, s1).
       let s2 = (if v \<noteq> [] then snd (addRaw v s1) else s1) in Inr (ret, s2))"

text \<open>The overload for a range of slices, whose total length the caller states.\<close>

definition addVL_range :: "blob list \<Rightarrow> int \<Rightarrow> Serializer \<Rightarrow> throw + (nat \<times> Serializer)" where
  "addVL_range slices len s =
     andThen (addEncoded len s) (\<lambda>(ret, s1).
       Inr (ret, fold (\<lambda>v s. snd (addRaw v s)) slices s1))"

section \<open>Reading at an offset\<close>

definition ser_get8 :: "Serializer \<Rightarrow> nat \<Rightarrow> int option" where
  "ser_get8 s off = (if length (mData s) \<le> off then None else Some (uint (mData s ! off)))"

definition getBitString :: "nat \<Rightarrow> Serializer \<Rightarrow> nat \<Rightarrow> blob option" where
  "getBitString n s off =
     (if off + n \<le> length (mData s) then Some (take n (drop off (mData s))) else None)"

definition ser_get256 :: "Serializer \<Rightarrow> nat \<Rightarrow> blob option" where
  "ser_get256 s off =
     (if length (mData s) < off + 32 then None else Some (take 32 (drop off (mData s))))"

text \<open>\<^verbatim>\<open>getInteger\<close>: shift the bytes in one after the other.\<close>

definition shift_in :: "'a::len word \<Rightarrow> byte \<Rightarrow> 'a word" where
  "shift_in n b = push_bit 8 n OR ucast b"

definition getInteger :: "Serializer \<Rightarrow> nat \<Rightarrow> ('a::len word) option" where
  "getInteger s off =
     (let n = LENGTH('a) div 8 in
      if length (mData s) < off + n then None
      else Some (foldl shift_in 0 (take n (drop off (mData s)))))"

definition chop :: "nat \<Rightarrow> Serializer \<Rightarrow> bool \<times> Serializer" where
  "chop n s =
     (if length (mData s) < n then (False, s)
      else (True, s\<lparr>mData := take (length (mData s) - n) (mData s)\<rparr>))"

definition ser_getRaw :: "Serializer \<Rightarrow> nat \<Rightarrow> nat \<Rightarrow> blob option" where
  "ser_getRaw s off len =
     (if length (mData s) < off + len then None else Some (take len (drop off (mData s))))"

text \<open>
  \<^verbatim>\<open>getVL\<close> and \<^verbatim>\<open>getVLLength\<close> share the decoding of the length.  The call of
  \<^verbatim>\<open>decodeLengthLength\<close> stands before the \<^verbatim>\<open>try\<close> block, so its exception leaves the
  function; an exception of \<^verbatim>\<open>decodeVLLength\<close> is caught and becomes \<^const>\<open>None\<close>.  The result
  is the length of the length bytes, the length of the data and the offset after the length.
\<close>

definition caught :: "throw + 'a \<Rightarrow> 'a option" where
  "caught r = (case r of Inl _ \<Rightarrow> None | Inr x \<Rightarrow> Some x)"

definition vl_header :: "Serializer \<Rightarrow> nat \<Rightarrow> throw + (int \<times> int \<times> nat) option" where
  "vl_header s off =
     (case ser_get8 s off of
        None \<Rightarrow> Inr None
      | Some b1 \<Rightarrow>
          andThen (decodeLengthLength b1) (\<lambda>lenLen.
            Inr (if lenLen = 1 then
                   map_option (\<lambda>d. (lenLen, d, off + 1)) (caught (decodeVLLength1 b1))
                 else if lenLen = 2 then
                   (case ser_get8 s (off + 1) of
                      None \<Rightarrow> None
                    | Some b2 \<Rightarrow>
                        map_option (\<lambda>d. (lenLen, d, off + 2)) (caught (decodeVLLength2 b1 b2)))
                 else if lenLen = 3 then
                   (case ser_get8 s (off + 1) of
                      None \<Rightarrow> None
                    | Some b2 \<Rightarrow>
                        (case ser_get8 s (off + 2) of
                           None \<Rightarrow> None
                         | Some b3 \<Rightarrow>
                             map_option (\<lambda>d. (lenLen, d, off + 3))
                               (caught (decodeVLLength3 b1 b2 b3))))
                 else None)))"

definition ser_getVL :: "Serializer \<Rightarrow> nat \<Rightarrow> throw + (blob \<times> int) option" where
  "ser_getVL s off =
     andThen (vl_header s off) (\<lambda>h.
       case h of
         None \<Rightarrow> Inr None
       | Some (lenLen, datLen, off') \<Rightarrow>
           Inr (map_option (\<lambda>v. (v, lenLen + datLen)) (ser_getRaw s off' (nat datLen))))"

definition getVLLength :: "Serializer \<Rightarrow> nat \<Rightarrow> throw + int option" where
  "getVLLength s off =
     andThen (vl_header s off) (\<lambda>h. Inr (map_option (\<lambda>(_, datLen, _). datLen) h))"

section \<open>The cursor\<close>

text \<open>
  \<^verbatim>\<open>p_\<close> is an offset into the buffer that the iterator was made from.
\<close>

record SerialIter =
  sit_buf :: blob
  sit_p :: nat
  sit_remain :: nat
  sit_used :: nat

definition newSerialIter :: "blob \<Rightarrow> SerialIter" where
  "newSerialIter b = \<lparr>sit_buf = b, sit_p = 0, sit_remain = length b, sit_used = 0\<rparr>"

definition sit_empty :: "SerialIter \<Rightarrow> bool" where
  "sit_empty it \<longleftrightarrow> sit_remain it = 0"

definition getBytesLeft :: "SerialIter \<Rightarrow> nat" where
  "getBytesLeft it = sit_remain it"

definition sit_reset :: "SerialIter \<Rightarrow> SerialIter" where
  "sit_reset it = it\<lparr>sit_p := sit_p it - sit_used it, sit_remain := sit_remain it + sit_used it, sit_used := 0\<rparr>"

text \<open>The three assignments with which every reader moves on.\<close>

definition advance_by :: "nat \<Rightarrow> SerialIter \<Rightarrow> SerialIter" where
  "advance_by n it = it\<lparr>sit_p := sit_p it + n, sit_used := sit_used it + n, sit_remain := sit_remain it - n\<rparr>"

definition sit_skip :: "nat \<Rightarrow> SerialIter \<Rightarrow> throw + SerialIter" where
  "sit_skip n it =
     (if sit_remain it < n then Inl (runtime_error ''invalid SerialIter skip'')
      else Inr (advance_by n it))"

definition sit_get8 :: "SerialIter \<Rightarrow> throw + byte \<times> SerialIter" where
  "sit_get8 it =
     (if sit_remain it < 1 then Inl (runtime_error ''invalid SerialIter get8'')
      else Inr (sit_buf it ! sit_p it, advance_by 1 it))"

definition sit_get16 :: "SerialIter \<Rightarrow> throw + 16 word \<times> SerialIter" where
  "sit_get16 it =
     (if sit_remain it < 2 then Inl (runtime_error ''invalid SerialIter get16'')
      else
        let t = (\<lambda>i. ucast (sit_buf it ! (sit_p it + i)) :: uint64) in
        Inr (ucast (push_bit 8 (t 0) + t 1), advance_by 2 it))"

definition sit_get32 :: "SerialIter \<Rightarrow> throw + uint32 \<times> SerialIter" where
  "sit_get32 it =
     (if sit_remain it < 4 then Inl (runtime_error ''invalid SerialIter get32'')
      else
        let t = (\<lambda>i. ucast (sit_buf it ! (sit_p it + i)) :: uint64) in
        Inr (ucast (push_bit 24 (t 0) + push_bit 16 (t 1) + push_bit 8 (t 2) + t 3),
             advance_by 4 it))"

definition sit_get64 :: "SerialIter \<Rightarrow> throw + uint64 \<times> SerialIter" where
  "sit_get64 it =
     (if sit_remain it < 8 then Inl (runtime_error ''invalid SerialIter get64'')
      else
        let t = (\<lambda>i. ucast (sit_buf it ! (sit_p it + i)) :: uint64) in
        Inr (push_bit 56 (t 0) + push_bit 48 (t 1) + push_bit 40 (t 2) + push_bit 32 (t 3) +
             push_bit 24 (t 4) + push_bit 16 (t 5) + push_bit 8 (t 6) + t 7, advance_by 8 it))"

text \<open>\<^verbatim>\<open>getBitString<Bits>\<close> with \<open>n = Bits / 8\<close>.\<close>

definition sit_getBitString :: "nat \<Rightarrow> SerialIter \<Rightarrow> throw + blob \<times> SerialIter" where
  "sit_getBitString n it =
     (if sit_remain it < n then Inl (runtime_error ''invalid SerialIter getBitString'')
      else Inr (take n (drop (sit_p it) (sit_buf it)), advance_by n it))"

definition sit_get128 :: "SerialIter \<Rightarrow> throw + blob \<times> SerialIter" where
  "sit_get128 it = sit_getBitString 16 it"

definition sit_get160 :: "SerialIter \<Rightarrow> throw + blob \<times> SerialIter" where
  "sit_get160 it = sit_getBitString 20 it"

definition sit_get256 :: "SerialIter \<Rightarrow> throw + blob \<times> SerialIter" where
  "sit_get256 it = sit_getBitString 32 it"

definition getFieldID :: "SerialIter \<Rightarrow> throw + (int \<times> int) \<times> SerialIter" where
  "getFieldID it =
     andThen (sit_get8 it) (\<lambda>(b, it1).
       let name0 = uint b AND 15; type0 = drop_bit 4 (uint b) in
       andThen
         (if type0 = 0 then
            andThen (sit_get8 it1) (\<lambda>(t, it2).
              if uint t = 0 \<or> uint t < 16
              then Inl (runtime_error ''gFID: uncommon type out of range '')
              else Inr (uint t, it2))
          else Inr (type0, it1))
         (\<lambda>(type, it2).
            andThen
              (if name0 = 0 then
                 andThen (sit_get8 it2) (\<lambda>(t, it3).
                   if uint t = 0 \<or> uint t < 16
                   then Inl (runtime_error ''gFID: uncommon name out of range '')
                   else Inr (uint t, it3))
               else Inr (name0, it2))
              (\<lambda>(name, it3). Inr ((type, name), it3))))"

definition sit_getRaw :: "nat \<Rightarrow> SerialIter \<Rightarrow> throw + blob \<times> SerialIter" where
  "sit_getRaw n it =
     (if sit_remain it < n then Inl (runtime_error ''invalid SerialIter getRaw'')
      else if n \<noteq> 0 then Inr (take n (drop (sit_p it) (sit_buf it)), advance_by n it)
      else Inr ([], it))"

definition getVLDataLength :: "SerialIter \<Rightarrow> throw + int \<times> SerialIter" where
  "getVLDataLength it =
     andThen (sit_get8 it) (\<lambda>(b1, it1).
       andThen (decodeLengthLength (uint b1)) (\<lambda>lenLen.
         if lenLen = 1 then
           andThen (decodeVLLength1 (uint b1)) (\<lambda>d. Inr (d, it1))
         else if lenLen = 2 then
           andThen (sit_get8 it1) (\<lambda>(b2, it2).
             andThen (decodeVLLength2 (uint b1) (uint b2)) (\<lambda>d. Inr (d, it2)))
         else
           andThen (sit_get8 it1) (\<lambda>(b2, it2).
             andThen (sit_get8 it2) (\<lambda>(b3, it3).
               andThen (decodeVLLength3 (uint b1) (uint b2) (uint b3)) (\<lambda>d. Inr (d, it3))))))"

definition getSlice :: "nat \<Rightarrow> SerialIter \<Rightarrow> throw + blob \<times> SerialIter" where
  "getSlice n it =
     (if sit_remain it < n then Inl (runtime_error ''invalid SerialIter getSlice'')
      else Inr (take n (drop (sit_p it) (sit_buf it)), advance_by n it))"

text \<open>\<^verbatim>\<open>getVL\<close> and \<^verbatim>\<open>getVLBuffer\<close> differ in the type of buffer they return.\<close>

definition sit_getVL :: "SerialIter \<Rightarrow> throw + blob \<times> SerialIter" where
  "sit_getVL it = andThen (getVLDataLength it) (\<lambda>(d, it1). sit_getRaw (nat d) it1)"

end
