(* ===== verification/Serializer_Correct.thy ===== *)
theory Serializer_Correct
  imports Serializer
begin

text \<open>
  Round trips of the binary format.  The locale \<open>wire_codec\<close> is the contract between a writer's
  bytes and a reader of the cursor; every primitive of the format interprets it, and what is
  proved in it once (reading from the start of a buffer, reading sequences) holds for all.
\<close>

section \<open>The cursor's invariant\<close>

definition sit_ok :: "SerialIter \<Rightarrow> bool" where
  "sit_ok it \<longleftrightarrow> sit_p it = sit_used it \<and> sit_used it + sit_remain it = length (sit_buf it)"

definition unread :: "SerialIter \<Rightarrow> blob" where
  "unread it = drop (sit_p it) (sit_buf it)"

lemma newSerialIter_ok [simp]: "sit_ok (newSerialIter b)" "unread (newSerialIter b) = b"
  by (simp_all add: sit_ok_def unread_def newSerialIter_def)

lemma length_unread [simp]: "sit_ok it \<Longrightarrow> length (unread it) = sit_remain it"
  by (auto simp: sit_ok_def unread_def)

lemma advance_by_ok:
  assumes "sit_ok it" "n \<le> sit_remain it"
  shows "sit_ok (advance_by n it)" "unread (advance_by n it) = drop n (unread it)"
  using assms by (auto simp: sit_ok_def unread_def advance_by_def add.commute)

lemma advance_by_add [simp]: "advance_by m (advance_by n it) = advance_by (n + m) it"
  by (simp add: advance_by_def)

lemma advance_by_0 [simp]: "advance_by 0 it = it"
  by (simp add: advance_by_def)

lemma sit_nth:
  assumes "sit_ok it" "unread it = bs @ rest" "i < length bs"
  shows "sit_buf it ! (sit_p it + i) = bs ! i"
proof -
  have "sit_buf it ! (sit_p it + i) = unread it ! i"
    using assms by (simp add: unread_def sit_ok_def) (metis length_append length_drop nth_drop le_add1)
  then show ?thesis using assms by (simp add: nth_append)
qed

lemma sit_take:
  assumes "unread it = bs @ rest"
  shows "take (length bs) (drop (sit_p it) (sit_buf it)) = bs"
  using assms by (simp add: unread_def)

lemma sit_remain_ge:
  assumes "sit_ok it" "unread it = bs @ rest"
  shows "length bs \<le> sit_remain it"
  using assms by (metis length_append length_unread le_add1)

section \<open>The contract of a codec\<close>

locale wire_codec =
  fixes enc :: "'a \<Rightarrow> blob" and get :: "SerialIter \<Rightarrow> throw + 'a \<times> SerialIter" and ok :: "'a \<Rightarrow> bool"
  assumes get_enc: "ok x \<Longrightarrow> sit_ok it \<Longrightarrow> unread it = enc x @ rest \<Longrightarrow>
    get it = Inr (x, advance_by (length (enc x)) it)"
begin

lemma get_enc_ok:
  assumes "ok x" "sit_ok it" "unread it = enc x @ rest"
  obtains it' where "get it = Inr (x, it')" "sit_ok it'" "unread it' = rest"
proof
  have "length (enc x) \<le> sit_remain it" using assms(2,3) by (rule sit_remain_ge)
  then show "get it = Inr (x, advance_by (length (enc x)) it)"
    "sit_ok (advance_by (length (enc x)) it)" "unread (advance_by (length (enc x)) it) = rest"
    using get_enc[OF assms] advance_by_ok[OF assms(2)] assms(3) by simp_all
qed

lemma get_new:
  assumes "ok x"
  shows "\<exists>it. get (newSerialIter (enc x)) = Inr (x, it) \<and> sit_empty it"
proof -
  obtain it where "get (newSerialIter (enc x)) = Inr (x, it)" "sit_ok it" "unread it = []"
    using get_enc_ok[OF assms, of "newSerialIter (enc x)" "[]"] by auto
  then show ?thesis using length_unread[of it] by (auto simp: sit_empty_def)
qed

text \<open>Values written one after the other are read back in order.\<close>

primrec get_many :: "nat \<Rightarrow> SerialIter \<Rightarrow> throw + 'a list \<times> SerialIter" where
  "get_many 0 it = Inr ([], it)"
| "get_many (Suc n) it =
     andThen (get it) (\<lambda>(x, it1). andThen (get_many n it1) (\<lambda>(xs, it2). Inr (x # xs, it2)))"

lemma get_many_enc:
  assumes "list_all ok xs" "sit_ok it" "unread it = concat (map enc xs) @ rest"
  shows "\<exists>it'. get_many (length xs) it = Inr (xs, it') \<and> sit_ok it' \<and> unread it' = rest"
  using assms
proof (induction xs arbitrary: it)
  case Nil
  then show ?case by simp
next
  case (Cons x xs)
  then obtain it1 where "get it = Inr (x, it1)" "sit_ok it1" "unread it1 = concat (map enc xs) @ rest"
    using get_enc_ok[of x it "concat (map enc xs) @ rest"] by auto
  then show ?case using Cons.IH[of it1] Cons.prems by auto
qed

text \<open>What is written determines what was written.\<close>

lemma enc_inj:
  assumes "ok x" "ok y" "enc x @ r = enc y @ s"
  shows "x = y \<and> r = s"
proof -
  let ?it = "newSerialIter (enc x @ r)"
  have "get ?it = Inr (x, advance_by (length (enc x)) ?it)" using assms(1) by (intro get_enc[where rest = r]) simp_all
  moreover have "get ?it = Inr (y, advance_by (length (enc y)) ?it)"
    using assms(2,3) by (intro get_enc[where rest = s]) simp_all
  ultimately have "x = y" by simp
  then show ?thesis using assms(3) by simp
qed

end

text \<open>
  A codec is canonical when the reader accepts nothing but what the writer writes; then what was
  read determines the bytes that were read.
\<close>

locale canonical_codec = wire_codec +
  assumes complete: "sit_ok it \<Longrightarrow> get it = Inr r \<Longrightarrow> \<exists>x rest. ok x \<and> unread it = enc x @ rest"
begin

lemma get_canonical:
  assumes "sit_ok it" "get it = Inr (x, it')"
  shows "ok x" "unread it = enc x @ unread it'" "sit_ok it'"
proof -
  obtain y rest where y: "ok y" "unread it = enc y @ rest" using complete[OF assms] by blast
  obtain it2 where "get it = Inr (y, it2)" "sit_ok it2" "unread it2 = rest"
    using get_enc_ok[OF y(1) assms(1) y(2)] by blast
  then show "ok x" "unread it = enc x @ unread it'" "sit_ok it'" using y assms(2) by auto
qed

end

text \<open>Two codecs in sequence are a codec of pairs.\<close>

definition get_pair :: "(SerialIter \<Rightarrow> throw + 'a \<times> SerialIter) \<Rightarrow> (SerialIter \<Rightarrow> throw + 'b \<times> SerialIter) \<Rightarrow>
    SerialIter \<Rightarrow> throw + ('a \<times> 'b) \<times> SerialIter" where
  "get_pair g h it = andThen (g it) (\<lambda>(x, it1). andThen (h it1) (\<lambda>(y, it2). Inr ((x, y), it2)))"

definition enc_pair :: "('a \<Rightarrow> blob) \<Rightarrow> ('b \<Rightarrow> blob) \<Rightarrow> 'a \<times> 'b \<Rightarrow> blob" where
  "enc_pair e f = (\<lambda>(x, y). e x @ f y)"

definition ok_pair :: "('a \<Rightarrow> bool) \<Rightarrow> ('b \<Rightarrow> bool) \<Rightarrow> 'a \<times> 'b \<Rightarrow> bool" where
  "ok_pair p q = (\<lambda>(x, y). p x \<and> q y)"

lemma pair_codec:
  assumes a: "wire_codec e g p" and b: "wire_codec f h q"
  shows "wire_codec (enc_pair e f) (get_pair g h) (ok_pair p q)"
proof (unfold_locales, clarify)
  fix x y it rest
  assume ok: "ok_pair p q (x, y)" "sit_ok it" "unread it = enc_pair e f (x, y) @ rest"
  then have u: "p x" "q y" "unread it = e x @ f y @ rest" by (simp_all add: ok_pair_def enc_pair_def)
  have n: "length (e x) \<le> sit_remain it" using ok(2) u(3) by (rule sit_remain_ge)
  have "h (advance_by (length (e x)) it) = Inr (y, advance_by (length (f y)) (advance_by (length (e x)) it))"
    using u advance_by_ok[OF ok(2) n] by (intro wire_codec.get_enc[OF b, where rest = rest]) simp_all
  then show "get_pair g h it = Inr ((x, y), advance_by (length (enc_pair e f (x, y))) it)"
    using wire_codec.get_enc[OF a u(1) ok(2) u(3)] by (simp add: get_pair_def enc_pair_def)
qed

section \<open>Integers\<close>

lemma ucast_and_byte: "ucast (x AND 0xff) = (ucast x :: byte)" for x :: "'a::len word"
proof -
  have "(0xff :: 'a word) = mask 8" by (simp add: mask_eq_exp_minus_1)
  moreover have "ucast (x AND mask 8) = (ucast x :: byte)"
    by (intro bit_word_eqI) (auto simp: bit_simps bit_imp_le_length)
  ultimately show ?thesis by (simp only:)
qed

lemma unat_byte: "unat (ucast x :: byte) = unat x mod 256" for x :: "'a::len word"
  by (simp add: unsigned_ucast_eq take_bit_eq_mod)

lemma unat_drop_bit_div: "unat (drop_bit k x) = unat x div 2 ^ k" for x :: "'a::len word"
  by (rule trans[OF unat_drop_bit_eq drop_bit_eq_div])

text \<open>Base-256 digits of a number, most significant first.\<close>

lemma div_mod_256: "n div 2 ^ k = 256 * (n div 2 ^ (k + 8)) + n div 2 ^ k mod (256::nat)"
proof -
  have "n div 2 ^ (k + 8) = n div 2 ^ k div 256" by (simp add: power_add div_mult2_eq)
  then show ?thesis by (simp add: mult_div_mod_eq)
qed

lemma horner4:
  assumes "n = 256 * q1 + r0" "q1 = 256 * q2 + r1" "q2 = 256 * q3 + r2" "q3 = 256 * q4 + (r3::nat)"
  shows "q4 * 2 ^ 32 + r3 * 2 ^ 24 + r2 * 2 ^ 16 + r1 * 2 ^ 8 + r0 = n"
  using assms by simp

lemma base256_4':
  "n div 2 ^ (k + 32) * 2 ^ 32 + n div 2 ^ (k + 24) mod 256 * 2 ^ 24 + n div 2 ^ (k + 16) mod 256 * 2 ^ 16 +
    n div 2 ^ (k + 8) mod 256 * 2 ^ 8 + n div 2 ^ k mod 256 = (n div 2 ^ k :: nat)"
proof (rule horner4)
  show "n div 2 ^ k = 256 * (n div 2 ^ (k + 8)) + n div 2 ^ k mod 256" by (rule div_mod_256)
  have a: "k + 8 + 8 = k + 16" "k + 16 + 8 = k + 24" "k + 24 + 8 = k + 32" by simp_all
  show "n div 2 ^ (k + 8) = 256 * (n div 2 ^ (k + 16)) + n div 2 ^ (k + 8) mod 256"
    "n div 2 ^ (k + 16) = 256 * (n div 2 ^ (k + 24)) + n div 2 ^ (k + 16) mod 256"
    "n div 2 ^ (k + 24) = 256 * (n div 2 ^ (k + 32)) + n div 2 ^ (k + 24) mod 256"
    using div_mod_256[of n "k + 8"] div_mod_256[of n "k + 16"] div_mod_256[of n "k + 24"]
    unfolding a by this+
qed

lemma base256_4:
  assumes "n < 2 ^ 32"
  shows "n div 2 ^ 24 mod 256 * 2 ^ 24 + n div 2 ^ 16 mod 256 * 2 ^ 16 +
    n div 2 ^ 8 mod 256 * 2 ^ 8 + n mod 256 = (n::nat)"
proof -
  have "n div 2 ^ 32 = 0" using assms by simp
  then show ?thesis using base256_4'[of n 0] by (simp only: add_0 power_0 div_by_1 mult_0)
qed

lemma base256_2:
  assumes "n < 2 ^ 16"
  shows "n div 2 ^ 8 mod 256 * 2 ^ 8 + n mod 256 = (n::nat)"
proof -
  have "n div 2 ^ 16 = 0" "n div 2 ^ 24 = 0" using assms by simp_all
  moreover have "n < 2 ^ 32" using assms by simp
  ultimately show ?thesis using base256_4[of n] by (simp only: mod_0 mult_0 add_0)
qed

lemma base256_8:
  assumes "n < 2 ^ 64"
  shows "n div 2 ^ 56 mod 256 * 2 ^ 56 + n div 2 ^ 48 mod 256 * 2 ^ 48 +
    n div 2 ^ 40 mod 256 * 2 ^ 40 + n div 2 ^ 32 mod 256 * 2 ^ 32 +
    n div 2 ^ 24 mod 256 * 2 ^ 24 + n div 2 ^ 16 mod 256 * 2 ^ 16 +
    n div 2 ^ 8 mod 256 * 2 ^ 8 + n mod 256 = (n::nat)"
proof -
  have z: "n div 2 ^ 64 = 0" using assms by simp
  have e: "32 + 8 = (40::nat)" "32 + 16 = (48::nat)" "32 + 24 = (56::nat)" "32 + 32 = (64::nat)" by simp_all
  have h: "n div 2 ^ 56 mod 256 * 2 ^ 24 + n div 2 ^ 48 mod 256 * 2 ^ 16 +
      n div 2 ^ 40 mod 256 * 2 ^ 8 + n div 2 ^ 32 mod 256 = n div 2 ^ 32"
    using base256_4'[of n 32] by (simp only: e z mult_0 add_0)
  have p: "(2::nat) ^ 56 = 2 ^ 24 * 2 ^ 32" "(2::nat) ^ 48 = 2 ^ 16 * 2 ^ 32" "(2::nat) ^ 40 = 2 ^ 8 * 2 ^ 32"
    by simp_all
  have "n div 2 ^ 56 mod 256 * 2 ^ 56 + n div 2 ^ 48 mod 256 * 2 ^ 48 + n div 2 ^ 40 mod 256 * 2 ^ 40 +
      n div 2 ^ 32 mod 256 * 2 ^ 32 = n div 2 ^ 32 * 2 ^ 32"
    using arg_cong[OF h, of "\<lambda>z. z * 2 ^ 32"] by (simp only: distrib_right mult.assoc p[symmetric])
  then show ?thesis using base256_4'[of n 0] by (simp only: add_0 power_0 div_by_1 add.assoc)
qed

lemma push_of_nat: "push_bit k (of_nat n) = (of_nat (n * 2 ^ k) :: 'a::len word)"
  by (simp add: push_bit_eq_mult)

lemma plain_byte: "ucast b = (of_nat (unat b) :: 'a::len word)" for b :: byte
  by simp

lemmas be_word = plain_byte push_of_nat of_nat_add[symmetric] unat_byte ucast_and_byte unat_drop_bit_div

lemma list_nth:
  "[a] ! 0 = a" "(a # xs) ! 1 = xs ! 0" "(a # b # xs) ! 2 = xs ! 0" "(a # b # c # xs) ! 3 = xs ! 0"
  "(a # b # c # d # xs) ! 4 = xs ! 0" "(a # b # c # d # e # xs) ! 5 = xs ! 0"
  "(a # b # c # d # e # f # xs) ! 6 = xs ! 0" "(a # b # c # d # e # f # g # xs) ! 7 = xs ! 0"
  "(a # xs) ! 0 = a"
  by (simp_all add: numeral_nat)

lemma unat_lt64: "unat (x :: uint64) < 2 ^ 64"
  using unsigned_less[of x] by simp

lemma word64_of_bytes:
  "(let t = (\<lambda>i. ucast (bytes64 x ! i)) in
    push_bit 56 (t 0) + push_bit 48 (t 1) + push_bit 40 (t 2) + push_bit 32 (t 3) +
    push_bit 24 (t 4) + push_bit 16 (t 5) + push_bit 8 (t 6) + t 7) = (x :: uint64)"
  unfolding Let_def bytes64_def
  by (simp only: be_word list_nth base256_8[OF unat_lt64] of_nat_unat ucast_id)

lemma word32_of_bytes:
  "ucast (let t = (\<lambda>i. ucast (bytes32 x ! i) :: uint64) in
    push_bit 24 (t 0) + push_bit 16 (t 1) + push_bit 8 (t 2) + t 3) = (x :: uint32)"
proof -
  have "unat x < 2 ^ 32" using unsigned_less[of x] by simp
  then show ?thesis unfolding Let_def bytes32_def
    by (simp only: be_word list_nth base256_4) (simp add: ucast_up_ucast_id is_up)
qed

lemma word16_of_bytes:
  "ucast (let t = (\<lambda>i. ucast (bytes16 x ! i) :: uint64) in push_bit 8 (t 0) + t 1) = (x :: 16 word)"
proof -
  have "unat x < 2 ^ 16" using unsigned_less[of x] by simp
  then show ?thesis unfolding Let_def bytes16_def
    by (simp only: be_word list_nth base256_2) (simp add: ucast_up_ucast_id is_up)
qed

lemma length_bytes [simp]: "length (bytes16 a) = 2" "length (bytes32 b) = 4" "length (bytes64 c) = 8"
  by (simp_all add: bytes16_def bytes32_def bytes64_def)

interpretation c8: wire_codec "\<lambda>b. [b]" sit_get8 "\<lambda>_. True"
proof
  fix x it rest
  assume "sit_ok it" "unread it = [x] @ rest"
  then show "sit_get8 it = Inr (x, advance_by (length [x]) it)"
    using sit_nth[of it "[x]" rest 0] sit_remain_ge[of it "[x]" rest] by (simp add: sit_get8_def)
qed

interpretation c16: wire_codec bytes16 sit_get16 "\<lambda>_. True"
proof
  fix x it rest
  assume a: "sit_ok it" "unread it = bytes16 x @ rest"
  have "2 \<le> sit_remain it" using sit_remain_ge[OF a] by simp
  then show "sit_get16 it = Inr (x, advance_by (length (bytes16 x)) it)"
    using word16_of_bytes[of x] sit_nth[OF a, of 0] sit_nth[OF a, of 1]
    by (simp add: sit_get16_def Let_def)
qed

interpretation c32: wire_codec bytes32 sit_get32 "\<lambda>_. True"
proof
  fix x it rest
  assume a: "sit_ok it" "unread it = bytes32 x @ rest"
  have "4 \<le> sit_remain it" using sit_remain_ge[OF a] by simp
  then show "sit_get32 it = Inr (x, advance_by (length (bytes32 x)) it)"
    using word32_of_bytes[of x] sit_nth[OF a, of 0] sit_nth[OF a, of 1] sit_nth[OF a, of 2] sit_nth[OF a, of 3]
    by (simp add: sit_get32_def Let_def)
qed

interpretation c64: wire_codec bytes64 sit_get64 "\<lambda>_. True"
proof
  fix x it rest
  assume a: "sit_ok it" "unread it = bytes64 x @ rest"
  have "8 \<le> sit_remain it" using sit_remain_ge[OF a] by simp
  then show "sit_get64 it = Inr (x, advance_by (length (bytes64 x)) it)"
    using word64_of_bytes[of x] sit_nth[OF a, of 0] sit_nth[OF a, of 1] sit_nth[OF a, of 2] sit_nth[OF a, of 3] sit_nth[OF a, of 4] sit_nth[OF a, of 5] sit_nth[OF a, of 6] sit_nth[OF a, of 7]
    by (simp add: sit_get64_def Let_def)
qed

interpretation c160: wire_codec "\<lambda>v. v" sit_get160 "\<lambda>v. length v = 20"
proof
  fix x it rest
  assume a: "length x = 20" "sit_ok it" "unread it = x @ rest"
  then show "sit_get160 it = Inr (x, advance_by (length x) it)"
    using sit_remain_ge[of it x rest] sit_take[of it x rest]
    by (simp add: sit_get160_def sit_getBitString_def)
qed

interpretation c256: wire_codec "\<lambda>v. v" sit_get256 "\<lambda>v. length v = 32"
proof
  fix x it rest
  assume a: "length x = 32" "sit_ok it" "unread it = x @ rest"
  then show "sit_get256 it = Inr (x, advance_by (length x) it)"
    using sit_remain_ge[of it x rest] sit_take[of it x rest]
    by (simp add: sit_get256_def sit_getBitString_def)
qed

text \<open>
  Every string of the right length is the encoding of a word, by counting: the encoding is
  injective.
\<close>

lemma words_fill:
  fixes enc :: "'a::len word \<Rightarrow> blob"
  assumes "inj enc" "\<And>w. length (enc w) = n" "LENGTH('a) = 8 * n" "length t = n"
  shows "\<exists>w. enc w = t"
proof -
  let ?B = "{t :: blob. length t = n}"
  have f: "finite ?B" "card ?B = 2 ^ (8 * n)"
    using finite_lists_length_eq[of "UNIV :: byte set" n] card_lists_length_eq[of "UNIV :: byte set" n]
    by (simp_all add: card_word power_mult)
  have "card (range enc) = 2 ^ (8 * n)" using assms(1,3) by (simp add: card_image card_word)
  moreover have "range enc \<subseteq> ?B" using assms(2) by auto
  ultimately have "range enc = ?B" using f by (simp add: card_subset_eq)
  then have "t \<in> range enc" using assms(4) by simp
  then show ?thesis by auto
qed

lemma bytes_inj: "inj bytes64" "inj bytes32" "inj bytes16"
  using c64.enc_inj[where r = "[]" and s = "[]"] c32.enc_inj[where r = "[]" and s = "[]"]
    c16.enc_inj[where r = "[]" and s = "[]"]
  by (auto intro!: injI)

lemma take_drop_unread: "n \<le> sit_remain it \<Longrightarrow> sit_ok it \<Longrightarrow> \<exists>t rest. unread it = t @ rest \<and> length t = n"
  by (metis append_take_drop_id length_take length_unread min.absorb2)

interpretation c64: canonical_codec bytes64 sit_get64 "\<lambda>_. True"
proof
  fix it r
  assume a: "sit_ok it" "sit_get64 it = Inr r"
  have "8 \<le> sit_remain it" using a(2) by (auto simp: sit_get64_def split: if_splits)
  then show "\<exists>x rest. True \<and> unread it = bytes64 x @ rest"
    using take_drop_unread[OF _ a(1)] words_fill[OF bytes_inj(1), of 8] by fastforce
qed

interpretation c32: canonical_codec bytes32 sit_get32 "\<lambda>_. True"
proof
  fix it r
  assume a: "sit_ok it" "sit_get32 it = Inr r"
  have "4 \<le> sit_remain it" using a(2) by (auto simp: sit_get32_def split: if_splits)
  then show "\<exists>x rest. True \<and> unread it = bytes32 x @ rest"
    using take_drop_unread[OF _ a(1)] words_fill[OF bytes_inj(2), of 4] by fastforce
qed

interpretation c160: canonical_codec "\<lambda>v. v" sit_get160 "\<lambda>v. length v = 20"
proof
  fix it r
  assume a: "sit_ok it" "sit_get160 it = Inr r"
  have "20 \<le> sit_remain it" using a(2) by (auto simp: sit_get160_def sit_getBitString_def split: if_splits)
  then show "\<exists>x rest. length x = 20 \<and> unread it = x @ rest" using take_drop_unread[OF _ a(1)] by metis
qed

interpretation c256: canonical_codec "\<lambda>v. v" sit_get256 "\<lambda>v. length v = 32"
proof
  fix it r
  assume a: "sit_ok it" "sit_get256 it = Inr r"
  have "32 \<le> sit_remain it" using a(2) by (auto simp: sit_get256_def sit_getBitString_def split: if_splits)
  then show "\<exists>x rest. length x = 32 \<and> unread it = x @ rest" using take_drop_unread[OF _ a(1)] by metis
qed

section \<open>Variable-length data\<close>

lemma sit_get8_Cons:
  assumes "sit_ok it" "unread it = b # r"
  shows "sit_get8 it = Inr (b, advance_by 1 it)" "sit_ok (advance_by 1 it)" "unread (advance_by 1 it) = r"
proof -
  show "sit_get8 it = Inr (b, advance_by 1 it)" using c8.get_enc[of it b r] assms by simp
  have "1 \<le> sit_remain it" using sit_remain_ge[of it "[b]" r] assms by simp
  then show "sit_ok (advance_by 1 it)" "unread (advance_by 1 it) = r"
    using advance_by_ok[OF assms(1), of 1] assms(2) by simp_all
qed

lemma sit_get8_Nil: "sit_ok it \<Longrightarrow> unread it = [] \<Longrightarrow> \<exists>err. sit_get8 it = Inl err"
  using length_unread[of it] by (simp add: sit_get8_def)

lemma and_255: "n AND 255 = n mod (256::int)"
proof -
  have "(255::int) = mask 8" by (simp add: mask_eq_exp_minus_1)
  then show ?thesis by (simp only: take_bit_eq_mask[symmetric] take_bit_eq_mod) simp
qed

lemma uint_byte: "uint (word_of_int n :: byte) = n mod 256"
  by (simp add: unsigned_of_int take_bit_eq_mod)

lemma uint_byte_plus: "0 \<le> n \<Longrightarrow> n + numeral k < 256 \<Longrightarrow> uint (numeral k + word_of_int n :: byte) = numeral k + n"
proof -
  assume a: "0 \<le> n" "n + numeral k < 256"
  have "numeral k + word_of_int n = (word_of_int (numeral k + n) :: byte)" by simp
  then show ?thesis using a by (simp only: uint_byte) simp
qed

lemma div_mod_two: "n = n div 65536 * 65536 + n div 256 mod 256 * 256 + n mod (256::int)"
proof -
  have "n div 65536 = n div 256 div 256" by (simp add: zdiv_zmult2_eq[symmetric])
  then show ?thesis using div_mult_mod_eq[of "n div 256" 256] div_mult_mod_eq[of n 256] by linarith
qed

text \<open>The three ranges of lengths and the bytes they are written as.\<close>

lemma encoded_length_cases:
  assumes "encoded_length len = Inr bs" "0 \<le> len"
  obtains b1 where "bs = [b1]" "uint b1 = len" "len \<le> 192"
  | b1 b2 where "bs = [b1, b2]" "193 \<le> uint b1" "uint b1 \<le> 240" "len = 193 + (uint b1 - 193) * 256 + uint b2"
  | b1 b2 b3 where "bs = [b1, b2, b3]" "241 \<le> uint b1" "uint b1 \<le> 254"
      "len = 12481 + (uint b1 - 241) * 65536 + uint b2 * 256 + uint b3" "len \<le> 918744"
proof -
  consider "len \<le> 192" | "192 < len" "len \<le> 12480" | "12480 < len" "len \<le> 918744"
    using assms(1) by (fastforce simp: encoded_length_def split: if_splits)
  then show thesis
  proof cases
    case 1
    then show ?thesis using that(1)[of "word_of_int len"] assms by (simp add: encoded_length_def uint_byte)
  next
    case 2
    define l where "l = len - 193"
    have l: "0 \<le> l" "l div 256 < 48" using 2 by (auto simp: l_def)
    have bs: "bs = [193 + word_of_int (l div 256), word_of_int (l mod 256)]"
      using assms(1) 2 by (auto simp: encoded_length_def l_def drop_bit_eq_div and_255 Let_def)
    have u: "uint (193 + word_of_int (l div 256) :: byte) = 193 + l div 256"
      "uint (word_of_int (l mod 256) :: byte) = l mod 256"
      using l by (intro uint_byte_plus) (auto simp: uint_byte)
    have "0 \<le> l div 256" using l by simp
    moreover have "len = l + 193" by (simp add: l_def)
    ultimately show ?thesis using l(2) div_mult_mod_eq[of l 256]
      by (intro that(2)[OF bs]; unfold u) (simp_all add: algebra_simps)
  next
    case 3
    define l where "l = len - 12481"
    have l: "0 \<le> l" "l div 65536 < 14" using 3 by (auto simp: l_def)
    have bs: "bs = [241 + word_of_int (l div 65536), word_of_int (l div 256 mod 256), word_of_int (l mod 256)]"
      using assms(1) 3 by (auto simp: encoded_length_def l_def drop_bit_eq_div and_255 Let_def)
    have u: "uint (241 + word_of_int (l div 65536) :: byte) = 241 + l div 65536"
      "uint (word_of_int (l mod 256) :: byte) = l mod 256"
      "uint (word_of_int (l div 256 mod 256) :: byte) = l div 256 mod 256"
      using l by (intro uint_byte_plus) (auto simp: uint_byte)
    have "0 \<le> l div 65536" using l by simp
    moreover have "len = l + 12481" by (simp add: l_def)
    ultimately show ?thesis using l(2) 3 div_mod_two[of l, symmetric]
      by (intro that(3)[OF bs]; (unfold u)?) (simp_all add: algebra_simps)
  qed
qed

lemma getVLDataLength_encoded:
  assumes "encoded_length len = Inr bs" "0 \<le> len" "sit_ok it" "unread it = bs @ rest"
  shows "getVLDataLength it = Inr (len, advance_by (length bs) it)"
  using assms(1,2)
proof (cases rule: encoded_length_cases)
  case (1 b1)
  then show ?thesis using sit_get8_Cons[OF assms(3)] assms(2,4)
    by (simp add: getVLDataLength_def decodeLengthLength_def decodeVLLength1_def)
next
  case (2 b1 b2)
  note g1 = sit_get8_Cons[OF assms(3) assms(4)[unfolded 2 append_Cons]]
  note g2 = sit_get8_Cons[OF g1(2,3)]
  show ?thesis using 2 g1(1) g2(1)
    by (simp add: getVLDataLength_def decodeLengthLength_def decodeVLLength2_def)
next
  case (3 b1 b2 b3)
  note g1 = sit_get8_Cons[OF assms(3) assms(4)[unfolded 3 append_Cons]]
  note g2 = sit_get8_Cons[OF g1(2,3)]
  note g3 = sit_get8_Cons[OF g2(2,3)]
  show ?thesis using 3 g1(1) g2(1) g3(1)
    by (simp add: getVLDataLength_def decodeLengthLength_def decodeVLLength3_def numeral_3_eq_3)
qed

definition vl_bytes :: "blob \<Rightarrow> blob" where
  "vl_bytes v = (case encoded_length (int (length v)) of Inl _ \<Rightarrow> [] | Inr bs \<Rightarrow> bs @ v)"

lemma encoded_length_ok: "len \<le> 918744 \<longleftrightarrow> (\<exists>bs. encoded_length len = Inr bs)"
  by (simp add: encoded_length_def Let_def)

lemma addVL_writes:
  assumes "length v \<le> 918744"
  shows "addVL v s = Inr (length (mData s), s\<lparr>mData := mData s @ vl_bytes v\<rparr>)"
proof -
  obtain bs where "encoded_length (int (length v)) = Inr bs"
    using assms encoded_length_ok[of "int (length v)"] by auto
  then show ?thesis by (simp add: addVL_def addEncoded_def addRaw_def vl_bytes_def)
qed

interpretation cVL: wire_codec vl_bytes sit_getVL "\<lambda>v. length v \<le> 918744"
proof
  fix v it rest
  assume a: "length v \<le> 918744" "sit_ok it" "unread it = vl_bytes v @ rest"
  then obtain bs where bs: "encoded_length (int (length v)) = Inr bs"
    using encoded_length_ok[of "int (length v)"] by auto
  then have u: "unread it = bs @ v @ rest" using a(3) by (simp add: vl_bytes_def)
  let ?it = "advance_by (length bs) it"
  have n: "length bs \<le> sit_remain it" using a(2) u by (rule sit_remain_ge)
  have ok: "sit_ok ?it" "unread ?it = v @ rest" using advance_by_ok[OF a(2) n] u by simp_all
  have "sit_getRaw (length v) ?it = Inr (v, advance_by (length v) ?it)"
    using sit_remain_ge[OF ok] sit_take[OF ok(2)] by (simp add: sit_getRaw_def)
  then show "sit_getVL it = Inr (v, advance_by (length (vl_bytes v)) it)"
    using getVLDataLength_encoded[OF bs _ a(2) u] by (simp add: sit_getVL_def vl_bytes_def bs)
qed

lemma uint_byte_range: "0 \<le> uint b" "uint b < 256" for b :: byte
  using uint_lt2p[of b] by simp_all

lemma digit256:
  fixes q r :: int
  assumes "0 \<le> r" "r < 256"
  shows "(q * 256 + r) div 256 = q" "(q * 256 + r) mod 256 = r"
  using assms by simp_all

lemma encoded_length_1: "uint b1 \<le> 192 \<Longrightarrow> encoded_length (uint b1) = Inr [b1]" for b1 :: byte
  by (simp add: encoded_length_def)

lemma encoded_length_2:
  fixes b1 b2 :: byte
  assumes "193 \<le> uint b1" "uint b1 \<le> 240"
  shows "encoded_length (193 + (uint b1 - 193) * 256 + uint b2) = Inr [b1, b2]"
proof -
  define l where "l = (uint b1 - 193) * 256 + uint b2"
  have "l div 256 = uint b1 - 193" "l mod 256 = uint b2"
    unfolding l_def using uint_byte_range[of b2] by (rule digit256)+
  moreover have "0 \<le> l" "l \<le> 12287"
    using assms uint_byte_range[of b2] unfolding l_def left_diff_distrib by linarith+
  moreover have "193 + (uint b1 - 193) * 256 + uint b2 = 193 + l" by (simp add: l_def)
  ultimately show ?thesis
    by (simp add: encoded_length_def drop_bit_eq_div and_255 Let_def)
qed

lemma encoded_length_3:
  fixes b1 b2 b3 :: byte
  defines "len \<equiv> 12481 + (uint b1 - 241) * 65536 + uint b2 * 256 + uint b3"
  assumes "241 \<le> uint b1" "len \<le> 918744"
  shows "encoded_length len = Inr [b1, b2, b3]"
proof -
  define l where "l = len - 12481"
  note r = uint_byte_range[of b2] uint_byte_range[of b3]
  have l: "l = ((uint b1 - 241) * 256 + uint b2) * 256 + uint b3" by (simp add: l_def len_def algebra_simps)
  have 1: "l mod 256 = uint b3" "l div 256 = (uint b1 - 241) * 256 + uint b2" 
    unfolding l using r(3,4) by (rule digit256)+
  have 2: "l div 256 mod 256 = uint b2" "l div 256 div 256 = uint b1 - 241" 
    unfolding 1 using r(1,2) by (rule digit256)+
  have "l div 65536 = uint b1 - 241" using 2(2) by (simp add: zdiv_zmult2_eq[symmetric])
  moreover have "0 \<le> l" unfolding l using assms(2) r by simp
  ultimately show ?thesis using assms(3) 1(1) 2(1)
    by (simp add: encoded_length_def drop_bit_eq_div and_255 l_def[symmetric] Let_def)
      (simp add: l_def)
qed

lemma getVLDataLength_truncated:
  assumes "encoded_length len = Inr bs" "0 \<le> len" "sit_ok it" "unread it = take k bs" "k < length bs"
  shows "\<exists>err. getVLDataLength it = Inl err"
proof (cases k)
  case 0
  then show ?thesis using sit_get8_Nil[OF assms(3)] assms(4) by (auto simp: getVLDataLength_def)
next
  case (Suc j)
  show ?thesis using assms(1,2)
  proof (cases rule: encoded_length_cases)
    case (1 b1)
    then show ?thesis using Suc assms(5) by simp
  next
    case (2 b1 b2)
    then have "unread it = [b1]" using Suc assms(4,5) by simp
    note g1 = sit_get8_Cons[OF assms(3) this]
    show ?thesis using g1(1) sit_get8_Nil[OF g1(2,3)] 2
      by (auto simp: getVLDataLength_def decodeLengthLength_def)
  next
    case (3 b1 b2 b3)
    then have u: "unread it = b1 # take j [b2, b3]" "j < 2" using Suc assms(4,5) by simp_all
    note g1 = sit_get8_Cons[OF assms(3) u(1)]
    show ?thesis
    proof (cases j)
      case 0
      then show ?thesis using g1(1) sit_get8_Nil[OF g1(2)] g1(3) 3
        by (auto simp: getVLDataLength_def decodeLengthLength_def)
    next
      case (Suc i)
      then have "unread (advance_by 1 it) = [b2]" using g1(3) u(2) by simp
      note g2 = sit_get8_Cons[OF g1(2) this]
      show ?thesis using g1(1) g2(1) sit_get8_Nil[OF g2(2,3)] 3
        by (auto simp: getVLDataLength_def decodeLengthLength_def)
    qed
  qed
qed

text \<open>
  Conversely a length that decodes to no more than the maximum was written with exactly the
  bytes that were read: lengths have one encoding.
\<close>

lemma getVLDataLength_canonical:
  assumes "sit_ok it" "getVLDataLength it = Inr (len, it')" "len \<le> 918744"
  shows "\<exists>bs. encoded_length len = Inr bs \<and> unread it = bs @ unread it' \<and> it' = advance_by (length bs) it"
proof -
  have get: "\<exists>r. unread i = b # r \<and> i' = advance_by 1 i \<and> sit_ok i' \<and> unread i' = r"
    if "sit_ok i" "sit_get8 i = Inr (b, i')" for i b i'
  proof (cases "unread i")
    case Nil
    then show ?thesis using sit_get8_Nil[OF that(1)] that(2) by auto
  next
    case (Cons c r)
    then show ?thesis using sit_get8_Cons[OF that(1) Cons] that(2) by auto
  qed
  obtain b1 it1 where 1: "sit_get8 it = Inr (b1, it1)" using assms(2) by (auto simp: getVLDataLength_def)
  obtain r1 where r1: "unread it = b1 # r1" "it1 = advance_by 1 it" "sit_ok it1" "unread it1 = r1"
    using get[OF assms(1) 1] by blast
  have b: "0 \<le> uint b1" "uint b1 < 256" using uint_lt2p[of b1] by simp_all
  consider "uint b1 \<le> 192" | "192 < uint b1" "uint b1 \<le> 240" | "240 < uint b1" "uint b1 \<le> 254"
    using assms(2) 1 b by (fastforce simp: getVLDataLength_def decodeLengthLength_def split: if_splits)
  then show ?thesis
  proof cases
    case 1
    then have "len = uint b1" "it' = it1" using assms(2) \<open>sit_get8 it = _\<close> b
      by (auto simp: getVLDataLength_def decodeLengthLength_def decodeVLLength1_def split: if_splits)
    then show ?thesis using r1 encoded_length_1[OF 1] by simp
  next
    case 2
    then obtain b2 where g: "sit_get8 it1 = Inr (b2, it')" "len = 193 + (uint b1 - 193) * 256 + uint b2"
      using assms(2) \<open>sit_get8 it = _\<close> b
      by (auto simp: getVLDataLength_def decodeLengthLength_def decodeVLLength2_def split: if_splits)
    show ?thesis using get[OF r1(3) g(1)] r1 g(2) encoded_length_2[of b1 b2] 2 by auto
  next
    case 3
    then obtain b2 it2 b3 where g: "sit_get8 it1 = Inr (b2, it2)" "sit_get8 it2 = Inr (b3, it')"
      "len = 12481 + (uint b1 - 241) * 65536 + uint b2 * 256 + uint b3"
      using assms(2) \<open>sit_get8 it = _\<close> b
      by (auto simp: getVLDataLength_def decodeLengthLength_def decodeVLLength3_def split: if_splits)
    obtain r2 where r2: "unread it1 = b2 # r2" "it2 = advance_by 1 it1" "sit_ok it2" "unread it2 = r2"
      using get[OF r1(3) g(1)] by blast
    show ?thesis using get[OF r2(3) g(2)] r1 r2 g(3) encoded_length_3[of b1 b2 b3] 3 assms(3)
      by (auto simp: numeral_3_eq_3)
  qed
qed

section \<open>Field identifiers\<close>

lemma nibbles:
  assumes "0 \<le> a" "a < 16" "0 \<le> b" "b < (16::int)"
  shows "push_bit 4 a OR b = a * 16 + b"
proof -
  have "b = take_bit 4 b" using assms(3,4) by (simp add: take_bit_int_eq_self)
  then have "push_bit 4 a AND b = push_bit 4 a AND take_bit 4 b" by simp
  also have "\<dots> = 0" by (intro bit_eqI) (auto simp: bit_simps)
  finally have "push_bit 4 a OR b = push_bit 4 a + b"
    by (rule disjunctive_add_eq_or[symmetric])
  then show ?thesis by (simp add: push_bit_eq_mult)
qed

lemma and_15: "n AND 15 = n mod (16::int)"
proof -
  have "(15::int) = mask 4" by (simp add: mask_eq_exp_minus_1)
  then show ?thesis by (simp only: take_bit_eq_mask[symmetric] take_bit_eq_mod) simp
qed

lemma getFieldID_bytes:
  assumes r: "0 < t" "t < 256" "0 < n" "n < 256" and it: "sit_ok it" "unread it = fieldID_bytes t n @ rest"
  shows "getFieldID it = Inr ((t, n), advance_by (length (fieldID_bytes t n)) it)"
proof -
  have split: "uint b AND 15 = uint b mod 16" "drop_bit 4 (uint b) = uint b div 16" for b :: byte
    by (simp_all add: and_15 drop_bit_eq_div)
  consider "t < 16" "n < 16" | "t < 16" "16 \<le> n" | "16 \<le> t" "n < 16" | "16 \<le> t" "16 \<le> n" by linarith
  then show ?thesis
  proof cases
    case 1
    then have bs: "fieldID_bytes t n = [word_of_int (t * 16 + n)]" using r by (simp add: fieldID_bytes_def nibbles)
    have "uint (word_of_int (t * 16 + n) :: byte) = t * 16 + n"
      unfolding uint_byte using 1 r by simp
    moreover have "(t * 16 + n) div 16 = t" "(t * 16 + n) mod 16 = n" using 1 r by simp_all
    ultimately show ?thesis using sit_get8_Cons(1)[OF it(1) it(2)[unfolded bs append_Cons]] r
      by (simp add: getFieldID_def Let_def bs split)
  next
    case 2
    then have bs: "fieldID_bytes t n = [word_of_int (t * 16), word_of_int n]"
      using r by (simp add: fieldID_bytes_def push_bit_eq_mult)
    note g1 = sit_get8_Cons[OF it(1) it(2)[unfolded bs append_Cons]] and g2 = sit_get8_Cons[OF g1(2,3)]
    have "uint (word_of_int (t * 16) :: byte) = t * 16" "uint (word_of_int n :: byte) = n"
      unfolding uint_byte using 2 r by simp_all
    then show ?thesis using g1(1) g2(1) r 2 by (simp add: getFieldID_def Let_def bs split)
  next
    case 3
    then have bs: "fieldID_bytes t n = [word_of_int n, word_of_int t]" by (simp add: fieldID_bytes_def)
    note g1 = sit_get8_Cons[OF it(1) it(2)[unfolded bs append_Cons]] and g2 = sit_get8_Cons[OF g1(2,3)]
    have "uint (word_of_int t :: byte) = t" "uint (word_of_int n :: byte) = n"
      using 3 r by (simp_all add: uint_byte)
    then show ?thesis using g1(1) g2(1) r 3 by (simp add: getFieldID_def Let_def bs split)
  next
    case 4
    then have bs: "fieldID_bytes t n = [0, word_of_int t, word_of_int n]" by (simp add: fieldID_bytes_def)
    note g1 = sit_get8_Cons[OF it(1) it(2)[unfolded bs append_Cons]] and g2 = sit_get8_Cons[OF g1(2,3)]
    note g3 = sit_get8_Cons[OF g2(2,3)]
    have "uint (word_of_int t :: byte) = t" "uint (word_of_int n :: byte) = n"
      using 4 r by (simp_all add: uint_byte)
    then show ?thesis using g1(1) g2(1) g3(1) r 4
      by (simp add: getFieldID_def Let_def bs split numeral_3_eq_3)
  qed
qed

interpretation cFID: wire_codec "\<lambda>(t, n). fieldID_bytes t n" getFieldID
  "\<lambda>(t, n). 0 < t \<and> t < 256 \<and> 0 < n \<and> n < 256"
  by unfold_locales (auto intro: getFieldID_bytes)

section \<open>Properties\<close>

text \<open>
  C17. Whatever a serializer already holds and whatever is written after it, data written with
  its length by \<^verbatim>\<open>addVL\<close> is read back by the cursor's \<^verbatim>\<open>getVL\<close> placed at the offset that
  \<^verbatim>\<open>addVL\<close> returned, and the cursor then stands at what follows.
\<close>

theorem addVL_getVL:
  assumes "addVL v s = Inr (ret, s')" "sit_skip ret (newSerialIter (mData s' @ tail1)) = Inr it"
  shows "\<exists>it'. sit_getVL it = Inr (v, it') \<and> sit_ok it' \<and> unread it' = tail1"
proof -
  have len: "length v \<le> 918744"
    using assms(1) encoded_length_ok[of "int (length v)"] by (auto simp: addVL_def addEncoded_def)
  have w: "ret = length (mData s)" "mData s' = mData s @ vl_bytes v" using assms(1) addVL_writes[OF len, of s] by auto
  let ?b = "newSerialIter (mData s' @ tail1)"
  have "it = advance_by ret ?b" "ret \<le> sit_remain ?b"
    using assms(2) by (auto simp: sit_skip_def split: if_splits)
  then have "sit_ok it" "unread it = vl_bytes v @ tail1"
    using advance_by_ok[of ?b ret] w by simp_all
  then show ?thesis using cVL.get_enc_ok[OF len] by blast
qed

theorem addVL_getVL_witness:
  "\<exists>it'. sit_getVL (advance_by 1 (newSerialIter [7, 2, 5, 6, 9])) = Inr ([5, 6], it') \<and> sit_ok it' \<and> unread it' = [9]"
  using addVL_getVL[of "[5, 6]" "\<lparr>mData = [7]\<rparr>" 1 "\<lparr>mData = [7, 2, 5, 6]\<rparr>" "[9]"
      "advance_by 1 (newSerialIter [7, 2, 5, 6, 9])"]
  by (simp add: addVL_def addEncoded_def encoded_length_def addRaw_def sit_skip_def newSerialIter_def)

text \<open>
  C20. A field identifier, of any of the four forms, is read back by \<^verbatim>\<open>getFieldID\<close> from what
  \<^verbatim>\<open>addFieldID\<close> wrote, and two fields never have the same bytes, not even as a prefix.
\<close>

theorem fieldID_roundtrip:
  assumes "addFieldID t n s = Some (ret, s')" "addFieldID t' n' s = Some (ret', s'')"
  shows "(\<exists>it. getFieldID (newSerialIter (drop ret (mData s'))) = Inr ((t, n), it) \<and> sit_empty it) \<and>
    (mData s' @ tail1 = mData s'' @ tail2 \<longrightarrow> t = t' \<and> n = n')"
proof -
  have r: "0 < t \<and> t < 256 \<and> 0 < n \<and> n < 256" "0 < t' \<and> t' < 256 \<and> 0 < n' \<and> n' < 256"
    and w: "mData s' = mData s @ fieldID_bytes t n" "ret = length (mData s)" "mData s'' = mData s @ fieldID_bytes t' n'"
    using assms by (auto simp: addFieldID_def split: if_splits)
  show ?thesis
    using cFID.get_new[of "(t, n)"] cFID.enc_inj[of "(t, n)" "(t', n')" tail1 tail2] r w by auto
qed

theorem fieldID_roundtrip_witness:
  "\<exists>it. getFieldID (newSerialIter [1, 18]) = Inr ((18, 1), it) \<and> sit_empty it"
  using fieldID_roundtrip[of 18 1 "\<lparr>mData = []\<rparr>" 0 "\<lparr>mData = [1, 18]\<rparr>" 18 1 0 "\<lparr>mData = [1, 18]\<rparr>" "[]" "[]"]
  by (simp add: addFieldID_def fieldID_bytes_def)

text \<open>
  C18. A length prefix has one encoding only: a length within the writer's limit that the cursor
  decodes is preceded by exactly the bytes the writer would produce.
\<close>

theorem vl_length_canonical:
  assumes "sit_ok it" "getVLDataLength it = Inr (len, it')" "len \<le> 918744"
  shows "\<exists>bs. encoded_length len = Inr bs \<and> unread it = bs @ unread it'"
  using getVLDataLength_canonical[OF assms] by blast

theorem vl_length_canonical_witness:
  "\<exists>bs. encoded_length 5000 = Inr bs \<and> [211, 199, 8] = bs @ [8]"
proof -
  have "getVLDataLength (newSerialIter [211, 199, 8]) = Inr (5000, advance_by 2 (newSerialIter [211, 199, 8]))"
    by (simp add: getVLDataLength_def sit_get8_def newSerialIter_def advance_by_def decodeLengthLength_def
        decodeVLLength2_def)
  then show ?thesis
    using vl_length_canonical[of "newSerialIter [211, 199, 8]" 5000 "advance_by 2 (newSerialIter [211, 199, 8])"]
    by (simp add: unread_def advance_by_def newSerialIter_def sit_ok_def)
qed

text \<open>
  C19. Data cut short is never misread: on any proper prefix of what \<^verbatim>\<open>addVL\<close> writes,
  \<^verbatim>\<open>getVL\<close> throws.
\<close>

theorem getVL_truncated:
  assumes "addVL v s = Inr (ret, s')" "sit_ok it" "unread it = take k (drop ret (mData s'))"
    and "ret + k < length (mData s')"
  shows "\<exists>err. sit_getVL it = Inl err"
proof -
  obtain bs where bs: "encoded_length (int (length v)) = Inr bs"
    using assms(1) by (auto simp: addVL_def addEncoded_def)
  have w: "ret = length (mData s)" "mData s' = mData s @ bs @ v"
    using assms(1) bs by (auto simp: addVL_def addEncoded_def addRaw_def)
  then have u: "unread it = take k (bs @ v)" "k < length bs + length v" using assms(3,4) by simp_all
  show ?thesis
  proof (cases "k < length bs")
    case True
    then have "unread it = take k bs" using u by simp
    then show ?thesis using getVLDataLength_truncated[OF bs _ assms(2) _ True] by (auto simp: sit_getVL_def)
  next
    case False
    then have ub: "unread it = bs @ take (k - length bs) v" using u by simp
    note n = sit_remain_ge[OF assms(2) ub]
    have "sit_remain (advance_by (length bs) it) = k - length bs"
      using length_unread[OF advance_by_ok(1)[OF assms(2) n]] advance_by_ok(2)[OF assms(2) n] ub u(2) by simp
    then show ?thesis using getVLDataLength_encoded[OF bs _ assms(2) ub] u(2) False
      by (auto simp: sit_getVL_def sit_getRaw_def)
  qed
qed

theorem getVL_truncated_witness: "\<exists>err. sit_getVL (newSerialIter [2, 5]) = Inl err"
  using getVL_truncated[of "[5, 6]" "\<lparr>mData = [7]\<rparr>" 1 "\<lparr>mData = [7, 2, 5, 6]\<rparr>" "newSerialIter [2, 5]" 2]
  by (simp add: addVL_def addEncoded_def encoded_length_def addRaw_def)

text \<open>
  A first length byte of 255 is rejected before the handler that turns exceptions into
  \<^const>\<open>None\<close> is in force: the offset-based readers throw instead of reporting failure.
\<close>

lemma ser_getVL_255: "ser_getVL \<lparr>mData = [255]\<rparr> 0 = Inl (overflow_error ''b1>254'')"
  by (simp add: ser_getVL_def vl_header_def ser_get8_def decodeLengthLength_def)

end
