(* ===== verification/BaseUint.thy ===== *)
theory BaseUint
  imports Serializer_Correct
begin

text \<open>
  Fixed-width integers, \<^verbatim>\<open>basics/base_uint.h\<close>, with the hexadecimal helpers of
  \<^verbatim>\<open>basics/strHex.h\<close> and \<^verbatim>\<open>basics/impl/strHex.cpp\<close>.  The array \<^verbatim>\<open>pn\<close> is a list of
  32-bit words, most significant first; each word is given by the value that
  \<^verbatim>\<open>big_to_native\<close> reads, so that the stored bytes are its big-endian bytes.
\<close>

section \<open>Words\<close>

type_synonym base_uint = "uint32 list"

definition bu_data :: "base_uint \<Rightarrow> blob" where
  "bu_data pn = concat (map bytes32 pn)"

definition bu_zero :: "nat \<Rightarrow> base_uint" where
  "bu_zero width = replicate width 0"

definition bu_signum :: "base_uint \<Rightarrow> int" where
  "bu_signum pn = (if \<exists>w\<in>set pn. w \<noteq> 0 then 1 else 0)"

definition bu_not :: "base_uint \<Rightarrow> base_uint" where
  "bu_not pn = map NOT pn"

definition bu_assign :: "nat \<Rightarrow> uint64 \<Rightarrow> base_uint" where
  "bu_assign width uHost =
     (bu_zero width)[width - 2 := ucast (drop_bit 32 uHost), width - 1 := ucast uHost]"

definition bu_xor :: "base_uint \<Rightarrow> base_uint \<Rightarrow> base_uint" where
  "bu_xor a b = map2 (XOR) a b"

definition bu_and :: "base_uint \<Rightarrow> base_uint \<Rightarrow> base_uint" where
  "bu_and a b = map2 (AND) a b"

definition bu_or :: "base_uint \<Rightarrow> base_uint \<Rightarrow> base_uint" where
  "bu_or a b = map2 (OR) a b"

text \<open>The loops run from the last word down; the argument is one more than the index \<^verbatim>\<open>i\<close>.\<close>

primrec bu_inc_loop :: "nat \<Rightarrow> base_uint \<Rightarrow> base_uint" where
  "bu_inc_loop 0 pn = pn"
| "bu_inc_loop (Suc i) pn =
     (let pn' = pn[i := pn ! i + 1] in if pn' ! i \<noteq> 0 then pn' else bu_inc_loop i pn')"

definition bu_inc :: "base_uint \<Rightarrow> base_uint" where
  "bu_inc pn = bu_inc_loop (length pn) pn"

definition bu_postinc :: "base_uint \<Rightarrow> base_uint \<times> base_uint" where
  "bu_postinc pn = (pn, bu_inc pn)"

primrec bu_dec_loop :: "nat \<Rightarrow> base_uint \<Rightarrow> base_uint" where
  "bu_dec_loop 0 pn = pn"
| "bu_dec_loop (Suc i) pn =
     (let prev = pn ! i; pn' = pn[i := pn ! i - 1] in if prev \<noteq> 0 then pn' else bu_dec_loop i pn')"

definition bu_dec :: "base_uint \<Rightarrow> base_uint" where
  "bu_dec pn = bu_dec_loop (length pn) pn"

definition bu_postdec :: "base_uint \<Rightarrow> base_uint \<times> base_uint" where
  "bu_postdec pn = (pn, bu_dec pn)"

primrec bu_add_loop :: "nat \<Rightarrow> base_uint \<Rightarrow> base_uint \<Rightarrow> uint64 \<Rightarrow> base_uint" where
  "bu_add_loop 0 pn b carry = pn"
| "bu_add_loop (Suc i) pn b carry =
     (let n = carry + ucast (pn ! i) + ucast (b ! i)
      in bu_add_loop i (pn[i := ucast n]) b (drop_bit 32 n))"

definition bu_add :: "base_uint \<Rightarrow> base_uint \<Rightarrow> base_uint" where
  "bu_add pn b = bu_add_loop (length pn) pn b 0"

section \<open>Comparison\<close>

text \<open>\<^verbatim>\<open>compare\<close> looks at the first byte that differs.\<close>

fun bu_compare :: "blob \<Rightarrow> blob \<Rightarrow> int" where
  "bu_compare (a # as) (b # bs) = (if a = b then bu_compare as bs else if b < a then 1 else -1)"
| "bu_compare _ _ = 0"

definition bu_less :: "blob \<Rightarrow> blob \<Rightarrow> bool" where "bu_less a b \<longleftrightarrow> bu_compare a b < 0"
definition bu_le :: "blob \<Rightarrow> blob \<Rightarrow> bool" where "bu_le a b \<longleftrightarrow> bu_compare a b \<le> 0"
definition bu_greater :: "blob \<Rightarrow> blob \<Rightarrow> bool" where "bu_greater a b \<longleftrightarrow> bu_compare a b > 0"
definition bu_ge :: "blob \<Rightarrow> blob \<Rightarrow> bool" where "bu_ge a b \<longleftrightarrow> bu_compare a b \<ge> 0"
definition bu_eq :: "blob \<Rightarrow> blob \<Rightarrow> bool" where "bu_eq a b \<longleftrightarrow> bu_compare a b = 0"
definition bu_ne :: "blob \<Rightarrow> blob \<Rightarrow> bool" where "bu_ne a b \<longleftrightarrow> bu_compare a b \<noteq> 0"

definition bu_isZero :: "blob \<Rightarrow> bool" where
  "bu_isZero v \<longleftrightarrow> (\<forall>b\<in>set v. b = 0)"

section \<open>Hexadecimal text\<close>

definition charHex :: "nat \<Rightarrow> char" where
  "charHex digit = ''0123456789ABCDEF'' ! digit"

definition charUnHex :: "char \<Rightarrow> int" where
  "charUnHex c =
     (let k = (of_char c :: int) in
      if 48 \<le> k \<and> k < 58 then k - 48
      else if 65 \<le> k \<and> k < 71 then 10 + (k - 65)
      else if 97 \<le> k \<and> k < 103 then 10 + (k - 97)
      else -1)"

text \<open>
  \<^verbatim>\<open>strHex\<close> applies \<^verbatim>\<open>boost::algorithm::hex\<close> to every byte; that function is a parameter.
\<close>

definition strHex :: "(byte \<Rightarrow> string) \<Rightarrow> blob \<Rightarrow> string" where
  "strHex hex v = concat (map hex v)"

text \<open>
  The parsers read a C string: the terminating zero byte is the end of the list, and a zero
  byte inside the string ends it.  \<^verbatim>\<open>SetHexExact\<close> returns whether it succeeded and the bytes
  written so far over the previous value.
\<close>

definition c_str :: "string \<Rightarrow> string" where
  "c_str s = takeWhile (\<lambda>c. c \<noteq> CHR 0x00) s"

definition char_at :: "string \<Rightarrow> nat \<Rightarrow> char" where
  "char_at s i = (if i < length s then s ! i else CHR 0x00)"

fun setHexExact_loop :: "nat \<Rightarrow> nat \<Rightarrow> string \<Rightarrow> blob \<Rightarrow> bool \<times> blob" where
  "setHexExact_loop 0 i s out = (drop (2 * i) s = [], out)"
| "setHexExact_loop (Suc n) i s out =
     (let hi = charUnHex (char_at s (2 * i)) in
      if hi = -1 then (False, out)
      else
        let lo = charUnHex (char_at s (2 * i + 1)) in
        if lo = -1 then (False, out)
        else setHexExact_loop n (Suc i) s (out[i := word_of_int (push_bit 4 hi OR lo)]))"

definition SetHexExact :: "string \<Rightarrow> blob \<Rightarrow> bool \<times> blob" where
  "SetHexExact str v = setHexExact_loop (length v) 0 (c_str str) v"

definition isspace :: "char \<Rightarrow> bool" where
  "isspace c \<longleftrightarrow> c \<in> {CHR '' '', CHR 0x09, CHR 0x0A, CHR 0x0B, CHR 0x0C, CHR 0x0D}"

fun hex_pairs :: "string \<Rightarrow> blob" where
  "hex_pairs (h # l # r) = word_of_int (push_bit 4 (charUnHex h) OR charUnHex l) # hex_pairs r"
| "hex_pairs [h] = [word_of_int (push_bit 4 (charUnHex h))]"
| "hex_pairs [] = []"

definition SetHex :: "nat \<Rightarrow> string \<Rightarrow> bool \<Rightarrow> bool \<times> blob" where
  "SetHex nbytes str strict =
     (let s0 = c_str str;
          s1 = (if \<not> strict then dropWhile isspace s0 else s0);
          s2 = (if \<not> strict \<and> char_at s1 0 = CHR ''0'' \<and> (char_at s1 1 = CHR ''x'' \<or> char_at s1 1 = CHR ''X'')
                then drop 2 s1 else s1);
          digs = takeWhile (\<lambda>c. charUnHex c \<noteq> -1) s2;
          rest = drop (length digs) s2;
          ds = (if 2 * nbytes < length digs then drop (length digs - 2 * nbytes) digs else digs);
          out = (if odd (length ds)
                 then word_of_int (charUnHex (hd ds)) # hex_pairs (tl ds) else hex_pairs ds)
      in (rest = [], replicate (nbytes - length out) 0 @ out))"

definition from_hex_text :: "nat \<Rightarrow> string \<Rightarrow> blob" where
  "from_hex_text nbytes str = snd (SetHex nbytes str False)"

end
