(* ===== verification/BaseUint_Correct.thy ===== *)
theory BaseUint_Correct
  imports BaseUint
begin

text \<open>
  The fixed-width integers compute arithmetic modulo \<open>2\<close> to their width, compare as numbers,
  and survive a round trip through their hexadecimal text.
\<close>

section \<open>The number a word array stands for\<close>

definition bu_val :: "base_uint \<Rightarrow> nat" where
  "bu_val pn = foldl (\<lambda>a w. a * 2 ^ 32 + unat w) 0 pn"

lemma bu_val_Nil [simp]: "bu_val [] = 0"
  by (simp add: bu_val_def)

lemma bu_val_snoc [simp]: "bu_val (pn @ [w]) = bu_val pn * 2 ^ 32 + unat w"
  by (simp add: bu_val_def)

lemma unat_lt32: "unat (w :: uint32) < 2 ^ 32"
  using unsigned_less[of w] by simp

lemma bu_val_less: "bu_val pn < 2 ^ (32 * length pn)"
proof (induction pn rule: rev_induct)
  case Nil
  then show ?case by simp
next
  case (snoc w pn)
  have "bu_val pn * 2 ^ 32 + unat w < (bu_val pn + 1) * 2 ^ 32" using unat_lt32[of w] by simp
  also have "\<dots> \<le> 2 ^ (32 * length pn) * 2 ^ 32" using snoc by (intro mult_right_mono) auto
  also have "\<dots> = 2 ^ (32 * length (pn @ [w]))" by (simp add: power_add)
  finally show ?case by simp
qed

lemma bu_val_append: "bu_val (a @ b) = bu_val a * 2 ^ (32 * length b) + bu_val b"
proof (induction b rule: rev_induct)
  case Nil
  then show ?case by simp
next
  case (snoc w b)
  have "bu_val (a @ b @ [w]) = bu_val (a @ b) * 2 ^ 32 + unat w"
    using bu_val_snoc[of "a @ b" w] by simp
  then show ?case using snoc by (simp add: power_add algebra_simps)
qed

text \<open>One digit more: the arithmetic every loop below needs.\<close>

lemma mod_digit:
  fixes v u :: nat
  assumes "u < 2 ^ 32"
  shows "(v mod 2 ^ k) * 2 ^ 32 + u = (v * 2 ^ 32 + u) mod 2 ^ (k + 32)"
proof -
  have "(v * 2 ^ 32 + u) div 2 ^ 32 = v" "(v * 2 ^ 32 + u) mod 2 ^ 32 = u" using assms by simp_all
  then have "(v * 2 ^ 32 + u) mod (2 ^ 32 * 2 ^ k) = 2 ^ 32 * (v mod 2 ^ k) + u"
    by (simp only: mod_mult2_eq)
  then show ?thesis by (simp only: power_add mult.commute)
qed

lemma take_update_last:
  assumes "i < length pn"
  shows "take (Suc i) (pn[i := w]) = take i pn @ [w]" "drop (Suc i) (pn[i := w]) = drop (Suc i) pn"
  using assms by (simp_all add: take_Suc_conv_app_nth)

section \<open>The loops\<close>

lemma list_split_at:
  assumes "i < length pn"
  shows "pn[i := w] = take i pn @ w # drop (Suc i) pn" "take (Suc i) pn = take i pn @ [pn ! i]"
  using assms by (simp_all add: upd_conv_take_nth_drop take_Suc_conv_app_nth)

text \<open>
  Each loop changes the first \<open>i\<close> words only, as an operation modulo \<open>2 ^ (32 * i)\<close> on their value.
\<close>

lemma bu_inc_loop_val:
  assumes "i \<le> length pn"
  shows "\<exists>xs. bu_inc_loop i pn = xs @ drop i pn \<and> length xs = i \<and>
    bu_val xs = (bu_val (take i pn) + 1) mod 2 ^ (32 * i)"
  using assms
proof (induction i arbitrary: pn)
  case 0
  then show ?case by simp
next
  case (Suc i)
  then have i: "i < length pn" by simp
  let ?w = "pn ! i" and ?v = "bu_val (take i pn)"
  let ?pn = "pn[i := ?w + 1]"
  show ?case
  proof (cases "?w + 1 = 0")
    case False
    then have u: "unat (?w + 1) = unat ?w + 1" by (simp add: unatSuc add.commute)
    have "unat ?w + 1 < 2 ^ 32" using unat_lt32[of "?w + 1"] u by simp
    then have "?v * 2 ^ 32 + unat ?w + 1 = (?v mod 2 ^ (32 * i)) * 2 ^ 32 + (unat ?w + 1)"
      using bu_val_less[of "take i pn"] i by simp
    also have "\<dots> = (?v * 2 ^ 32 + (unat ?w + 1)) mod 2 ^ (32 * i + 32)"
      using \<open>unat ?w + 1 < 2 ^ 32\<close> by (rule mod_digit)
    finally show ?thesis using False i u
      by (intro exI[of _ "take i pn @ [?w + 1]"]) (simp add: Let_def list_split_at nth_append add.commute)
  next
    case True
    then have "?w = - 1" by (simp add: eq_neg_iff_add_eq_0)
    then have "unat ?w = 2 ^ 32 - 1" by (simp add: unsigned_minus_1_eq_mask mask_eq_exp_minus_1)
    obtain xs where xs: "bu_inc_loop i ?pn = xs @ drop i ?pn" "length xs = i"
      "bu_val xs = (bu_val (take i ?pn) + 1) mod 2 ^ (32 * i)"
      using Suc.IH[of ?pn] i by auto
    have "bu_val xs * 2 ^ 32 = ((?v + 1) * 2 ^ 32) mod 2 ^ (32 * i + 32)"
      using mod_digit[of 0 "?v + 1" "32 * i"] xs(3) by simp
    also have "(?v + 1) * 2 ^ 32 = bu_val (take (Suc i) pn) + 1"
      using \<open>unat ?w = 2 ^ 32 - 1\<close> i by (simp add: list_split_at)
    finally show ?thesis using True i xs(1,2)
      by (intro exI[of _ "xs @ [0]"]) (simp add: Let_def list_split_at nth_append add.commute)
  qed
qed

lemma bu_dec_loop_val:
  assumes "i \<le> length pn"
  shows "\<exists>xs. bu_dec_loop i pn = xs @ drop i pn \<and> length xs = i \<and>
    bu_val xs = (bu_val (take i pn) + (2 ^ (32 * i) - 1)) mod 2 ^ (32 * i)"
  using assms
proof (induction i arbitrary: pn)
  case 0
  then show ?case by simp
next
  case (Suc i)
  then have i: "i < length pn" by simp
  let ?w = "pn ! i" and ?v = "bu_val (take i pn)" and ?m = "2 ^ (32 * i) :: nat"
  let ?pn = "pn[i := ?w - 1]"
  have M: "2 ^ (32 * Suc i) = ?m * (2 ^ 32 :: nat)" "2 ^ (32 * Suc i) = (2 ^ (32 * i + 32) :: nat)"
    by (simp_all add: power_add)
  have v: "?v < ?m" using bu_val_less[of "take i pn"] i by simp
  show ?case
  proof (cases "?w = 0")
    case False
    have u: "unat ?w = unat (?w - 1) + 1"
      using unat_minus_one[OF False] unat_gt_0[of ?w] False by simp
    have "?v * 2 ^ 32 + unat (?w - 1) = (?v mod ?m) * 2 ^ 32 + unat (?w - 1)" using v by simp
    also have "\<dots> = (?v * 2 ^ 32 + unat (?w - 1)) mod 2 ^ (32 * Suc i)"
      unfolding M(2) using unat_lt32 by (rule mod_digit)
    also have "\<dots> = (?v * 2 ^ 32 + unat (?w - 1) + 2 ^ (32 * Suc i)) mod 2 ^ (32 * Suc i)" by simp
    also have "?v * 2 ^ 32 + unat (?w - 1) + 2 ^ (32 * Suc i) =
        bu_val (take (Suc i) pn) + (2 ^ (32 * Suc i) - 1)"
      using u i by (simp add: list_split_at)
    finally show ?thesis using False i
      by (intro exI[of _ "take i pn @ [?w - 1]"]) (simp add: Let_def list_split_at nth_append)
  next
    case True
    obtain xs where xs: "bu_dec_loop i ?pn = xs @ drop i ?pn" "length xs = i"
      "bu_val xs = (bu_val (take i ?pn) + (?m - 1)) mod ?m"
      using Suc.IH[of ?pn] i by auto
    have w: "unat (- 1 :: uint32) = 2 ^ 32 - 1" by (simp add: unsigned_minus_1_eq_mask mask_eq_exp_minus_1)
    have "bu_val xs * 2 ^ 32 + unat (- 1 :: uint32) =
        ((?v + (?m - 1)) * 2 ^ 32 + unat (- 1 :: uint32)) mod 2 ^ (32 * Suc i)"
      unfolding M(2) using mod_digit[OF unat_lt32, of "?v + (?m - 1)" "32 * i" "-1"] xs(3) by simp
    also have "(?v + (?m - 1)) * 2 ^ 32 + unat (- 1 :: uint32) = bu_val (take (Suc i) pn) + (2 ^ (32 * Suc i) - 1)"
    proof -
      obtain k where "?m = Suc k" by (metis nat.exhaust power_not_zero zero_neq_numeral)
      then show ?thesis unfolding M(1) using i True w by (simp add: list_split_at)
    qed
    finally show ?thesis using True i xs(1,2)
      by (intro exI[of _ "xs @ [- 1]"]) (simp add: Let_def list_split_at)
  qed
qed

lemma add_carry:
  fixes c :: uint64 and x y :: uint32
  assumes "unat c \<le> 1"
  shows "unat (c + ucast x + ucast y) = unat c + unat x + unat y"
proof -
  have "unat (ucast z :: uint64) = unat z" for z :: uint32
    using unat_lt32[of z] by (simp add: unsigned_ucast_eq take_bit_nat_eq_self_iff)
  moreover have "unat x < 2 ^ 32" "unat y < 2 ^ 32" by (rule unat_lt32)+
  ultimately show ?thesis using assms by (simp add: unat_plus_no_overflow)
qed

lemma bu_add_loop_val:
  assumes "i \<le> length pn" "length b = length pn" "unat c \<le> 1"
  shows "\<exists>xs. bu_add_loop i pn b c = xs @ drop i pn \<and> length xs = i \<and>
    bu_val xs = (bu_val (take i pn) + bu_val (take i b) + unat c) mod 2 ^ (32 * i)"
  using assms
proof (induction i arbitrary: pn c)
  case 0
  then show ?case by simp
next
  case (Suc i)
  then have i: "i < length pn" "i < length b" by simp_all
  define n where "n = c + ucast (pn ! i) + ucast (b ! i)"
  let ?pn = "pn[i := ucast n]" and ?d = "drop_bit 32 n"
  have n: "unat n = unat c + unat (pn ! i) + unat (b ! i)"
    unfolding n_def using Suc.prems(3) by (rule add_carry)
  have d: "unat ?d = unat n div 2 ^ 32" by (rule unat_drop_bit_div)
  have low: "unat (ucast n :: uint32) = unat n mod 2 ^ 32"
    by (simp add: unsigned_ucast_eq take_bit_eq_mod)
  have "unat n < 2 * 2 ^ 32" using n Suc.prems(3) unat_lt32[of "pn ! i"] unat_lt32[of "b ! i"] by linarith
  then have "unat ?d \<le> 1" using d by (simp add: less_mult_imp_div_less)
  then obtain xs where xs: "bu_add_loop i ?pn b ?d = xs @ drop i ?pn" "length xs = i"
    "bu_val xs = (bu_val (take i ?pn) + bu_val (take i b) + unat ?d) mod 2 ^ (32 * i)"
    using Suc.IH[of ?pn ?d] Suc.prems by auto
  have "bu_val xs * 2 ^ 32 + unat (ucast n :: uint32) =
      ((bu_val (take i pn) + bu_val (take i b) + unat ?d) * 2 ^ 32 + unat (ucast n :: uint32)) mod 2 ^ (32 * i + 32)"
    using mod_digit[OF unat_lt32, of _ "32 * i" "ucast n"] xs(3) by simp
  also have "(bu_val (take i pn) + bu_val (take i b) + unat ?d) * 2 ^ 32 + unat (ucast n :: uint32) =
      (bu_val (take i pn) + bu_val (take i b)) * 2 ^ 32 + unat n"
    by (simp only: d low distrib_right add.assoc div_mult_mod_eq)
  also have "\<dots> = bu_val (take (Suc i) pn) + bu_val (take (Suc i) b) + unat c"
    unfolding n list_split_at(2)[OF i(1)] list_split_at(2)[OF i(2)] bu_val_snoc by (simp only: distrib_right ac_simps)
  finally have val: "bu_val (xs @ [ucast n]) =
      (bu_val (take (Suc i) pn) + bu_val (take (Suc i) b) + unat c) mod 2 ^ (32 * Suc i)"
    by (simp only: bu_val_snoc mult_Suc_right add.commute[of 32])
  have "bu_add_loop (Suc i) pn b c = (xs @ [ucast n]) @ drop (Suc i) pn"
    using xs(1) i by (simp add: Let_def n_def[symmetric] list_split_at)
  then show ?case using xs(2) val by (intro exI[of _ "xs @ [ucast n]"]) simp
qed

lemma bu_ops_val:
  "bu_val (bu_inc pn) = (bu_val pn + 1) mod 2 ^ (32 * length pn)"
  "bu_val (bu_dec pn) = (bu_val pn + (2 ^ (32 * length pn) - 1)) mod 2 ^ (32 * length pn)"
  "length b = length pn \<Longrightarrow> bu_val (bu_add pn b) = (bu_val pn + bu_val b) mod 2 ^ (32 * length pn)"
  using bu_inc_loop_val[of "length pn" pn] bu_dec_loop_val[of "length pn" pn]
    bu_add_loop_val[of "length pn" pn b 0]
  by (auto simp: bu_inc_def bu_dec_def bu_add_def)

lemma bu_ops_length [simp]:
  "length (bu_inc pn) = length pn" "length (bu_dec pn) = length pn"
  "length b = length pn \<Longrightarrow> length (bu_add pn b) = length pn"
  using bu_inc_loop_val[of "length pn" pn] bu_dec_loop_val[of "length pn" pn]
    bu_add_loop_val[of "length pn" pn b 0]
  by (auto simp: bu_inc_def bu_dec_def bu_add_def)

section \<open>Order\<close>

text \<open>The value of a byte string, and of the bytes of a word array.\<close>

definition be_val :: "blob \<Rightarrow> nat" where
  "be_val v = foldl (\<lambda>a b. a * 256 + unat b) 0 v"

lemma be_val_Nil [simp]: "be_val [] = 0"
  by (simp add: be_val_def)

lemma foldl_be: "foldl (\<lambda>a b. a * 256 + unat b) n v = n * 256 ^ length v + be_val v" for v :: blob
proof (induction v arbitrary: n rule: rev_induct)
  case Nil
  then show ?case by simp
next
  case (snoc b v)
  have "foldl (\<lambda>a b. a * 256 + unat b) n (v @ [b]) = (n * 256 ^ length v + be_val v) * 256 + unat b"
    by (simp add: snoc)
  moreover have "be_val (v @ [b]) = be_val v * 256 + unat b" by (simp add: be_val_def)
  ultimately show ?case by (simp add: distrib_right)
qed

lemma be_val_Cons: "be_val (b # v) = unat b * 256 ^ length v + be_val v"
  using foldl_be[of "unat b" v] by (simp add: be_val_def)

lemma be_val_append: "be_val (u @ v) = be_val u * 256 ^ length v + be_val v"
  using foldl_be[of "be_val u" v] by (simp add: be_val_def)

lemma unat_lt8: "unat (b :: byte) < 256"
  using unsigned_less[of b] by simp

lemma be_val_less: "be_val v < 256 ^ length v"
proof (induction v)
  case Nil
  then show ?case by simp
next
  case (Cons b v)
  have "unat b * 256 ^ length v + be_val v < (unat b + 1) * 256 ^ length v" using Cons by simp
  also have "\<dots> \<le> 256 * 256 ^ length v" using unat_lt8[of b] by (intro mult_right_mono) auto
  finally show ?case by (simp add: be_val_Cons)
qed

lemma be_val_bytes32: "be_val (bytes32 w) = unat w"
proof -
  have "be_val [a, b, c, d] = unat a * 2 ^ 24 + unat b * 2 ^ 16 + unat c * 2 ^ 8 + unat d" for a b c d
    by (simp add: be_val_def)
  then show ?thesis
    by (simp only: bytes32_def unat_byte ucast_and_byte unat_drop_bit_div base256_4[OF unat_lt32])
qed

lemma be_val_data: "be_val (bu_data pn) = bu_val pn"
proof (induction pn rule: rev_induct)
  case Nil
  then show ?case by (simp add: bu_data_def)
next
  case (snoc w pn)
  then show ?case by (simp add: bu_data_def be_val_append be_val_bytes32)
qed

lemma length_bu_data [simp]: "length (bu_data pn) = 4 * length pn"
  by (induction pn) (simp_all add: bu_data_def)

lemma be_digit_less:
  fixes a b :: nat
  assumes "a < b" "x < m" "y < m"
  shows "a * m + x < b * m + y"
proof -
  have "a * m + x < (a + 1) * m" using assms by simp
  also have "\<dots> \<le> b * m" using assms by (intro mult_right_mono) auto
  finally show ?thesis by simp
qed

lemma bu_compare_val:
  assumes "length a = length b"
  shows "bu_compare a b = (if be_val a = be_val b then 0 else if be_val b < be_val a then 1 else -1)"
  using assms
proof (induction a b rule: list_induct2)
  case Nil
  then show ?case by simp
next
  case (Cons x xs y ys)
  note less = be_val_less[of xs] be_val_less[of ys]
  show ?case
  proof (cases x y rule: linorder_cases)
    case equal
    then show ?thesis using Cons by (simp add: be_val_Cons)
  next
    case less
    then have "be_val (x # xs) < be_val (y # ys)"
      using be_digit_less[of "unat x" "unat y" "be_val xs" "256 ^ length ys" "be_val ys"] Cons.hyps
        be_val_less[of xs] be_val_less[of ys] by (simp add: be_val_Cons word_less_nat_alt)
    then show ?thesis using less by (auto simp: less_le_not_le)
  next
    case greater
    then have "be_val (y # ys) < be_val (x # xs)"
      using be_digit_less[of "unat y" "unat x" "be_val ys" "256 ^ length ys" "be_val xs"] Cons.hyps
        be_val_less[of xs] be_val_less[of ys] by (simp add: be_val_Cons word_less_nat_alt)
    then show ?thesis using greater by auto
  qed
qed

section \<open>Hexadecimal text\<close>

definition hex_spec :: "(byte \<Rightarrow> string) \<Rightarrow> bool" where
  "hex_spec hex \<longleftrightarrow> (\<forall>b. hex b = [charHex (unat b div 16), charHex (unat b mod 16)])"

lemma charHex_ok:
  assumes "d < 16"
  shows "charUnHex (charHex d) = int d" "charHex d \<noteq> CHR 0x00" "\<not> isspace (charHex d)"
    "charHex d \<noteq> CHR ''x''" "charHex d \<noteq> CHR ''X''"
proof -
  have "\<forall>d\<in>set [0..<16]. charUnHex (charHex d) = int d \<and> charHex d \<noteq> CHR 0x00 \<and>
    \<not> isspace (charHex d) \<and> charHex d \<noteq> CHR ''x'' \<and> charHex d \<noteq> CHR ''X''"
    unfolding isspace_def by code_simp
  then show "charUnHex (charHex d) = int d" "charHex d \<noteq> CHR 0x00" "\<not> isspace (charHex d)"
    "charHex d \<noteq> CHR ''x''" "charHex d \<noteq> CHR ''X''" using assms by auto
qed

lemma nibble_range: "unat b div 16 < 16" "unat b mod 16 < 16" for b :: byte
  using unat_lt8[of b] by (auto simp: less_mult_imp_div_less)

lemma hex_byte:
  fixes b :: byte
  shows "word_of_int (push_bit 4 (int (unat b div 16)) OR int (unat b mod 16)) = b"
proof -
  have "push_bit 4 (int (unat b div 16)) OR int (unat b mod 16) = int (unat b div 16) * 16 + int (unat b mod 16)"
    using nibble_range[of b] by (intro nibbles) auto
  also have "\<dots> = int (unat b)" by (metis of_nat_add of_nat_mult of_nat_numeral div_mult_mod_eq)
  finally show ?thesis by simp
qed

lemma strHex_simps:
  assumes "hex_spec hex"
  shows "strHex hex [] = []"
    "strHex hex (b # v) = charHex (unat b div 16) # charHex (unat b mod 16) # strHex hex v"
  using assms by (simp_all add: strHex_def hex_spec_def)

lemma length_strHex: "hex_spec hex \<Longrightarrow> length (strHex hex v) = 2 * length v"
  by (induction v) (simp_all add: strHex_simps)

lemma strHex_chars:
  assumes "hex_spec hex" "c \<in> set (strHex hex v)"
  shows "\<exists>d<16. c = charHex d"
  using assms(2)
proof (induction v)
  case Nil
  then show ?case by (simp add: strHex_simps[OF assms(1)])
next
  case (Cons b v)
  then consider "c = charHex (unat b div 16)" | "c = charHex (unat b mod 16)" | "c \<in> set (strHex hex v)"
    by (auto simp: strHex_simps[OF assms(1)])
  then show ?case using nibble_range[of b] Cons.IH by cases blast+
qed

lemma c_str_strHex: "hex_spec hex \<Longrightarrow> c_str (strHex hex v) = strHex hex v"
  unfolding c_str_def using strHex_chars[of hex _ v] charHex_ok(2) by (fastforce simp: takeWhile_eq_all_conv)

lemma strHex_nth:
  assumes "hex_spec hex" "i < length v"
  shows "char_at (strHex hex v) (2 * i) = charHex (unat (v ! i) div 16)"
    "char_at (strHex hex v) (2 * i + 1) = charHex (unat (v ! i) mod 16)"
proof -
  have "strHex hex v ! (2 * i) = charHex (unat (v ! i) div 16) \<and>
        strHex hex v ! (2 * i + 1) = charHex (unat (v ! i) mod 16)" using assms(2)
  proof (induction v arbitrary: i)
    case (Cons b v)
    then show ?case by (cases i) (simp_all add: strHex_simps[OF assms(1)])
  qed simp
  then show "char_at (strHex hex v) (2 * i) = charHex (unat (v ! i) div 16)"
    "char_at (strHex hex v) (2 * i + 1) = charHex (unat (v ! i) mod 16)"
    using assms by (simp_all add: char_at_def length_strHex)
qed

lemma setHexExact_loop_strHex:
  assumes "hex_spec hex" "i + n = length v" "length out = length v" "take i out = take i v"
  shows "setHexExact_loop n i (strHex hex v) out = (True, v)"
  using assms(2-4)
proof (induction n arbitrary: i out)
  case 0
  then show ?case by (simp add: length_strHex[OF assms(1)])
next
  case (Suc n)
  then have i: "i < length v" by simp
  have "word_of_int (push_bit 4 (int (unat (v ! i) div 16)) OR int (unat (v ! i) mod 16)) = v ! i"
    by (rule hex_byte)
  moreover have "take (Suc i) (out[i := v ! i]) = take (Suc i) v"
    using Suc.prems i by (simp add: take_Suc_conv_app_nth)
  ultimately show ?case using Suc.IH[of "Suc i" "out[i := v ! i]"] Suc.prems i
      charHex_ok(1)[OF nibble_range(1)[of "v ! i"]] charHex_ok(1)[OF nibble_range(2)[of "v ! i"]]
    by (simp only: setHexExact_loop.simps Let_def strHex_nth[OF assms(1) i]) simp
qed

lemma SetHex_strHex:
  assumes "hex_spec hex"
  shows "SetHex (length v) (strHex hex v) strict = (True, v)"
proof -
  let ?s = "strHex hex v"
  have all: "charUnHex c \<noteq> -1" "\<not> isspace c" "c \<noteq> CHR ''x''" "c \<noteq> CHR ''X''" if "c \<in> set ?s" for c
    using strHex_chars[OF assms that] charHex_ok by auto
  have "dropWhile isspace ?s = ?s" using all(2) by (cases ?s) auto
  moreover have "char_at ?s 1 \<noteq> CHR ''x''" "char_at ?s 1 \<noteq> CHR ''X''"
    using all(3,4) by (auto simp: char_at_def)
  moreover have tw: "takeWhile (\<lambda>c. charUnHex c \<noteq> -1) ?s = ?s" unfolding takeWhile_eq_all_conv using all(1) by blast
  moreover have "hex_pairs ?s = v"
    using charHex_ok(1) nibble_range
    by (induction v) (simp_all add: strHex_simps[OF assms] hex_byte)
  ultimately show ?thesis
    unfolding SetHex_def c_str_strHex[OF assms] Let_def by (simp add: tw length_strHex[OF assms])
qed

section \<open>Properties\<close>

text \<open>
  C21. Incrementing, decrementing and adding word arrays with their carry loops is arithmetic
  modulo two to the width on the numbers they stand for, and keeps the width.
\<close>

theorem base_uint_arithmetic:
  assumes "length b = length pn"
  shows "bu_val (bu_inc pn) = (bu_val pn + 1) mod 2 ^ (32 * length pn) \<and>
    (bu_val (bu_dec pn) + 1) mod 2 ^ (32 * length pn) = bu_val pn \<and>
    bu_val (bu_add pn b) = (bu_val pn + bu_val b) mod 2 ^ (32 * length pn) \<and>
    length (bu_inc pn) = length pn \<and> length (bu_dec pn) = length pn \<and> length (bu_add pn b) = length pn"
proof -
  let ?m = "2 ^ (32 * length pn) :: nat"
  have "(bu_val (bu_dec pn) + 1) mod ?m = (bu_val pn + (?m - 1) + 1) mod ?m"
    unfolding bu_ops_val(2) by (rule mod_add_left_eq)
  also have "bu_val pn + (?m - 1) + 1 = bu_val pn + ?m" by simp
  finally show ?thesis using bu_ops_val(1)[of pn] bu_ops_val(3)[OF assms] assms bu_val_less[of pn] by simp
qed

theorem base_uint_arithmetic_witness:
  "bu_val (bu_add [0xFFFFFFFF, 0xFFFFFFFF] [0, 2]) = (bu_val [0xFFFFFFFF, 0xFFFFFFFF] + bu_val [0, 2]) mod 2 ^ 64"
  using base_uint_arithmetic[of "[0, 2]" "[0xFFFFFFFF, 0xFFFFFFFF]"] by simp

text \<open>
  C22. Comparing the bytes of two values of one width, first difference first, is comparing the
  numbers; in particular the comparison operators are those of a total order.
\<close>

theorem base_uint_order:
  assumes "length a = length b"
  shows "(bu_less (bu_data a) (bu_data b) \<longleftrightarrow> bu_val a < bu_val b) \<and>
    (bu_eq (bu_data a) (bu_data b) \<longleftrightarrow> bu_val a = bu_val b) \<and>
    (bu_greater (bu_data a) (bu_data b) \<longleftrightarrow> bu_val b < bu_val a)"
  using bu_compare_val[of "bu_data a" "bu_data b"] assms
  by (auto simp: bu_less_def bu_eq_def bu_greater_def be_val_data)

theorem base_uint_order_witness:
  "bu_less (bu_data [1, 0xFFFFFFFF]) (bu_data [2, 0]) \<longleftrightarrow> bu_val [1, 0xFFFFFFFF] < bu_val [2, 0]"
  using base_uint_order[of "[1, 0xFFFFFFFF]" "[2, 0]"] by simp

text \<open>
  C23. Hexadecimal text read back, exactly or leniently, gives the value it was made from, provided
  the library's \<^verbatim>\<open>hex\<close> writes each byte as two upper-case digits.
\<close>

theorem base_uint_hex:
  assumes "hex_spec hex" "length old = length v"
  shows "SetHexExact (strHex hex v) old = (True, v) \<and> SetHex (length v) (strHex hex v) strict = (True, v)"
  using setHexExact_loop_strHex[OF assms(1), of 0 "length v" v old] SetHex_strHex[OF assms(1)] assms(2)
  by (simp add: SetHexExact_def c_str_strHex[OF assms(1)])

theorem base_uint_hex_witness:
  "SetHexExact (strHex (\<lambda>b. [charHex (unat b div 16), charHex (unat b mod 16)]) [0x1F, 0xA0]) [0, 0] = (True, [0x1F, 0xA0])"
  using base_uint_hex[of "\<lambda>b. [charHex (unat b div 16), charHex (unat b mod 16)]" "[0, 0]" "[0x1F, 0xA0]"]
  by (simp add: hex_spec_def)

end
