(* ===== verification/STAmount.thy ===== *)
theory STAmount
  imports IOUAmount_Correct BaseUint_Correct
begin

text \<open>
  Serialized amounts, \<^verbatim>\<open>protocol/STAmount.h\<close> and \<^verbatim>\<open>protocol/impl/STAmount.cpp\<close>, with the
  issue of an amount from \<^verbatim>\<open>protocol/Issue.h\<close>, \<^verbatim>\<open>protocol/impl/Issue.cpp\<close> and
  \<^verbatim>\<open>protocol/UintTypes.h\<close>.  The 64-bit mantissa is a natural number and every operation that
  can exceed 64 bits is reduced explicitly; currencies and accounts are their twenty bytes.  The
  field name that an amount carries is left out.
\<close>

section \<open>Issues\<close>

record Issue =
  currency :: blob
  account :: blob

definition xrpCurrency :: blob where "xrpCurrency = bu_data (bu_assign 5 0)"
definition noCurrency :: blob where "noCurrency = bu_data (bu_assign 5 1)"
definition badCurrency :: blob where "badCurrency = bu_data (bu_assign 5 0x5852500000000000)"

definition isXRP_id :: "blob \<Rightarrow> bool" where
  "isXRP_id c \<longleftrightarrow> bu_isZero c"

definition xrpIssue :: Issue where
  "xrpIssue = \<lparr>currency = xrpCurrency, account = bu_data (bu_assign 5 0)\<rparr>"

definition noIssue :: Issue where
  "noIssue = \<lparr>currency = noCurrency, account = bu_data (bu_assign 5 1)\<rparr>"

definition isConsistent :: "Issue \<Rightarrow> bool" where
  "isConsistent ac \<longleftrightarrow> isXRP_id (currency ac) = isXRP_id (account ac)"

definition issue_compare :: "Issue \<Rightarrow> Issue \<Rightarrow> int" where
  "issue_compare lhs rhs =
     (let diff = bu_compare (currency lhs) (currency rhs) in
      if diff \<noteq> 0 then diff
      else if isXRP_id (currency lhs) then 0
      else bu_compare (account lhs) (account rhs))"

definition issue_eq :: "Issue \<Rightarrow> Issue \<Rightarrow> bool" where
  "issue_eq lhs rhs \<longleftrightarrow> issue_compare lhs rhs = 0"

definition issue_less :: "Issue \<Rightarrow> Issue \<Rightarrow> bool" where
  "issue_less lhs rhs \<longleftrightarrow> issue_compare lhs rhs < 0"

section \<open>The amount\<close>

record STAmount =
  mIssue :: Issue
  mValue :: nat
  mOffset :: int
  mIsNative :: bool
  mIsNegative :: bool

definition cMinOffset :: int where "cMinOffset = -96"
definition cMaxOffset :: int where "cMaxOffset = 80"
definition cMinValue :: nat where "cMinValue = 1000000000000000"
definition cMaxValue :: nat where "cMaxValue = 9999999999999999"
definition cMaxNative :: nat where "cMaxNative = 9000000000000000000"
definition cMaxNativeN :: nat where "cMaxNativeN = 100000000000000000"
definition cNotNative :: uint64 where "cNotNative = 0x8000000000000000"
definition cPosNative :: uint64 where "cPosNative = 0x4000000000000000"
definition tenTo14 :: nat where "tenTo14 = 100000000000000"
definition tenTo14m1 :: nat where "tenTo14m1 = tenTo14 - 1"
definition tenTo17 :: nat where "tenTo17 = tenTo14 * 1000"

lemmas st_consts = cMinOffset_def cMaxOffset_def cMinValue_def cMaxValue_def cMaxNativeN_def

definition u64 :: "nat \<Rightarrow> nat" where "u64 n = n mod 2 ^ 64"

text \<open>Conversions between the unsigned and the signed 64-bit type.\<close>

definition to_s64 :: "nat \<Rightarrow> int" where
  "to_s64 n = (if n < 2 ^ 63 then int n else int n - 2 ^ 64)"

definition of_s64 :: "int \<Rightarrow> nat" where
  "of_s64 i = nat (i mod 2 ^ 64)"

definition st_isXRP :: "STAmount \<Rightarrow> bool" where
  "st_isXRP a \<longleftrightarrow> isXRP_id (currency (mIssue a))"

definition st_signum :: "STAmount \<Rightarrow> int" where
  "st_signum a = (if mValue a \<noteq> 0 then (if mIsNegative a then -1 else 1) else 0)"

text \<open>Comparison with \<^verbatim>\<open>beast::zero\<close> is by the sign.\<close>

definition st_isZero :: "STAmount \<Rightarrow> bool" where
  "st_isZero a \<longleftrightarrow> st_signum a = 0"

subsection \<open>Canonical form\<close>

function native_down :: "nat \<Rightarrow> int \<Rightarrow> nat \<times> int" where
  "native_down v off = (if off < 0 then native_down (v div 10) (off + 1) else (v, off))"
  by pat_completeness auto
termination by (relation "measure (\<lambda>(v, off). nat (- off))") auto

function native_up :: "nat \<Rightarrow> int \<Rightarrow> nat \<times> int" where
  "native_up v off = (if 0 < off then native_up (u64 (v * 10)) (off - 1) else (v, off))"
  by pat_completeness auto
termination by (relation "measure (\<lambda>(v, off). nat off)") auto

declare native_down.simps [simp del] native_up.simps [simp del]

definition canonicalize :: "STAmount \<Rightarrow> throw + STAmount" where
  "canonicalize a =
     (if st_isXRP a then
        let a1 = a\<lparr>mIsNative := True\<rparr> in
        if mValue a1 = 0 then Inr (a1\<lparr>mOffset := 0, mIsNegative := False\<rparr>)
        else
          let (v1, o1) = native_down (mValue a1) (mOffset a1);
              (v2, o2) = native_up v1 o1
          in if cMaxNativeN < v2 then Inl (runtime_error ''Native currency amount out of range'')
             else Inr (a1\<lparr>mValue := v2, mOffset := o2\<rparr>)
      else
        let a1 = a\<lparr>mIsNative := False\<rparr> in
        if mValue a1 = 0 then Inr (a1\<lparr>mOffset := -100, mIsNegative := False\<rparr>)
        else
          let (v1, o1) = scale_up cMinValue cMinOffset (mValue a1) (mOffset a1) in
          case scale_down cMaxValue cMaxOffset v1 o1 of
            None \<Rightarrow> Inl (runtime_error ''value overflow'')
          | Some (v2, o2) \<Rightarrow>
              if o2 < cMinOffset \<or> v2 < cMinValue
              then Inr (a1\<lparr>mValue := 0, mIsNegative := False, mOffset := -100\<rparr>)
              else if cMaxOffset < o2 then Inl (runtime_error ''value overflow'')
              else Inr (a1\<lparr>mValue := v2, mOffset := o2\<rparr>))"

subsection \<open>Construction\<close>

text \<open>
  \<^verbatim>\<open>STAmount (issue, mantissa, exponent, negative)\<close>; the overload with a field name and the
  one with a native flag assign the same members before canonicalising, which sets the flag.
\<close>

definition mkAmount :: "Issue \<Rightarrow> nat \<Rightarrow> int \<Rightarrow> bool \<Rightarrow> throw + STAmount" where
  "mkAmount iss m e neg =
     canonicalize \<lparr>mIssue = iss, mValue = m, mOffset = e, mIsNative = False, mIsNegative = neg\<rparr>"

definition mkUnchecked :: "Issue \<Rightarrow> nat \<Rightarrow> int \<Rightarrow> bool \<Rightarrow> bool \<Rightarrow> STAmount" where
  "mkUnchecked iss m e native neg =
     \<lparr>mIssue = iss, mValue = m, mOffset = e, mIsNative = native, mIsNegative = neg\<rparr>"

text \<open>\<^verbatim>\<open>set\<close>: the sign and magnitude of a signed mantissa.\<close>

definition st_set :: "int \<Rightarrow> STAmount \<Rightarrow> STAmount" where
  "st_set v a =
     (if v < 0 then a\<lparr>mIsNegative := True, mValue := of_s64 (- v)\<rparr>
      else a\<lparr>mIsNegative := False, mValue := of_s64 v\<rparr>)"

definition mkNativeSigned :: "int \<Rightarrow> STAmount" where
  "mkNativeSigned m =
     st_set m \<lparr>mIssue = xrpIssue, mValue = 0, mOffset = 0, mIsNative = True, mIsNegative = False\<rparr>"

definition mkNativeNamed :: "nat \<Rightarrow> bool \<Rightarrow> STAmount" where
  "mkNativeNamed m neg =
     \<lparr>mIssue = xrpIssue, mValue = m, mOffset = 0, mIsNative = True, mIsNegative = neg\<rparr>"

definition mkNative :: "nat \<Rightarrow> bool \<Rightarrow> STAmount" where
  "mkNative m neg =
     \<lparr>mIssue = xrpIssue, mValue = m, mOffset = 0, mIsNative = True, mIsNegative = (m \<noteq> 0 \<and> neg)\<rparr>"

definition mkSigned :: "Issue \<Rightarrow> int \<Rightarrow> int \<Rightarrow> throw + STAmount" where
  "mkSigned iss m e =
     canonicalize (st_set m \<lparr>mIssue = iss, mValue = 0, mOffset = e, mIsNative = False, mIsNegative = False\<rparr>)"

definition mkFromIOU :: "IOUAmount \<Rightarrow> Issue \<Rightarrow> throw + STAmount" where
  "mkFromIOU amount iss =
     (let neg = iou_signum amount < 0 in
      canonicalize \<lparr>mIssue = iss,
        mValue = (if neg then of_s64 (- mantissa amount) else of_s64 (mantissa amount)),
        mOffset = exponent amount, mIsNative = False, mIsNegative = neg\<rparr>)"

definition mkFromXRP :: "int \<Rightarrow> throw + STAmount" where
  "mkFromXRP drops =
     (let neg = drops < 0 in
      canonicalize \<lparr>mIssue = xrpIssue, mValue = (if neg then of_s64 (- drops) else of_s64 drops),
        mOffset = 0, mIsNative = True, mIsNegative = neg\<rparr>)"

subsection \<open>Conversions and simple operations\<close>

definition st_xrp :: "STAmount \<Rightarrow> throw + int" where
  "st_xrp a =
     (if \<not> mIsNative a then Inl (logic_error ''Cannot return non-native STAmount as XRPAmount'')
      else let drops = to_s64 (mValue a) in Inr (if mIsNegative a then - drops else drops))"

text \<open>The constructor of \<^verbatim>\<open>IOUAmount\<close> may itself throw, with an error of its own type.\<close>

definition lift_iou :: "amount_error + 'a \<Rightarrow> throw + 'a" where
  "lift_iou r = (case r of Inl (Overflow msg) \<Rightarrow> Inl (overflow_error msg)
     | Inl DivideByZero \<Rightarrow> Inl (runtime_error ''division by zero'') | Inr x \<Rightarrow> Inr x)"

definition st_iou :: "STAmount \<Rightarrow> throw + IOUAmount" where
  "st_iou a =
     (if mIsNative a then Inl (logic_error ''Cannot return native STAmount as IOUAmount'')
      else
        let m = to_s64 (mValue a) in
        lift_iou (mkIOU (if mIsNegative a then - m else m) (mOffset a)))"

definition getSNValue :: "STAmount \<Rightarrow> throw + int" where
  "getSNValue a =
     (if \<not> mIsNative a then Inl (runtime_error ''amount is not native!'')
      else let ret = to_s64 (mValue a) in Inr (if mIsNegative a then - ret else ret))"

definition areComparable :: "STAmount \<Rightarrow> STAmount \<Rightarrow> bool" where
  "areComparable v1 v2 \<longleftrightarrow> mIsNative v1 = mIsNative v2 \<and>
     bu_eq (currency (mIssue v1)) (currency (mIssue v2))"

definition st_setIssue :: "Issue \<Rightarrow> STAmount \<Rightarrow> STAmount" where
  "st_setIssue iss a = (let a1 = a\<lparr>mIssue := iss\<rparr> in a1\<lparr>mIsNative := st_isXRP a1\<rparr>)"

definition st_setIssuer :: "blob \<Rightarrow> STAmount \<Rightarrow> STAmount" where
  "st_setIssuer acc a = st_setIssue ((mIssue a)\<lparr>account := acc\<rparr>) a"

definition st_clear :: "STAmount \<Rightarrow> STAmount" where
  "st_clear a = a\<lparr>mOffset := (if mIsNative a then 0 else -100), mValue := 0, mIsNegative := False\<rparr>"

definition st_clearTo :: "Issue \<Rightarrow> STAmount \<Rightarrow> STAmount" where
  "st_clearTo iss a = st_clear (st_setIssue iss a)"

definition st_negate :: "STAmount \<Rightarrow> STAmount" where
  "st_negate a = (if \<not> st_isZero a then a\<lparr>mIsNegative := \<not> mIsNegative a\<rparr> else a)"

definition st_zeroed :: "STAmount \<Rightarrow> throw + STAmount" where
  "st_zeroed a = mkAmount (mIssue a) 0 0 False"

definition isLegalNet :: "STAmount \<Rightarrow> bool" where
  "isLegalNet a \<longleftrightarrow> \<not> mIsNative a \<or> mValue a \<le> cMaxNativeN"

definition isDefault :: "STAmount \<Rightarrow> bool" where
  "isDefault a \<longleftrightarrow> mValue a = 0 \<and> mIsNative a"

subsection \<open>Arithmetic and comparison\<close>

definition st_uminus :: "STAmount \<Rightarrow> STAmount" where
  "st_uminus a =
     (if mValue a = 0 then a
      else mkUnchecked (mIssue a) (mValue a) (mOffset a) (mIsNative a) (\<not> mIsNegative a))"

definition st_add :: "STAmount \<Rightarrow> STAmount \<Rightarrow> throw + STAmount" where
  "st_add v1 v2 =
     (if \<not> areComparable v1 v2 then Inl (runtime_error ''Can't add amounts that are't comparable!'')
      else if st_isZero v2 then Inr v1
      else if st_isZero v1 then mkAmount (mIssue v1) (mValue v2) (mOffset v2) (mIsNegative v2)
      else if mIsNative v1 then
        andThen (getSNValue v1) (\<lambda>s1. andThen (getSNValue v2) (\<lambda>s2. Inr (mkNativeSigned (s1 + s2))))
      else
        let w1 = to_s64 (mValue v1); w2 = to_s64 (mValue v2);
            vv1 = (if mIsNegative v1 then - w1 else w1);
            vv2 = (if mIsNegative v2 then - w2 else w2);
            (vv1', ov1) = align vv1 (mOffset v1) (mOffset v2);
            (vv2', ov2) = align vv2 (mOffset v2) ov1;
            fv = vv1' + vv2'
        in if -10 \<le> fv \<and> fv \<le> 10 then mkAmount (mIssue v1) 0 0 False
           else if 0 \<le> fv then mkAmount (mIssue v1) (of_s64 fv) ov1 False
           else mkAmount (mIssue v1) (of_s64 (- fv)) ov1 True)"

definition st_sub :: "STAmount \<Rightarrow> STAmount \<Rightarrow> throw + STAmount" where
  "st_sub v1 v2 = st_add v1 (st_uminus v2)"

definition st_eq :: "STAmount \<Rightarrow> STAmount \<Rightarrow> bool" where
  "st_eq lhs rhs \<longleftrightarrow> areComparable lhs rhs \<and> mIsNegative lhs = mIsNegative rhs \<and>
     mOffset lhs = mOffset rhs \<and> mValue lhs = mValue rhs"

definition st_less :: "STAmount \<Rightarrow> STAmount \<Rightarrow> throw + bool" where
  "st_less lhs rhs =
     (if \<not> areComparable lhs rhs
      then Inl (runtime_error ''Can't compare amounts that are't comparable!'')
      else if mIsNegative lhs \<noteq> mIsNegative rhs then Inr (mIsNegative lhs)
      else if mValue lhs = 0 then
        (if mIsNegative rhs then Inr False else Inr (mValue rhs \<noteq> 0))
      else if mValue rhs = 0 then Inr False
      else if mOffset rhs < mOffset lhs then Inr (mIsNegative lhs)
      else if mOffset lhs < mOffset rhs then Inr (\<not> mIsNegative lhs)
      else if mValue rhs < mValue lhs then Inr (mIsNegative lhs)
      else if mValue lhs < mValue rhs then Inr (\<not> mIsNegative lhs)
      else Inr False)"

subsection \<open>Wire format\<close>

text \<open>
  The top bit tells issued currency from XRP; below it XRP has a sign bit and the drops, an issued
  amount ten bits of sign and biased exponent and the mantissa.
\<close>

definition amount_word :: "STAmount \<Rightarrow> uint64" where
  "amount_word a =
     (if mIsNative a then
        (if \<not> mIsNegative a then of_nat (mValue a) OR cPosNative else of_nat (mValue a))
      else if st_isZero a then cNotNative
      else if mIsNegative a then
        of_nat (mValue a) OR push_bit (64 - 10) (of_int (mOffset a + 512 + 97))
      else of_nat (mValue a) OR push_bit (64 - 10) (of_int (mOffset a + 512 + 256 + 97)))"

definition st_serialize :: "STAmount \<Rightarrow> Serializer \<Rightarrow> Serializer" where
  "st_serialize a s =
     (let s1 = snd (add64 (amount_word a) s) in
      if mIsNative a then s1
      else snd (add160 (account (mIssue a)) (snd (add160 (currency (mIssue a)) s1))))"

definition st_deserialize :: "SerialIter \<Rightarrow> throw + STAmount \<times> SerialIter" where
  "st_deserialize sit =
     andThen (sit_get64 sit) (\<lambda>(value, sit1).
       if value AND cNotNative = 0 then
         if value AND cPosNative \<noteq> 0 then
           Inr (mkUnchecked xrpIssue (unat (value AND NOT cPosNative)) 0 True False, sit1)
         else if value = 0 then Inl (runtime_error ''negative zero is not canonical'')
         else Inr (mkUnchecked xrpIssue (unat value) 0 True True, sit1)
       else
         andThen (sit_get160 sit1) (\<lambda>(cur, sit2).
           if isXRP_id cur then Inl (runtime_error ''invalid native currency'')
           else
             andThen (sit_get160 sit2) (\<lambda>(acc, sit3).
               if isXRP_id acc then Inl (runtime_error ''invalid native account'')
               else
                 let iss = \<lparr>currency = cur, account = acc\<rparr>;
                     offset = int (unat (drop_bit (64 - 10) value));
                     val = unat (value AND NOT (push_bit (64 - 10) 1023))
                 in if val \<noteq> 0 then
                      let isNegative = (offset AND 256 = 0);
                          off = (offset AND 255) - 97
                      in if val < cMinValue \<or> cMaxValue < val \<or> off < cMinOffset \<or> cMaxOffset < off
                         then Inl (runtime_error ''invalid currency value'')
                         else
                           andThen (canonicalize (mkUnchecked iss val off False isNegative))
                             (\<lambda>a. Inr (a, sit3))
                    else if offset \<noteq> 512 then Inl (runtime_error ''invalid currency value'')
                    else
                      andThen (canonicalize (mkUnchecked iss 0 0 False False))
                        (\<lambda>a. Inr (a, sit3)))))"

section \<open>Multiplication and division\<close>

definition muldiv :: "nat \<Rightarrow> nat \<Rightarrow> nat \<Rightarrow> throw + nat" where
  "muldiv multiplier multiplicand divisor =
     (let ret = multiplier * multiplicand div divisor in
      if 2 ^ 64 - 1 < ret then Inl (overflow_error ''overflow'') else Inr ret)"

definition muldiv_round :: "nat \<Rightarrow> nat \<Rightarrow> nat \<Rightarrow> nat \<Rightarrow> throw + nat" where
  "muldiv_round multiplier multiplicand divisor rounding =
     (let ret = (multiplier * multiplicand + rounding) div divisor in
      if 2 ^ 64 - 1 < ret then Inl (overflow_error ''overflow'') else Inr ret)"

text \<open>
  The loop that gives a native mantissa sixteen digits.  Its callers have returned before when
  the amount is zero, so it ends; the model stops at zero, where the loop is never entered.
\<close>

function native_digits :: "nat \<Rightarrow> int \<Rightarrow> nat \<times> int" where
  "native_digits v off = (if v < cMinValue \<and> v \<noteq> 0 then native_digits (v * 10) (off - 1) else (v, off))"
  by pat_completeness auto
termination by (relation "measure (\<lambda>(v, off). cMinValue - v)") auto

declare native_digits.simps [simp del]

definition operand :: "STAmount \<Rightarrow> nat \<times> int" where
  "operand a = (if mIsNative a then native_digits (mValue a) (mOffset a) else (mValue a, mOffset a))"

definition st_divide :: "STAmount \<Rightarrow> STAmount \<Rightarrow> Issue \<Rightarrow> throw + STAmount" where
  "st_divide num den iss =
     (if st_isZero den then Inl (runtime_error ''division by zero'')
      else if st_isZero num then mkAmount iss 0 0 False
      else
        let (numVal, numOffset) = operand num; (denVal, denOffset) = operand den in
        andThen (muldiv numVal tenTo17 denVal) (\<lambda>m.
          mkAmount iss (u64 (m + 5)) (numOffset - denOffset - 17) (mIsNegative num \<noteq> mIsNegative den)))"

text \<open>The product of two XRP amounts, as \<^verbatim>\<open>multiply\<close> and \<^verbatim>\<open>mulRound\<close> compute it.\<close>

definition native_product :: "STAmount \<Rightarrow> STAmount \<Rightarrow> throw + STAmount" where
  "native_product v1 v2 =
     andThen (getSNValue v1) (\<lambda>s1. andThen (getSNValue v2) (\<lambda>s2.
       let minV = of_s64 (if s1 < s2 then s1 else s2);
           maxV = of_s64 (if s1 < s2 then s2 else s1)
       in if 3000000000 < minV then Inl (runtime_error ''Native value overflow'')
          else if 2095475792 < u64 (maxV div 2 ^ 32 * minV)
          then Inl (runtime_error ''Native value overflow'')
          else Inr (mkNativeNamed (u64 (minV * maxV)) False)))"

definition st_multiply :: "STAmount \<Rightarrow> STAmount \<Rightarrow> Issue \<Rightarrow> throw + STAmount" where
  "st_multiply v1 v2 iss =
     (if st_isZero v1 \<or> st_isZero v2 then mkAmount iss 0 0 False
      else if mIsNative v1 \<and> mIsNative v2 \<and> isXRP_id (currency iss) then native_product v1 v2
      else
        let (value1, offset1) = operand v1; (value2, offset2) = operand v2 in
        andThen (muldiv value1 value2 tenTo14) (\<lambda>m.
          mkAmount iss (u64 (m + 7)) (offset1 + offset2 + 14) (mIsNegative v1 \<noteq> mIsNegative v2)))"

function drop_while_above :: "nat \<Rightarrow> nat \<Rightarrow> int \<Rightarrow> nat \<times> int" where
  "drop_while_above hi v off = (if hi < v then drop_while_above hi (v div 10) (off + 1) else (v, off))"
  by pat_completeness auto
termination by (relation "measure (\<lambda>(hi, v, off). v)") auto

text \<open>The loop \<^verbatim>\<open>while (offset < -1)\<close> of the native case, with its count of rounds.\<close>

function drop_until :: "nat \<Rightarrow> int \<Rightarrow> nat \<Rightarrow> nat \<times> int \<times> nat" where
  "drop_until v off loops = (if off < -1 then drop_until (v div 10) (off + 1) (loops + 1) else (v, off, loops))"
  by pat_completeness auto
termination by (relation "measure (\<lambda>(v, off, loops). nat (- off))") auto

declare drop_while_above.simps [simp del] drop_until.simps [simp del]

definition canonicalizeRound :: "bool \<Rightarrow> nat \<Rightarrow> int \<Rightarrow> nat \<times> int" where
  "canonicalizeRound native value off =
     (if native then
        (if off < 0 then
           let (v, o1, loops) = drop_until value off 0;
               v1 = u64 (v + (if 2 \<le> loops then 9 else 10))
           in (v1 div 10, o1 + 1)
         else (value, off))
      else if cMaxValue < value then
        let (v, o1) = drop_while_above (10 * cMaxValue) value off;
            v1 = u64 (v + 9)
        in (v1 div 10, o1 + 1)
      else (value, off))"

text \<open>
  The tail shared by \<^verbatim>\<open>mulRound\<close> and \<^verbatim>\<open>divRound\<close>; \<open>sw1\<close> and \<open>sw2\<close> are the thread-local
  switches \<^verbatim>\<open>stAmountCalcSwitchover\<close> and \<^verbatim>\<open>stAmountCalcSwitchover2\<close>.
\<close>

definition finish_round :: "bool \<Rightarrow> bool \<Rightarrow> Issue \<Rightarrow> nat \<Rightarrow> int \<Rightarrow> bool \<Rightarrow> bool \<Rightarrow> throw + STAmount" where
  "finish_round sw1 sw2 iss amount off resultNegative roundUp =
     (let xrp = isXRP_id (currency iss);
          (amount1, off1) = (if resultNegative \<noteq> roundUp then canonicalizeRound xrp amount off
                             else (amount, off))
      in andThen (mkAmount iss amount1 off1 resultNegative) (\<lambda>result.
           if roundUp \<and> \<not> resultNegative \<and> st_isZero result \<and> sw1 then
             (if xrp \<and> sw2 then mkAmount iss 1 0 resultNegative
              else mkAmount iss cMinValue cMinOffset resultNegative)
           else Inr result))"

definition mulRound :: "bool \<Rightarrow> bool \<Rightarrow> STAmount \<Rightarrow> STAmount \<Rightarrow> Issue \<Rightarrow> bool \<Rightarrow> throw + STAmount" where
  "mulRound sw1 sw2 v1 v2 iss roundUp =
     (if st_isZero v1 \<or> st_isZero v2 then mkAmount iss 0 0 False
      else if mIsNative v1 \<and> mIsNative v2 \<and> isXRP_id (currency iss) then native_product v1 v2
      else
        let (value1, offset1) = operand v1; (value2, offset2) = operand v2;
            resultNegative = (mIsNegative v1 \<noteq> mIsNegative v2)
        in andThen (muldiv_round value1 value2 tenTo14 (if resultNegative \<noteq> roundUp then tenTo14m1 else 0))
             (\<lambda>amount. finish_round sw1 sw2 iss amount (offset1 + offset2 + 14) resultNegative roundUp))"

definition divRound :: "bool \<Rightarrow> bool \<Rightarrow> STAmount \<Rightarrow> STAmount \<Rightarrow> Issue \<Rightarrow> bool \<Rightarrow> throw + STAmount" where
  "divRound sw1 sw2 num den iss roundUp =
     (if st_isZero den then Inl (runtime_error ''division by zero'')
      else if st_isZero num then mkAmount iss 0 0 False
      else
        let (numVal, numOffset) = operand num; (denVal, denOffset) = operand den;
            resultNegative = (mIsNegative num \<noteq> mIsNegative den)
        in andThen (muldiv_round numVal tenTo17 denVal (if resultNegative \<noteq> roundUp then denVal - 1 else 0))
             (\<lambda>amount. finish_round sw1 sw2 iss amount (numOffset - denOffset - 17) resultNegative roundUp))"

section \<open>Rates\<close>

text \<open>\<^verbatim>\<open>getRate\<close> catches every exception; its assertion holds for canonical results.\<close>

definition getRate :: "STAmount \<Rightarrow> STAmount \<Rightarrow> uint64" where
  "getRate offerOut offerIn =
     (if st_isZero offerOut then 0
      else case st_divide offerIn offerOut noIssue of
             Inl _ \<Rightarrow> 0
           | Inr r \<Rightarrow>
               if st_isZero r then 0
               else push_bit (64 - 8) (of_int (mOffset r + 100)) OR of_nat (mValue r))"

definition amountFromQuality :: "uint64 \<Rightarrow> throw + STAmount" where
  "amountFromQuality rate =
     (if rate = 0 then mkAmount noIssue 0 0 False
      else
        let m = unat (rate AND NOT (push_bit (64 - 8) 255));
            e = int (unat (drop_bit (64 - 8) rate)) - 100
        in mkAmount noIssue m e False)"

end
