(* ===== verification/STAmount_Correct.thy ===== *)
theory STAmount_Correct
  imports STAmount
begin

text \<open>
  Correctness of the serialized amounts: canonical form and its agreement with
  \<^verbatim>\<open>IOUAmount\<close>, the order, exact XRP addition, the wire format in both directions, and the
  encoding of rates.
\<close>

section \<open>Well-formed amounts\<close>

interpretation st: decimal_format cMinValue cMaxValue cMinOffset cMaxOffset
  by unfold_locales (simp_all add: st_consts)

lemma st_fits_iff:
  "st.fits a e \<longleftrightarrow> 1000000000000000 \<le> a \<and> a \<le> 9999999999999999 \<and> -96 \<le> e \<and> e \<le> 80"
  unfolding st.fits_def unfolding st_consts ..

lemma st_fits_iou: "st.fits a e \<longleftrightarrow> iou.fits a e"
  by (simp only: st_fits_iff iou_fits_iff)

definition native_ok :: "STAmount \<Rightarrow> bool" where
  "native_ok a \<longleftrightarrow> mIsNative a \<and> st_isXRP a \<and> mOffset a = 0 \<and> mValue a \<le> cMaxNativeN \<and>
     (mValue a = 0 \<longrightarrow> \<not> mIsNegative a)"

definition issued_ok :: "STAmount \<Rightarrow> bool" where
  "issued_ok a \<longleftrightarrow> \<not> mIsNative a \<and> \<not> st_isXRP a \<and>
     (mValue a = 0 \<and> mOffset a = -100 \<and> \<not> mIsNegative a \<or> st.fits (mValue a) (mOffset a))"

definition st_ok :: "STAmount \<Rightarrow> bool" where
  "st_ok a \<longleftrightarrow> native_ok a \<or> issued_ok a"

definition st_signed :: "STAmount \<Rightarrow> int" where
  "st_signed a = apply_sign (mIsNegative a) (mValue a)"

definition st_value :: "STAmount \<Rightarrow> rat" where
  "st_value a = dec (st_signed a) (mOffset a)"

lemma st_isZero_iff: "st_isZero a \<longleftrightarrow> mValue a = 0"
  by (simp add: st_isZero_def st_signum_def)

text \<open>The issued amount as the other class represents it.\<close>

definition iou_of :: "STAmount \<Rightarrow> IOUAmount" where
  "iou_of a = \<lparr>mantissa = st_signed a, exponent = mOffset a\<rparr>"

lemma iou_of_ok: "issued_ok a \<Longrightarrow> iou_ok (iou_of a)"
  by (auto simp: issued_ok_def iou_of_def iou_ok_fits iou_zero_def st_signed_def st_fits_iou)

lemma iou_of_value: "iou_value (iou_of a) = st_value a"
  by (simp add: iou_value_def iou_of_def st_value_def)

section \<open>Canonicalisation of issued amounts\<close>

definition same_outcome :: "throw + STAmount \<Rightarrow> amount_error + IOUAmount \<Rightarrow> bool" where
  "same_outcome r s \<longleftrightarrow>
     (case (r, s) of (Inr a, Inr b) \<Rightarrow> issued_ok a \<and> iou_of a = b | (Inl _, Inl _) \<Rightarrow> True | _ \<Rightarrow> False)"

lemma st_iou_consts: "minMantissa = cMinValue" "maxMantissa = cMaxValue" "minExponent = cMinOffset" "maxExponent = cMaxOffset"
  by (simp_all add: iou_consts st_consts)

lemma canonicalize_issued:
  assumes "\<not> st_isXRP a"
  shows "same_outcome (canonicalize a) (iou_normalize (st_signed a) (mOffset a))"
proof (cases "mValue a = 0")
  case True
  then show ?thesis using assms
    by (simp add: canonicalize_def iou_normalize_def st_signed_def same_outcome_def issued_ok_def
        iou_of_def iou_zero_def st_isXRP_def)
next
  case False
  have abs: "nat \<bar>st_signed a\<bar> = mValue a" and neg: "st_signed a < 0 \<longleftrightarrow> mIsNegative a" and nz: "st_signed a \<noteq> 0"
    using False by (auto simp: st_signed_def)
  obtain v1 o1 where up: "scale_up cMinValue cMinOffset (mValue a) (mOffset a) = (v1, o1)" by fastforce
  show ?thesis
  proof (cases "scale_down cMaxValue cMaxOffset v1 o1")
    case None
    then show ?thesis using assms False nz
      by (simp add: canonicalize_def iou_normalize_def abs st_iou_consts up same_outcome_def)
  next
    case (Some q)
    obtain v2 o2 where q: "q = (v2, o2)" by fastforce
    have down: "scale_down cMaxValue cMaxOffset v1 o1 = Some (v2, o2)" using Some q by simp
    note form = canonicalize_def iou_normalize_def abs neg st_iou_consts up down same_outcome_def
    show ?thesis
    proof (cases "cMinOffset \<le> o2 \<and> cMinValue \<le> v2 \<and> o2 \<le> cMaxOffset")
      case True
      then have "st.fits v2 o2" using st.scale_fits(1)[OF up down] by simp
      then show ?thesis using assms False nz True
        by (simp add: form issued_ok_def iou_of_def st_signed_def st_isXRP_def)
    next
      case F: False
      then show ?thesis using assms False nz
        by (auto simp: form issued_ok_def iou_of_def st_signed_def st_isXRP_def iou_zero_def)
    qed
  qed
qed

section \<open>Order\<close>

lemma st_less_issued:
  assumes "issued_ok a" "issued_ok b" "areComparable a b"
  shows "st_less a b = Inr (iou_less (iou_of a) (iou_of b))"
  using assms
  by (auto simp: st_less_def iou_less_def iou_of_def st_signed_def apply_sign_def issued_ok_def st_fits_iff Let_def)

lemma st_less_native:
  assumes "native_ok a" "native_ok b" "areComparable a b"
  shows "st_less a b = Inr (st_signed a < st_signed b)"
  using assms by (auto simp: st_less_def st_signed_def apply_sign_def native_ok_def)

lemma comparable_kind:
  assumes "st_ok a" "st_ok b" "areComparable a b"
  obtains "native_ok a" "native_ok b" | "issued_ok a" "issued_ok b"
  using assms by (auto simp: st_ok_def areComparable_def native_ok_def issued_ok_def)

lemma st_value_native: "native_ok a \<Longrightarrow> st_value a = of_int (st_signed a)"
  by (simp add: st_value_def native_ok_def dec_def)

section \<open>Addition\<close>

lemma s64_small: "n < 2 ^ 63 \<Longrightarrow> to_s64 n = int n" "0 \<le> i \<Longrightarrow> i < 2 ^ 63 \<Longrightarrow> of_s64 i = nat i"
  by (simp_all add: to_s64_def of_s64_def)

lemma issued_value_small: "issued_ok a \<Longrightarrow> mValue a < 2 ^ 63"
  by (auto simp: issued_ok_def st_fits_iff)

lemma native_value_small: "native_ok a \<Longrightarrow> mValue a < 2 ^ 62"
  by (auto simp: native_ok_def st_consts)

lemma signed_small: "mValue a < 2 ^ 63 \<Longrightarrow> (if mIsNegative a then - to_s64 (mValue a) else to_s64 (mValue a)) = st_signed a"
  by (simp add: s64_small st_signed_def apply_sign_def)

lemma mkAmount_issued:
  assumes "\<not> isXRP_id (currency iss)"
  shows "same_outcome (mkAmount iss m e neg) (iou_normalize (apply_sign neg m) e)"
  using canonicalize_issued[of "\<lparr>mIssue = iss, mValue = m, mOffset = e, mIsNative = False, mIsNegative = neg\<rparr>"] assms
  by (simp add: mkAmount_def st_isXRP_def st_signed_def)

lemma iou_normalize_zero: "iou_normalize 0 e = Inr iou_zero"
  by (simp add: iou_normalize_def)

lemma issued_zero: "issued_ok a \<Longrightarrow> mValue a = 0 \<Longrightarrow> iou_of a = iou_zero"
  by (auto simp: issued_ok_def iou_of_def iou_zero_def st_signed_def st_fits_iff)

lemma iou_of_signum: "issued_ok a \<Longrightarrow> iou_signum (iou_of a) = 0 \<longleftrightarrow> mValue a = 0"
  by (auto simp: iou_signum_def iou_of_def st_signed_def)

lemma apply_sign_self: "(if 0 \<le> i then apply_sign False (nat i) else apply_sign True (nat (- i))) = i"
  by (simp add: apply_sign_def)

lemma st_add_issued:
  assumes "issued_ok a" "issued_ok b" "areComparable a b"
  shows "same_outcome (st_add a b) (iou_add (iou_of a) (iou_of b))"
proof -
  have na: "\<not> mIsNative a" "\<not> isXRP_id (currency (mIssue a))"
    using assms(1) by (simp_all add: issued_ok_def st_isXRP_def)
  consider "mValue b = 0" | "mValue b \<noteq> 0" "mValue a = 0" | "mValue b \<noteq> 0" "mValue a \<noteq> 0" by blast
  then show ?thesis
  proof cases
    case 1
    then show ?thesis using assms iou_of_signum[OF assms(2)]
      by (simp add: st_add_def st_isZero_iff iou_add_def same_outcome_def)
  next
    case 2
    have "iou_normalize (st_signed b) (mOffset b) = Inr (iou_of b)"
      using iou_of_ok[OF assms(2)] by (rule iou_normalize_exact) (simp add: iou_value_def iou_of_def)
    then show ?thesis using 2 assms(3) iou_of_signum[OF assms(1)] iou_of_signum[OF assms(2)]
        mkAmount_issued[OF na(2), of "mValue b" "mOffset b" "mIsNegative b"]
      by (simp add: st_add_def st_isZero_iff iou_add_def st_signed_def)
  next
    case 3
    obtain m1 where m1: "align (st_signed a) (mOffset a) (mOffset b) = (m1, max (mOffset a) (mOffset b))"
      using align_eq by blast
    let ?E = "max (mOffset a) (mOffset b)"
    obtain m2 e2 where m2: "align (st_signed b) (mOffset b) ?E = (m2, e2)" by fastforce
    have "\<bar>m1\<bar> \<le> int (mValue a)" "\<bar>m2\<bar> \<le> int (mValue b)"
      using align_magnitude[of "st_signed a" "mOffset a" "mOffset b"] m1
        align_magnitude[of "st_signed b" "mOffset b" ?E] m2 by (simp_all add: st_signed_def)
    moreover have "mValue a \<le> 9999999999999999" "mValue b \<le> 9999999999999999"
      using assms 3 by (auto simp: issued_ok_def st_fits_iff)
    ultimately have "\<bar>m1 + m2\<bar> < 9223372036854775808" by linarith
    then have small: "\<bar>m1 + m2\<bar> < 2 ^ 63" by simp
    have add: "iou_add (iou_of a) (iou_of b) =
        (if -10 \<le> m1 + m2 \<and> m1 + m2 \<le> 10 then Inr iou_zero else iou_normalize (m1 + m2) ?E)"
      using 3 iou_of_signum[OF assms(1)] iou_of_signum[OF assms(2)] m1 m2
      by (simp add: iou_add_def) (simp add: iou_of_def Let_def)
    have st: "st_add a b =
        (if -10 \<le> m1 + m2 \<and> m1 + m2 \<le> 10 then mkAmount (mIssue a) 0 0 False
         else if 0 \<le> m1 + m2 then mkAmount (mIssue a) (nat (m1 + m2)) ?E False
         else mkAmount (mIssue a) (nat (- (m1 + m2))) ?E True)"
      using 3 assms(3) na(1) small m1 m2 issued_value_small[OF assms(1)] issued_value_small[OF assms(2)]
      by (simp add: st_add_def st_isZero_iff signed_small Let_def s64_small(2))
    show ?thesis unfolding add st
      using mkAmount_issued[OF na(2), of 0 0 False] mkAmount_issued[OF na(2), of "nat (m1 + m2)" ?E False]
        mkAmount_issued[OF na(2), of "nat (- (m1 + m2))" ?E True] apply_sign_self[of "m1 + m2"]
      by (simp add: iou_normalize_zero split: if_splits)
  qed
qed

lemma native_loops_0: "native_down v 0 = (v, 0)" "native_up v 0 = (v, 0)"
  by (simp_all add: native_down.simps native_up.simps)

lemma canonicalize_native_0:
  assumes "st_isXRP a" "mOffset a = 0" "mValue a \<le> cMaxNativeN" "mValue a \<noteq> 0"
  shows "canonicalize a = Inr (a\<lparr>mIsNative := True\<rparr>)"
  using assms by (simp add: canonicalize_def native_loops_0 st_isXRP_def)

lemma xrpIssue_isXRP: "isXRP_id (currency xrpIssue)"
  by (simp add: isXRP_id_def bu_isZero_def xrpIssue_def xrpCurrency_def bu_data_def bu_assign_def bu_zero_def
      bytes32_def numeral_nat)

lemma mkNativeSigned_ok:
  assumes "\<bar>i\<bar> < 2 ^ 63"
  shows "st_signed (mkNativeSigned i) = i" "mIsNative (mkNativeSigned i)" "mOffset (mkNativeSigned i) = 0"
    "mIsNegative (mkNativeSigned i) \<longleftrightarrow> i < 0" "st_isXRP (mkNativeSigned i)"
    "mValue (mkNativeSigned i) = nat \<bar>i\<bar>"
  using assms xrpIssue_isXRP
  by (auto simp: mkNativeSigned_def st_set_def st_signed_def apply_sign_def s64_small(2) st_isXRP_def)

lemma st_add_native_exact:
  assumes "native_ok a" "native_ok b" "areComparable a b"
  shows "\<exists>r. st_add a b = Inr r \<and> st_signed r = st_signed a + st_signed b \<and> mIsNative r \<and> mOffset r = 0 \<and>
    (mValue r = 0 \<longrightarrow> \<not> mIsNegative r) \<and> st_isXRP r"
proof -
  note ab = assms(1,2)[unfolded native_ok_def]
  consider "mValue b = 0" | "mValue b \<noteq> 0" "mValue a = 0" | "mValue b \<noteq> 0" "mValue a \<noteq> 0" by blast
  then show ?thesis
  proof cases
    case 1
    then show ?thesis using ab assms(3)
      by (intro exI[of _ a]) (simp add: st_add_def st_isZero_iff st_signed_def apply_sign_def)
  next
    case 2
    let ?r = "\<lparr>mIssue = mIssue a, mValue = mValue b, mOffset = 0, mIsNative = True, mIsNegative = mIsNegative b\<rparr>"
    have "mkAmount (mIssue a) (mValue b) (mOffset b) (mIsNegative b) = Inr ?r"
      unfolding mkAmount_def using ab 2 by (subst canonicalize_native_0) (simp_all add: st_isXRP_def)
    then show ?thesis using 2 ab assms(3)
      by (intro exI[of _ ?r]) (simp add: st_add_def st_isZero_iff st_signed_def apply_sign_def st_isXRP_def)
  next
    case 3
    have v: "mValue a < 2 ^ 62" "mValue b < 2 ^ 62" using assms(1,2) native_value_small by blast+
    then have "mValue a < 2 ^ 63" "mValue b < 2 ^ 63" by simp_all
    then have "getSNValue a = Inr (st_signed a)" "getSNValue b = Inr (st_signed b)"
      using ab by (auto simp: getSNValue_def signed_small Let_def simp del: if_split)
    moreover have "\<bar>st_signed a + st_signed b\<bar> < 2 ^ 63" using v by (auto simp: st_signed_def apply_sign_def)
    note M = mkNativeSigned_ok[OF this]
    ultimately show ?thesis using 3 ab assms(3) M
      by (intro exI[of _ "mkNativeSigned (st_signed a + st_signed b)"]) (simp add: st_add_def st_isZero_iff mkNativeSigned_ok(4))
  qed
qed

section \<open>Wire format\<close>

subsection \<open>The 64-bit word\<close>

lemma bit_unat: "bit w n \<longleftrightarrow> odd (unat w div 2 ^ n)" for w :: uint64
proof -
  have "bit w n \<longleftrightarrow> bit (unat w) n" by (auto simp: bit_unsigned_iff)
  then show ?thesis by (simp add: bit_iff_odd)
qed

lemma word_bit_63: "bit w 63 \<longleftrightarrow> 2 ^ 63 \<le> unat w" for w :: uint64
proof -
  have "unat w div 2 ^ 63 < 2" using unat_lt64[of w] by (simp add: less_mult_imp_div_less)
  then have "odd (unat w div 2 ^ 63) \<longleftrightarrow> 0 < unat w div 2 ^ 63" by (cases "unat w div 2 ^ 63") auto
  then show ?thesis unfolding bit_unat by (simp add: div_greater_zero_iff)
qed

lemma word_bit_62: "\<not> bit w 63 \<Longrightarrow> bit w 62 \<longleftrightarrow> 2 ^ 62 \<le> unat w" for w :: uint64
proof -
  assume "\<not> bit w 63"
  then have "unat w div 2 ^ 62 < 2" by (simp add: word_bit_63 less_mult_imp_div_less)
  then have "odd (unat w div 2 ^ 62) \<longleftrightarrow> 0 < unat w div 2 ^ 62" by (cases "unat w div 2 ^ 62") auto
  then show ?thesis unfolding bit_unat by (simp add: div_greater_zero_iff)
qed

lemma and_power_test: "w AND 2 ^ n = 0 \<longleftrightarrow> \<not> bit w n" if "n < 64" for w :: uint64
  by (rule and_exp_eq_0_iff_not_bit)

lemma cNotNative_test: "w AND cNotNative = 0 \<longleftrightarrow> \<not> bit w 63"
  using and_power_test[of 63 w] by (simp add: cNotNative_def)

lemma cPosNative_test: "w AND cPosNative = 0 \<longleftrightarrow> \<not> bit w 62"
  using and_power_test[of 62 w] by (simp add: cPosNative_def)

lemma mantissa_bits: "unat (w AND NOT (push_bit (64 - 10) 1023)) = unat w mod 2 ^ 54" for w :: uint64
proof -
  have "NOT (push_bit (64 - 10) 1023) = (mask 54 :: uint64)" by (simp add: mask_eq_exp_minus_1)
  then have "w AND NOT (push_bit (64 - 10) 1023) = take_bit 54 w" by (simp only: take_bit_eq_mask)
  moreover have "unat (take_bit 54 w) = take_bit 54 (unat w)" by (simp add: unsigned_take_bit_eq)
  ultimately show ?thesis by (simp only: take_bit_eq_mod[of 54 "unat w"])
qed

lemma unat_of_nat_small: "v < 2 ^ 64 \<Longrightarrow> unat (of_nat v :: uint64) = v"
  by (simp add: unsigned_of_nat take_bit_nat_eq_self)

lemma bit_of_nat_small:
  assumes "v < 2 ^ k" "bit (of_nat v :: uint64) n"
  shows "n < k"
proof (rule ccontr)
  assume "\<not> n < k"
  then have "(2::nat) ^ k \<le> 2 ^ n" by (intro power_increasing) auto
  moreover have "unat (of_nat v :: uint64) \<le> v" by (simp add: unsigned_of_nat take_bit_nat_less_eq_self)
  ultimately have "unat (of_nat v :: uint64) div 2 ^ n = 0" using assms(1) by (intro div_less) linarith
  then show False using assms(2) by (simp only: bit_unat) simp
qed

lemma or_disjoint:
  assumes "m < 2 ^ 54" "0 \<le> k" "k < 1024"
  shows "unat (of_nat m OR push_bit (64 - 10) (of_int k) :: uint64) = m + nat k * 2 ^ 54"
proof -
  have "(of_nat m :: uint64) AND push_bit 54 (of_int k) = 0"
  proof (rule bit_eqI)
    fix n
    show "bit ((of_nat m :: uint64) AND push_bit 54 (of_int k)) n \<longleftrightarrow> bit (0 :: uint64) n"
      using bit_of_nat_small[OF assms(1), of n] by (auto simp: bit_push_bit_iff bit_and_iff)
  qed
  then have "of_nat m OR push_bit (64 - 10) (of_int k) = (of_nat m + push_bit 54 (of_int k) :: uint64)"
    using disjunctive_add_eq_or[of "of_nat m :: uint64" "push_bit 54 (of_int k)"] by simp
  also have "\<dots> = of_nat (m + nat k * 2 ^ 54)"
    using assms(2) by (simp add: push_bit_eq_mult of_nat_nat)
  finally have "unat (of_nat m OR push_bit (64 - 10) (of_int k) :: uint64) =
      unat (of_nat (m + nat k * 2 ^ 54) :: uint64)" by (simp only:)
  also have "\<dots> = m + nat k * 2 ^ 54" using assms by (intro unat_of_nat_small) auto
  finally show ?thesis .
qed

lemma or_pos:
  assumes "v < 2 ^ 62"
  shows "unat (of_nat v OR cPosNative) = v + 2 ^ 62"
proof -
  have c: "cPosNative = 2 ^ 62" by (simp add: cPosNative_def)
  have "(of_nat v :: uint64) AND 2 ^ 62 = 0"
    using bit_of_nat_small[OF assms, of 62] and_power_test[of 62 "of_nat v"] by auto
  then have "of_nat v OR cPosNative = (of_nat (v + 2 ^ 62) :: uint64)"
    using disjunctive_add_eq_or[of "of_nat v :: uint64" "2 ^ 62"] by (simp add: c)
  moreover have "unat (of_nat (v + 2 ^ 62) :: uint64) = v + 2 ^ 62" using assms by (intro unat_of_nat_small) auto
  ultimately show ?thesis by (simp only:)
qed

lemma and_not_pos:
  assumes "\<not> bit w 63" "bit w 62"
  shows "unat (w AND NOT cPosNative) = unat w - 2 ^ 62"
proof -
  define v where "v = unat w - 2 ^ 62"
  have v: "unat w = v + 2 ^ 62" "v < 2 ^ 62"
    using assms word_bit_62[OF assms(1)] word_bit_63[of w] by (auto simp: v_def)
  have w: "w = of_nat v OR cPosNative" using or_pos[OF v(2)] v(1) by (simp add: word_unat_eq_iff)
  have "w AND NOT cPosNative = of_nat v"
  proof (rule bit_word_eqI)
    fix n assume "n < LENGTH(64)"
    have "bit cPosNative n \<longleftrightarrow> n = 62" using \<open>n < _\<close> bit_exp_iff[of 62 n, where 'a = uint64] by (simp add: cPosNative_def)
    then show "bit (w AND NOT cPosNative) n = bit (of_nat v :: uint64) n"
      using bit_of_nat_small[OF v(2), of n] \<open>n < _\<close> by (auto simp: w bit_and_iff bit_or_iff bit_not_iff)
  qed
  then show ?thesis using v by (simp add: unat_of_nat_small)
qed

subsection \<open>Amounts on the wire\<close>

definition st_wire :: "STAmount \<Rightarrow> blob" where
  "st_wire a = bytes64 (amount_word a) @ (if mIsNative a then [] else currency (mIssue a) @ account (mIssue a))"

lemma st_serialize_wire: "mData (st_serialize a s) = mData s @ st_wire a"
  by (simp add: st_serialize_def st_wire_def add64_def add160_def addBitString_def Let_def)

text \<open>The amounts the format can carry: XRP of 62 bits, canonical issued amounts of a proper issue.\<close>

definition wire_ok :: "STAmount \<Rightarrow> bool" where
  "wire_ok a \<longleftrightarrow>
     (if mIsNative a then mIssue a = xrpIssue \<and> mOffset a = 0 \<and> mValue a < 2 ^ 62 \<and> (mValue a = 0 \<longrightarrow> \<not> mIsNegative a)
      else issued_ok a \<and> length (currency (mIssue a)) = 20 \<and> length (account (mIssue a)) = 20 \<and>
           \<not> isXRP_id (account (mIssue a)))"

lemma canonicalize_fits:
  assumes "\<not> st_isXRP a" "st.fits (mValue a) (mOffset a)" "\<not> mIsNative a"
  shows "canonicalize a = Inr a"
proof -
  have "mValue a \<noteq> 0" "\<not> mOffset a < cMinOffset" "\<not> mValue a < cMinValue" "\<not> cMaxOffset < mOffset a"
    using assms(2)[unfolded st_fits_iff] by (auto simp: st_consts)
  then show ?thesis using assms st.scale_id[OF assms(2)] by (simp add: canonicalize_def)
qed

lemma canonicalize_issued_zero:
  assumes "\<not> st_isXRP a" "mValue a = 0"
  shows "canonicalize a = Inr (a\<lparr>mIsNative := False, mOffset := -100, mIsNegative := False\<rparr>)"
  using assms by (simp add: canonicalize_def)

lemma and_256: "k AND 256 = 0 \<longleftrightarrow> even (k div (256::int))"
  using and_exp_eq_0_iff_not_bit[of k 8] by (simp add: bit_iff_odd)

lemma sign_and_offset:
  assumes "-96 \<le> e" "e \<le> (80::int)"
  shows "(e + 512 + 97) AND 256 = 0" "(e + 512 + 256 + 97) AND 256 \<noteq> 0"
    "((e + 512 + 97) AND 255) - 97 = e" "((e + 512 + 256 + 97) AND 255) - 97 = e"
proof -
  have d: "(e + 512 + 97) div 256 = 2" "(e + 512 + 256 + 97) div 256 = 3" using assms by auto
  then show "(e + 512 + 97) AND 256 = 0" "(e + 512 + 256 + 97) AND 256 \<noteq> 0" by (simp_all only: and_256) auto
  show "((e + 512 + 97) AND 255) - 97 = e" "((e + 512 + 256 + 97) AND 255) - 97 = e"
    unfolding and_255 minus_mult_div_eq_mod[symmetric] d by simp_all
qed

lemma amount_word_native:
  assumes "mIsNative a" "mValue a < 2 ^ 62"
  shows "\<not> bit (amount_word a) 63"
    "\<not> mIsNegative a \<Longrightarrow> bit (amount_word a) 62 \<and> unat (amount_word a AND NOT cPosNative) = mValue a"
    "mIsNegative a \<Longrightarrow> \<not> bit (amount_word a) 62 \<and> unat (amount_word a) = mValue a"
proof -
  have u: "unat (amount_word a) = (if mIsNegative a then mValue a else mValue a + 2 ^ 62)"
    using assms by (simp add: amount_word_def or_pos unat_of_nat_small)
  show n: "\<not> bit (amount_word a) 63" unfolding word_bit_63 u using assms(2) by auto
  note b62 = word_bit_62[OF n, unfolded u]
  show "bit (amount_word a) 62 \<and> unat (amount_word a AND NOT cPosNative) = mValue a" if "\<not> mIsNegative a"
    using and_not_pos[OF n] b62 that u by simp
  show "\<not> bit (amount_word a) 62 \<and> unat (amount_word a) = mValue a" if "mIsNegative a"
    using b62 that u assms(2) by simp
qed

lemma amount_word_issued:
  assumes "\<not> mIsNative a" "issued_ok a"
  shows "unat (amount_word a) =
    (if mValue a = 0 then 512 * 2 ^ 54
     else mValue a + nat ((if mIsNegative a then 609 else 865) + mOffset a) * 2 ^ 54)"
proof (cases "mValue a = 0")
  case True
  then show ?thesis using assms(1) by (simp add: amount_word_def st_isZero_iff cNotNative_def)
next
  case False
  then have "mValue a < 2 ^ 54" "-96 \<le> mOffset a" "mOffset a \<le> 80"
    using assms(2) by (auto simp: issued_ok_def st_fits_iff)
  then show ?thesis
    using False assms(1) or_disjoint[of "mValue a" "mOffset a + 512 + 97"]
      or_disjoint[of "mValue a" "mOffset a + 512 + 256 + 97"]
    by (simp add: amount_word_def st_isZero_iff)
qed

lemma issued_word_parts:
  assumes "\<not> mIsNative a" "issued_ok a"
  defines "w \<equiv> amount_word a"
  shows "bit w 63" "unat (w AND NOT (push_bit (64 - 10) 1023)) = mValue a"
    "int (unat (drop_bit (64 - 10) w)) =
       (if mValue a = 0 then 512 else if mIsNegative a then mOffset a + 512 + 97 else mOffset a + 512 + 256 + 97)"
proof -
  have w: "unat w = (if mValue a = 0 then 512 * 2 ^ 54
     else mValue a + nat ((if mIsNegative a then 609 else 865) + mOffset a) * 2 ^ 54)"
    unfolding w_def by (rule amount_word_issued[OF assms(1,2)])
  have r: "mValue a < 2 ^ 54" "mValue a \<noteq> 0 \<Longrightarrow> -96 \<le> mOffset a" "mValue a \<noteq> 0 \<Longrightarrow> mOffset a \<le> 80"
    using assms(2) by (auto simp: issued_ok_def st_fits_iff)
  have parts: "unat w mod 2 ^ 54 = mValue a" "unat w div 2 ^ 54 =
      (if mValue a = 0 then 512 else nat ((if mIsNegative a then 609 else 865) + mOffset a))"
    unfolding w using r(1) by simp_all
  show "unat (w AND NOT (push_bit (64 - 10) 1023)) = mValue a" unfolding mantissa_bits by (rule parts(1))
  have dv: "unat (drop_bit (64 - 10) w) = unat w div 2 ^ 54" by (simp add: unat_drop_bit_div)
  show "int (unat (drop_bit (64 - 10) w)) =
       (if mValue a = 0 then 512 else if mIsNegative a then mOffset a + 512 + 97 else mOffset a + 512 + 256 + 97)"
    unfolding dv parts(2) using r(2,3) by (cases "mValue a = 0") simp_all
  have "512 \<le> unat w div 2 ^ 54" unfolding parts(2) using r(2,3) by (cases "mValue a = 0") auto
  then show "bit w 63" unfolding word_bit_63 by (simp add: div_ge_iff_mult_le)
qed

lemma st_deserialize_native:
  assumes "wire_ok a" "mIsNative a" and it: "sit_ok it" "unread it = st_wire a @ rest"
  shows "st_deserialize it = Inr (a, advance_by (length (st_wire a)) it)"
proof -
  let ?w = "amount_word a"
  have o: "mIssue a = xrpIssue" "mOffset a = 0" "mValue a < 2 ^ 62" "mValue a = 0 \<longrightarrow> \<not> mIsNegative a"
    using assms(1,2) by (simp_all add: wire_ok_def)
  have g: "sit_get64 it = Inr (?w, advance_by 8 it)" and len: "length (st_wire a) = 8"
    using c64.get_enc[of it ?w rest] it assms(2) by (simp_all add: st_wire_def)
  have a: "mkUnchecked xrpIssue (mValue a) 0 True (mIsNegative a) = a" using assms(2) o by (simp add: mkUnchecked_def)
  show ?thesis
  proof (cases "mIsNegative a")
    case False
    then show ?thesis using amount_word_native(1,2)[OF assms(2) o(3)] g a
      by (simp add: st_deserialize_def cNotNative_test cPosNative_test len)
  next
    case True
    then have "?w \<noteq> 0" using amount_word_native(3)[OF assms(2) o(3)] o(4) by auto
    then show ?thesis using amount_word_native(1,3)[OF assms(2) o(3)] g a True
      by (simp add: st_deserialize_def cNotNative_test cPosNative_test len)
  qed
qed

lemma st_deserialize_issued:
  assumes "wire_ok a" "\<not> mIsNative a" and it: "sit_ok it" "unread it = st_wire a @ rest"
  shows "st_deserialize it = Inr (a, advance_by (length (st_wire a)) it)"
proof -
  let ?w = "amount_word a" and ?c = "currency (mIssue a)" and ?i = "account (mIssue a)"
  have o: "issued_ok a" "length ?c = 20" "length ?i = 20" "\<not> isXRP_id ?i" "\<not> isXRP_id ?c"
    using assms(1,2) by (simp_all add: wire_ok_def issued_ok_def st_isXRP_def)
  have u: "unread it = bytes64 ?w @ ?c @ ?i @ rest" using it(2) assms(2) by (simp add: st_wire_def)
  have n: "8 \<le> sit_remain it" using sit_remain_ge[OF it(1) u] by simp
  have g1: "sit_get64 it = Inr (?w, advance_by 8 it)" using c64.get_enc[OF TrueI it(1) u] by simp
  note it1 = advance_by_ok[OF it(1) n]
  have u1: "unread (advance_by 8 it) = ?c @ ?i @ rest" using it1(2) u by simp
  have g2: "sit_get160 (advance_by 8 it) = Inr (?c, advance_by 28 it)"
    using c160.get_enc[OF o(2) it1(1) u1] o(2) by simp
  have "20 \<le> sit_remain (advance_by 8 it)" using sit_remain_ge[OF it1(1) u1] o(2) by simp
  note it2 = advance_by_ok[OF it1(1) this, unfolded advance_by_add]
  have u2: "unread (advance_by 28 it) = ?i @ rest" using it2(2) u1 o(2) by simp
  have g3: "sit_get160 (advance_by 28 it) = Inr (?i, advance_by 48 it)"
    using c160.get_enc[OF o(3) _ u2] it2(1) o(3) by simp
  note P = issued_word_parts[OF assms(2) o(1)]
  have iss: "\<lparr>currency = ?c, account = ?i\<rparr> = mIssue a" by simp
  have len: "length (st_wire a) = 48" using assms(2) o by (simp add: st_wire_def)
  show ?thesis
  proof (cases "mValue a = 0")
    case True
    then have z: "mOffset a = -100" "\<not> mIsNegative a" using o(1) by (auto simp: issued_ok_def st_fits_iff)
    have "canonicalize (mkUnchecked (mIssue a) 0 0 False False) = Inr a"
      using canonicalize_issued_zero[of "mkUnchecked (mIssue a) 0 0 False False"] o(5) assms(2) True z
      by (simp add: mkUnchecked_def st_isXRP_def)
    then show ?thesis using P True g1 g2 g3 o len
      by (simp add: st_deserialize_def cNotNative_test iss Let_def)
  next
    case False
    then have f: "st.fits (mValue a) (mOffset a)" using o(1) by (auto simp: issued_ok_def)
    have "mkUnchecked (mIssue a) (mValue a) (mOffset a) False (mIsNegative a) = a"
      using assms(2) by (cases a) (simp add: mkUnchecked_def)
    then have "canonicalize (mkUnchecked (mIssue a) (mValue a) (mOffset a) False (mIsNegative a)) = Inr a"
      using canonicalize_fits[of a] o(5) f assms(2) by (simp add: st_isXRP_def)
    then show ?thesis using P False g1 g2 g3 o len sign_and_offset[of "mOffset a"] f[unfolded st_fits_iff]
      by (cases "mIsNegative a") (simp_all add: st_deserialize_def cNotNative_test iss Let_def st_consts)
  qed
qed

interpretation cAmt: wire_codec st_wire st_deserialize wire_ok
  by unfold_locales (use st_deserialize_native st_deserialize_issued in blast)

lemma offset_field:
  assumes "512 \<le> k" "k < (1024::int)"
  shows "k = (if k AND 256 = 0 then 609 else 865) + ((k AND 255) - 97)"
proof -
  define q r where "q = k div 256" and "r = k mod 256"
  have k: "k = q * 256 + r" by (simp add: q_def r_def)
  have "q = 2 \<or> q = 3" using assms unfolding q_def by auto
  then show ?thesis unfolding and_255 and_256 q_def[symmetric] r_def[symmetric] using k by auto
qed

lemma st_deserialize_native_inv:
  assumes "\<not> bit w 63" "bit w 62 \<or> w \<noteq> 0"
  defines "a \<equiv> (if bit w 62 then mkUnchecked xrpIssue (unat (w AND NOT cPosNative)) 0 True False
                   else mkUnchecked xrpIssue (unat w) 0 True True)"
  shows "wire_ok a" "st_wire a = bytes64 w"
proof -
  have lt: "unat w < 2 ^ 63" using assms(1) by (simp add: word_bit_63)
  note b62 = word_bit_62[OF assms(1)]
  have "amount_word a = w \<and> wire_ok a"
  proof (cases "bit w 62")
    case True
    have v: "unat (w AND NOT cPosNative) = unat w - 2 ^ 62" by (rule and_not_pos[OF assms(1) True])
    have lt62: "unat w - 2 ^ 62 < 2 ^ 62" using lt by simp
    have "unat (of_nat (unat w - 2 ^ 62) OR cPosNative) = unat w" using or_pos[OF lt62] b62 True by simp
    then have "of_nat (unat w - 2 ^ 62) OR cPosNative = w" by (simp add: word_unat_eq_iff)
    then show ?thesis using True lt62 by (simp add: a_def mkUnchecked_def amount_word_def wire_ok_def v)
  next
    case False
    then show ?thesis using assms(2) b62 by (simp add: a_def mkUnchecked_def amount_word_def wire_ok_def unat_eq_zero)
  qed
  then show "wire_ok a" "st_wire a = bytes64 w" by (auto simp: st_wire_def a_def mkUnchecked_def)
qed

lemma st_deserialize_issued_inv:
  fixes w :: uint64
  assumes "bit w 63" "length c = 20" "length i = 20" "\<not> isXRP_id c" "\<not> isXRP_id i"
  defines "k \<equiv> int (unat (drop_bit (64 - 10) w))" and "v \<equiv> unat (w AND NOT (push_bit (64 - 10) 1023))"
    and "iss \<equiv> \<lparr>currency = c, account = i\<rparr>"
  shows "v \<noteq> 0 \<Longrightarrow> st.fits v ((k AND 255) - 97) \<Longrightarrow>
      wire_ok (mkUnchecked iss v ((k AND 255) - 97) False (k AND 256 = 0)) \<and>
      st_wire (mkUnchecked iss v ((k AND 255) - 97) False (k AND 256 = 0)) = bytes64 w @ c @ i"
    and "v = 0 \<Longrightarrow> k = 512 \<Longrightarrow>
      wire_ok (mkUnchecked iss 0 (-100) False False) \<and> st_wire (mkUnchecked iss 0 (-100) False False) = bytes64 w @ c @ i"
proof -
  have kk: "k = int (unat w div 2 ^ 54)" by (simp add: k_def unat_drop_bit_div)
  have vv: "v = unat w mod 2 ^ 54" unfolding v_def by (rule mantissa_bits)
  have w: "unat w = v + nat k * 2 ^ 54" unfolding kk vv by simp
  have "2 ^ 63 div 2 ^ 54 \<le> unat w div 2 ^ 54" using assms(1) unfolding word_bit_63 by (rule div_le_mono)
  moreover have "unat w div 2 ^ 54 < 1024" using unat_lt64[of w] by (simp add: less_mult_imp_div_less)
  ultimately have k: "512 \<le> k" "k < 1024" unfolding kk by simp_all
  {
    fix a assume a: "issued_ok a" "mIssue a = iss" "unat (amount_word a) = unat w" "\<not> mIsNative a"
    then have "amount_word a = w" by (simp add: word_unat_eq_iff)
    then have "wire_ok a \<and> st_wire a = bytes64 w @ c @ i"
      using a assms(2-5) by (simp add: wire_ok_def st_wire_def iss_def)
  } note fin = this
  show "wire_ok (mkUnchecked iss v ((k AND 255) - 97) False (k AND 256 = 0)) \<and>
      st_wire (mkUnchecked iss v ((k AND 255) - 97) False (k AND 256 = 0)) = bytes64 w @ c @ i"
    if nz: "v \<noteq> 0" and f: "st.fits v ((k AND 255) - 97)"
  proof (rule fin)
    let ?a = "mkUnchecked iss v ((k AND 255) - 97) False (k AND 256 = 0)"
    show ok: "issued_ok ?a" using f assms(4) by (simp add: issued_ok_def mkUnchecked_def st_isXRP_def iss_def)
    show n: "\<not> mIsNative ?a" "mIssue ?a = iss" by (simp_all add: mkUnchecked_def)
    show "unat (amount_word ?a) = unat w"
      unfolding amount_word_issued[OF n(1) ok] w using nz offset_field[OF k] by (simp add: mkUnchecked_def)
  qed
  show "wire_ok (mkUnchecked iss 0 (-100) False False) \<and> st_wire (mkUnchecked iss 0 (-100) False False) = bytes64 w @ c @ i"
    if "v = 0" "k = 512"
  proof (rule fin)
    let ?a = "mkUnchecked iss 0 (-100) False False"
    show ok: "issued_ok ?a" using assms(4) by (simp add: issued_ok_def mkUnchecked_def st_isXRP_def iss_def)
    show n: "\<not> mIsNative ?a" "mIssue ?a = iss" by (simp_all add: mkUnchecked_def)
    show "unat (amount_word ?a) = unat w"
      unfolding amount_word_issued[OF n(1) ok] w using that by (simp add: mkUnchecked_def)
  qed
qed

lemma st_deserialize_complete:
  assumes "sit_ok it" "st_deserialize it = Inr r"
  shows "\<exists>a rest. wire_ok a \<and> unread it = st_wire a @ rest"
proof -
  obtain w it1 where 1: "sit_get64 it = Inr (w, it1)" using assms(2) by (auto simp: st_deserialize_def)
  note u1 = c64.get_canonical[OF assms(1) 1]
  show ?thesis
  proof (cases "bit w 63")
    case False
    then have "bit w 62 \<or> w \<noteq> 0" using assms(2) 1
      by (auto simp: st_deserialize_def cNotNative_test cPosNative_test split: if_splits)
    from st_deserialize_native_inv[OF False this] show ?thesis using u1(2) by metis
  next
    case True
    obtain c it2 where 2: "sit_get160 it1 = Inr (c, it2)" "\<not> isXRP_id c" using assms(2) 1 True
      by (auto simp: st_deserialize_def cNotNative_test split: if_splits)
    note u2 = c160.get_canonical[OF u1(3) 2(1)]
    obtain i it3 where 3: "sit_get160 it2 = Inr (i, it3)" "\<not> isXRP_id i" using assms(2) 1 2 True
      by (auto simp: st_deserialize_def cNotNative_test split: if_splits)
    note u3 = c160.get_canonical[OF u2(3) 3(1)]
    let ?k = "int (unat (drop_bit (64 - 10) w))" and ?v = "unat (w AND NOT (push_bit (64 - 10) 1023))"
    have u: "unread it = (bytes64 w @ c @ i) @ unread it3" using u1(2) u2(2) u3(2) by simp
    note I = st_deserialize_issued_inv[OF True u2(1) u3(1) 2(2) 3(2)]
    show ?thesis
    proof (cases "?v = 0")
      case z: True
      then have "?k = 512" using assms(2) 1 2 3 True
        by (auto simp: st_deserialize_def cNotNative_test Let_def split: if_splits)
      then show ?thesis using I(2) z u by metis
    next
      case nz: False
      then have "st.fits ?v ((?k AND 255) - 97)" using assms(2) 1 2 3 True
        by (auto simp: st_deserialize_def cNotNative_test Let_def st.fits_def split: if_splits)
      then show ?thesis using I(1) nz u by metis
    qed
  qed
qed

interpretation cAmt: canonical_codec st_wire st_deserialize wire_ok
  by unfold_locales (rule st_deserialize_complete)

section \<open>Properties\<close>

text \<open>
  C24. An amount the wire format can carry, written after anything and followed by anything, is
  read back unchanged, and the reader stops where the amount ends.
\<close>

theorem amount_wire_roundtrip:
  assumes "wire_ok a" "sit_skip (length (mData s)) (newSerialIter (mData (st_serialize a s) @ tail1)) = Inr it"
  shows "\<exists>it'. st_deserialize it = Inr (a, it') \<and> unread it' = tail1"
proof -
  let ?b = "newSerialIter (mData (st_serialize a s) @ tail1)"
  have "it = advance_by (length (mData s)) ?b" "length (mData s) \<le> sit_remain ?b"
    using assms(2) by (auto simp: sit_skip_def split: if_splits)
  then have "sit_ok it" "unread it = st_wire a @ tail1"
    using advance_by_ok[of ?b "length (mData s)"] by (simp_all add: st_serialize_wire)
  then show ?thesis using cAmt.get_enc_ok[OF assms(1)] by blast
qed

text \<open>
  C25. The reader accepts canonical encodings only: the bytes from which an amount was read are
  the bytes that serializing it writes, so no amount has two encodings.
\<close>

theorem amount_wire_canonical:
  assumes "st_deserialize (newSerialIter b) = Inr (a, it)"
  shows "wire_ok a \<and> b = mData (st_serialize a \<lparr>mData = []\<rparr>) @ unread it"
  using cAmt.get_canonical[OF newSerialIter_ok(1) assms] by (simp add: st_serialize_wire)


text \<open>
  C27. On well-formed comparable amounts \<^verbatim>\<open>operator<\<close> does not throw and is the order of the
  exact values.
\<close>

theorem st_less_value:
  assumes "st_ok a" "st_ok b" "areComparable a b"
  shows "st_less a b = Inr (st_value a < st_value b)"
  using assms
proof (cases rule: comparable_kind)
  case 1
  then show ?thesis using st_less_native[OF 1 assms(3)] by (simp add: st_value_native)
next
  case 2
  then show ?thesis using st_less_issued[OF 2 assms(3)] iou_less_value_aux[OF iou_of_ok iou_of_ok]
    by (simp add: iou_of_value)
qed

text \<open>
  C28. Adding XRP amounts is exact: the sum neither wraps nor throws, and a zero sum is not
  negative.
\<close>

theorem st_add_xrp_exact:
  assumes "native_ok a" "native_ok b" "areComparable a b"
  shows "\<exists>r. st_add a b = Inr r \<and> mIsNative r \<and> st_value r = st_value a + st_value b \<and>
    (mValue r = 0 \<longrightarrow> \<not> mIsNegative r)"
  using st_add_native_exact[OF assms] assms by (auto simp: st_value_def native_ok_def dec_def)

text \<open>
  C29. Adding issued amounts of one currency computes what the addition of \<^verbatim>\<open>IOUAmount\<close> computes,
  overflow included.
\<close>

theorem st_add_agrees:
  assumes "issued_ok a" "issued_ok b" "areComparable a b"
  shows "same_outcome (st_add a b) (iou_add (iou_of a) (iou_of b))"
  using assms by (rule st_add_issued)

subsection \<open>Witnesses\<close>

definition usd :: Issue where
  "usd = \<lparr>currency = replicate 12 0 @ [85, 83, 68] @ replicate 5 0, account = replicate 19 0 @ [9]\<rparr>"

definition st_a :: STAmount where "st_a = mkUnchecked usd 1234567890123456 (-10) False False"
definition st_b :: STAmount where "st_b = mkUnchecked usd 5000000000000007 (-13) False True"
definition xrp_a :: STAmount where "xrp_a = mkUnchecked xrpIssue 25 0 True False"
definition xrp_b :: STAmount where "xrp_b = mkUnchecked xrpIssue 40 0 True True"

lemma usd_not_xrp: "\<not> isXRP_id (currency usd)" "\<not> isXRP_id (account usd)"
  by (simp_all add: usd_def isXRP_id_def bu_isZero_def)

lemma bu_eq_refl: "bu_eq c c"
proof -
  have "bu_compare c c = 0" by (induction c) simp_all
  then show ?thesis by (simp add: bu_eq_def)
qed

lemma st_ab_ok: "issued_ok st_a" "issued_ok st_b" "areComparable st_a st_b" "areComparable st_b st_a"
  using usd_not_xrp
  by (simp_all add: issued_ok_def st_a_def st_b_def mkUnchecked_def st_fits_iff st_isXRP_def areComparable_def bu_eq_refl)

lemma xrp_ab_ok: "native_ok xrp_a" "native_ok xrp_b" "areComparable xrp_a xrp_b"
  using xrpIssue_isXRP
  by (simp_all add: native_ok_def xrp_a_def xrp_b_def mkUnchecked_def st_isXRP_def areComparable_def bu_eq_refl st_consts)

theorem amount_wire_roundtrip_witness:
  "\<exists>it'. st_deserialize (newSerialIter (mData (st_serialize st_b \<lparr>mData = []\<rparr>) @ [1, 2])) = Inr (st_b, it') \<and> unread it' = [1, 2]"
proof -
  have "wire_ok st_b" using st_ab_ok(2) usd_not_xrp by (simp add: wire_ok_def st_b_def mkUnchecked_def usd_def)
  then show ?thesis using amount_wire_roundtrip[of st_b "\<lparr>mData = []\<rparr>" "[1, 2]"] by (simp add: sit_skip_def)
qed

lemma xrp_a_wire: "wire_ok xrp_a" "st_wire xrp_a = [0x40, 0, 0, 0, 0, 0, 0, 25]"
  by (simp_all add: wire_ok_def xrp_a_def mkUnchecked_def st_wire_def amount_word_def cPosNative_def bytes64_def)

theorem amount_wire_canonical_witness:
  "\<exists>it. wire_ok xrp_a \<and> [0x40, 0, 0, 0, 0, 0, 0, 25] = mData (st_serialize xrp_a \<lparr>mData = []\<rparr>) @ unread it"
proof -
  obtain it where "st_deserialize (newSerialIter [0x40, 0, 0, 0, 0, 0, 0, 25]) = Inr (xrp_a, it)"
    using cAmt.get_new[OF xrp_a_wire(1)] unfolding xrp_a_wire(2) by blast
  then show ?thesis using amount_wire_canonical by blast
qed


theorem st_less_value_witness: "st_less st_b st_a = Inr (st_value st_b < st_value st_a)"
  using st_less_value[of st_b st_a] st_ab_ok by (simp add: st_ok_def)

theorem st_add_xrp_exact_witness:
  "\<exists>r. st_add xrp_a xrp_b = Inr r \<and> mIsNative r \<and> st_value r = st_value xrp_a + st_value xrp_b"
  using st_add_xrp_exact[OF xrp_ab_ok] by blast

theorem st_add_agrees_witness: "same_outcome (st_add st_a st_b) (iou_add (iou_of st_a) (iou_of st_b))"
  by (rule st_add_agrees[OF st_ab_ok(1-3)])

end
