(* ===== verification/STAmount_Arith.thy ===== *)
theory STAmount_Arith
  imports STAmount_Correct
begin

text \<open>
  Multiplication, division and rates of serialized amounts: rounding towards zero never exceeds
  the exact result, and the 64-bit rates keep value and order.
\<close>

section \<open>Construction never adds value\<close>

lemma native_down_le: "native_down v off = (w, o') \<Longrightarrow> dec (int w) o' \<le> dec (int v) off \<and> (off \<le> 0 \<longrightarrow> o' = 0) \<and> (0 < off \<longrightarrow> o' = off)"
proof (induction v off rule: native_down.induct)
  case (1 v off)
  show ?case
  proof (cases "off < 0")
    case True
    then have "native_down (v div 10) (off + 1) = (w, o')" using "1.prems" by (simp add: native_down.simps[of v])
    then show ?thesis using "1.IH"[OF True] True dec_div_ten[of v off] by auto
  next
    case False
    then show ?thesis using "1.prems" by (simp add: native_down.simps[of v])
  qed
qed

lemma native_up_le: "native_up v off = (w, o') \<Longrightarrow> dec (int w) o' \<le> dec (int v) off \<and> (0 \<le> off \<longrightarrow> o' = 0)"
proof (induction v off rule: native_up.induct)
  case (1 v off)
  show ?case
  proof (cases "0 < off")
    case True
    then have n: "native_up (u64 (v * 10)) (off - 1) = (w, o')" using "1.prems" by (simp add: native_up.simps[of v])
    have "u64 (v * 10) \<le> v * 10" by (simp add: u64_def)
    then have "dec (int (u64 (v * 10))) (off - 1) \<le> dec (10 * int v) (off - 1)" by simp
    also have "\<dots> = dec (int v) off" unfolding dec_ten by simp
    finally show ?thesis using "1.IH"[OF True n] True by auto
  next
    case False
    then show ?thesis using "1.prems" by (simp add: native_up.simps[of v])
  qed
qed

lemma mkAmount_fields:
  assumes "mkAmount iss m e neg = Inr r"
  shows "mIssue r = iss" "mIsNegative r \<longrightarrow> neg"
  using assms by (auto simp: mkAmount_def canonicalize_def Let_def split: if_splits prod.splits option.splits)

lemma mkAmount_le:
  assumes "mkAmount iss m e neg = Inr r"
  shows "\<bar>st_value r\<bar> \<le> dec (int m) e"
proof (cases "isXRP_id (currency iss)")
  case True
  show ?thesis
  proof (cases "m = 0")
    case z: True
    then show ?thesis using assms True
      by (auto simp: mkAmount_def canonicalize_def st_isXRP_def st_value_def st_signed_def)
  next
    case False
    obtain v1 o1 v2 o2 where d: "native_down m e = (v1, o1)" and u: "native_up v1 o1 = (v2, o2)" by (metis surj_pair)
    have "mValue r = v2" "mOffset r = o2"
      using assms True False d u by (auto simp: mkAmount_def canonicalize_def st_isXRP_def split: if_splits)
    then have "\<bar>st_value r\<bar> = dec (int v2) o2" by (simp add: st_value_def st_signed_def dec_abs[symmetric])
    then show ?thesis using native_down_le[OF d] native_up_le[OF u] by linarith
  qed
next
  case False
  have x: "\<bar>dec (apply_sign neg m) e\<bar> = dec (int m) e" by (simp add: dec_abs[symmetric])
  obtain s where s: "iou_normalize (apply_sign neg m) e = Inr s" "iou_of r = s"
    using mkAmount_issued[OF False, of m e neg] assms
    by (cases "iou_normalize (apply_sign neg m) e") (auto simp: same_outcome_def)
  have T: "truncates_to (dec (apply_sign neg m) e) (Inr s)" using iou_normalize_truncates s(1) by metis
  have "\<bar>iou_value s\<bar> \<le> \<bar>dec (apply_sign neg m) e\<bar>"
    using T by (cases "s = iou_zero") (auto simp: truncates_to_def)
  then show ?thesis unfolding x s(2)[symmetric] iou_of_value .
qed

lemma mkAmount_zero: "mkAmount iss 0 0 False = Inr r \<Longrightarrow> st_value r = 0"
  using mkAmount_le[of iss 0 0 False r] by simp

section \<open>Operands and products\<close>

lemma native_digits_exact:
  "native_digits v off = (w, o') \<Longrightarrow> dec (int w) o' = dec (int v) off \<and> (v \<noteq> 0 \<longrightarrow> w \<noteq> 0)"
proof (induction v off rule: native_digits.induct)
  case (1 v off)
  show ?case
  proof (cases "v < cMinValue \<and> v \<noteq> 0")
    case True
    then have "native_digits (v * 10) (off - 1) = (w, o')" using "1.prems" by (simp add: native_digits.simps[of v])
    moreover have "dec (int (v * 10)) (off - 1) = dec (int v) off" using dec_ten[of "int v" "off - 1"] by (simp add: mult.commute)
    ultimately show ?thesis using "1.IH"[OF True] True by auto
  next
    case False
    then show ?thesis using "1.prems" by (auto simp: native_digits.simps[of v])
  qed
qed

lemma operand_exact:
  assumes "operand a = (v, off)"
  shows "dec (int v) off = \<bar>st_value a\<bar>" "mValue a \<noteq> 0 \<Longrightarrow> v \<noteq> 0"
proof -
  have "\<bar>st_value a\<bar> = dec (int (mValue a)) (mOffset a)" by (simp add: st_value_def st_signed_def dec_abs[symmetric])
  then show "dec (int v) off = \<bar>st_value a\<bar>" "mValue a \<noteq> 0 \<Longrightarrow> v \<noteq> 0"
    using assms native_digits_exact[of "mValue a" "mOffset a"] by (auto simp: operand_def split: if_splits)
qed

lemma dec_mult: "dec m e * dec n f = dec (m * n) (e + f)"
  by (simp add: dec_def power_int_add)

lemma dec_div_power: "dec (int (n div 10 ^ k)) (e + int k) \<le> dec (int n) e"
proof -
  have "n div 10 ^ k * 10 ^ k \<le> n" by simp
  then have "int (n div 10 ^ k) * 10 ^ k \<le> int n" by (metis of_nat_le_iff of_nat_mult of_nat_numeral of_nat_power)
  then show ?thesis unfolding dec_shift[symmetric] by simp
qed

lemma native_ok_signed:
  assumes "native_ok a"
  shows "getSNValue a = Inr (st_signed a)" "\<bar>st_signed a\<bar> \<le> 100000000000000000"
proof -
  have "mValue a < 2 ^ 63" using native_value_small[OF assms] by simp
  then show "getSNValue a = Inr (st_signed a)"
    using assms signed_small[of a] by (auto simp: getSNValue_def native_ok_def Let_def simp del: if_split)
  show "\<bar>st_signed a\<bar> \<le> 100000000000000000" using assms by (simp add: st_signed_def native_ok_def st_consts)
qed

lemma native_product_le:
  assumes "native_ok v1" "native_ok v2" "native_product v1 v2 = Inr r"
  shows "\<bar>st_value r\<bar> \<le> \<bar>st_value v1\<bar> * \<bar>st_value v2\<bar>"
proof -
  let ?s1 = "st_signed v1" and ?s2 = "st_signed v2"
  define mi ma where "mi = (if ?s1 < ?s2 then ?s1 else ?s2)" and "ma = (if ?s1 < ?s2 then ?s2 else ?s1)"
  note b = native_ok_signed(2)[OF assms(1)] native_ok_signed(2)[OF assms(2)]
  have r: "\<not> 3000000000 < of_s64 mi" "r = mkNativeNamed (u64 (of_s64 mi * of_s64 ma)) False"
    using assms(3) native_ok_signed(1)[OF assms(1)] native_ok_signed(1)[OF assms(2)]
    by (auto simp: native_product_def Let_def mi_def ma_def split: if_splits)
  have nn: "0 \<le> mi"
  proof (rule ccontr)
    assume "\<not> 0 \<le> mi"
    moreover have "-100000000000000000 \<le> mi" using b by (auto simp: mi_def)
    ultimately have "(mi + 2 ^ 64) mod 2 ^ 64 = mi + 2 ^ 64" by (intro mod_pos_pos_trivial) auto
    then have "mi mod 2 ^ 64 = mi + 2 ^ 64" by simp
    then show False using r(1) \<open>-100000000000000000 \<le> mi\<close> by (simp add: of_s64_def)
  qed
  then have "mi \<le> ma" "0 \<le> ma" "ma < 2 ^ 63" "mi < 2 ^ 63" using b by (auto simp: mi_def ma_def)
  then have v: "of_s64 mi = nat mi" "of_s64 ma = nat ma" using nn by (simp_all add: s64_small(2))
  have "u64 (nat mi * nat ma) \<le> nat mi * nat ma" by (simp add: u64_def)
  then have "int (u64 (nat mi * nat ma)) \<le> mi * ma"
    using nn \<open>0 \<le> ma\<close> by (metis of_nat_le_iff of_nat_mult int_nat_eq)
  also have "mi * ma = \<bar>?s1\<bar> * \<bar>?s2\<bar>" using nn by (auto simp: mi_def ma_def mult.commute split: if_splits)
  finally have "(of_int (int (u64 (nat mi * nat ma))) :: rat) \<le> of_int (\<bar>?s1\<bar> * \<bar>?s2\<bar>)" by (rule of_int_le_iff[THEN iffD2])
  moreover have "st_value r = of_nat (u64 (nat mi * nat ma))"
    unfolding r(2) v by (simp add: mkNativeNamed_def st_value_def st_signed_def apply_sign_def dec_def)
  ultimately show ?thesis by (simp add: st_value_native[OF assms(1)] st_value_native[OF assms(2)])
qed

section \<open>Rounding towards zero\<close>

lemma finish_round_le:
  assumes "finish_round sw1 sw2 iss amount off neg up = Inr r" "neg = up"
  shows "\<bar>st_value r\<bar> \<le> dec (int amount) off"
proof -
  have "mkAmount iss amount off neg = Inr r" using assms by (auto simp: finish_round_def Let_def split: if_splits)
  then show ?thesis by (rule mkAmount_le)
qed

lemma mulRound_le:
  assumes "st_ok v1" "st_ok v2" "mulRound sw1 sw2 v1 v2 iss up = Inr r"
    and "(mIsNegative v1 \<noteq> mIsNegative v2) = up"
  shows "\<bar>st_value r\<bar> \<le> \<bar>st_value v1\<bar> * \<bar>st_value v2\<bar>"
proof -
  consider (zero) "st_isZero v1 \<or> st_isZero v2" | (xrp) "\<not> (st_isZero v1 \<or> st_isZero v2)" "mIsNative v1" "mIsNative v2" "isXRP_id (currency iss)"
    | (gen) "\<not> (st_isZero v1 \<or> st_isZero v2)" "\<not> (mIsNative v1 \<and> mIsNative v2 \<and> isXRP_id (currency iss))" by blast
  then show ?thesis
  proof cases
    case zero
    then show ?thesis using assms(3) mkAmount_zero by (auto simp: mulRound_def)
  next
    case xrp
    then show ?thesis using assms native_product_le[of v1 v2 r]
      by (auto simp: mulRound_def st_ok_def issued_ok_def)
  next
    case gen
    obtain a1 o1 a2 o2 where op: "operand v1 = (a1, o1)" "operand v2 = (a2, o2)" by fastforce
    obtain m where m: "muldiv_round a1 a2 tenTo14 0 = Inr m"
      and f: "finish_round sw1 sw2 iss m (o1 + o2 + 14) (mIsNegative v1 \<noteq> mIsNegative v2) up = Inr r"
      using assms(3,4) gen op by (auto simp: mulRound_def)
    have "m = a1 * a2 div 10 ^ 14" using m by (simp add: muldiv_round_def Let_def tenTo14_def split: if_splits)
    then have "dec (int m) (o1 + o2 + 14) \<le> dec (int (a1 * a2)) (o1 + o2)" using dec_div_power[of "a1 * a2" 14 "o1 + o2"] by simp
    also have "\<dots> = \<bar>st_value v1\<bar> * \<bar>st_value v2\<bar>"
      by (simp add: operand_exact(1)[OF op(1), symmetric] operand_exact(1)[OF op(2), symmetric] dec_mult)
    finally show ?thesis using finish_round_le[OF f assms(4)] by linarith
  qed
qed

lemma divRound_le:
  assumes "divRound sw1 sw2 num den iss up = Inr r" "(mIsNegative num \<noteq> mIsNegative den) = up"
  shows "\<bar>st_value r\<bar> * \<bar>st_value den\<bar> \<le> \<bar>st_value num\<bar>"
proof (cases "st_isZero num")
  case True
  then have "st_value r = 0" using assms(1) mkAmount_zero by (auto simp: divRound_def split: if_splits)
  then show ?thesis by simp
next
  case False
  obtain a1 o1 a2 o2 where op: "operand num = (a1, o1)" "operand den = (a2, o2)" by fastforce
  obtain m where m: "muldiv_round a1 tenTo17 a2 0 = Inr m"
    and f: "finish_round sw1 sw2 iss m (o1 - o2 - 17) (mIsNegative num \<noteq> mIsNegative den) up = Inr r"
    using assms False op by (auto simp: divRound_def split: if_splits)
  have "m = a1 * 10 ^ 17 div a2" using m by (simp add: muldiv_round_def Let_def tenTo17_def tenTo14_def split: if_splits)
  then have "int m * int a2 \<le> int a1 * 10 ^ 17"
    by (metis div_times_less_eq_dividend of_nat_le_iff of_nat_mult of_nat_numeral of_nat_power)
  then have "dec (int m * int a2) (o1 - 17) \<le> dec (int a1 * 10 ^ 17) (o1 - 17)" by simp
  also have "\<dots> = \<bar>st_value num\<bar>" unfolding dec_shift by (simp add: operand_exact(1)[OF op(1)])
  also have "dec (int m * int a2) (o1 - 17) = dec (int m) (o1 - o2 - 17) * \<bar>st_value den\<bar>"
    by (simp add: operand_exact(1)[OF op(2), symmetric] dec_mult)
  finally have "dec (int m) (o1 - o2 - 17) * \<bar>st_value den\<bar> \<le> \<bar>st_value num\<bar>" .
  then show ?thesis using mult_right_mono[OF finish_round_le[OF f assms(2)], of "\<bar>st_value den\<bar>"] by linarith
qed

section \<open>Rates\<close>

text \<open>The word that \<^verbatim>\<open>getRate\<close> makes of a quotient.\<close>

definition rate_word :: "STAmount \<Rightarrow> uint64" where
  "rate_word r = push_bit (64 - 8) (of_int (mOffset r + 100)) OR of_nat (mValue r)"

lemma rate_word_val:
  assumes "st.fits (mValue r) (mOffset r)"
  shows "unat (rate_word r) = mValue r + nat (mOffset r + 100) * 2 ^ 56"
proof -
  note f = assms[unfolded st_fits_iff]
  have m: "mValue r < 2 ^ 56" using f by simp
  have "(of_nat (mValue r) :: uint64) AND push_bit 56 (of_int (mOffset r + 100)) = 0"
  proof (rule bit_eqI)
    fix n
    show "bit ((of_nat (mValue r) :: uint64) AND push_bit 56 (of_int (mOffset r + 100))) n \<longleftrightarrow> bit (0 :: uint64) n"
      using bit_of_nat_small[OF m, of n] by (auto simp: bit_push_bit_iff bit_and_iff)
  qed
  then have "rate_word r = of_nat (mValue r) + push_bit 56 (of_int (mOffset r + 100))"
    using disjunctive_add_eq_or[of "of_nat (mValue r) :: uint64" "push_bit 56 (of_int (mOffset r + 100))"]
    by (simp add: rate_word_def or.commute)
  also have "\<dots> = of_nat (mValue r + nat (mOffset r + 100) * 2 ^ 56)"
    using f by (simp add: push_bit_eq_mult of_nat_nat)
  finally have "unat (rate_word r) = unat (of_nat (mValue r + nat (mOffset r + 100) * 2 ^ 56) :: uint64)" by (simp only:)
  also have "\<dots> = mValue r + nat (mOffset r + 100) * 2 ^ 56" using f by (intro unat_of_nat_small) auto
  finally show ?thesis .
qed

lemma rate_parts:
  fixes w :: uint64
  shows "unat (w AND NOT (push_bit (64 - 8) 255)) = unat w mod 2 ^ 56" "unat (drop_bit (64 - 8) w) = unat w div 2 ^ 56"
proof -
  have "NOT (push_bit (64 - 8) 255) = (mask 56 :: uint64)" by (simp add: mask_eq_exp_minus_1)
  then have "w AND NOT (push_bit (64 - 8) 255) = take_bit 56 w" by (simp only: take_bit_eq_mask)
  moreover have "unat (take_bit 56 w) = take_bit 56 (unat w)" by (simp add: unsigned_take_bit_eq)
  ultimately show "unat (w AND NOT (push_bit (64 - 8) 255)) = unat w mod 2 ^ 56"
    by (simp only: take_bit_eq_mod[of 56 "unat w"])
  show "unat (drop_bit (64 - 8) w) = unat w div 2 ^ 56" by (simp add: unat_drop_bit_div)
qed

lemma noIssue_not_xrp: "\<not> isXRP_id (currency noIssue)"
  by (simp add: isXRP_id_def bu_isZero_def noIssue_def noCurrency_def bu_data_def bu_assign_def bu_zero_def
      bytes32_def numeral_nat)

lemma mkAmount_issued_ok:
  assumes "mkAmount iss m e neg = Inr r" "\<not> isXRP_id (currency iss)"
  shows "issued_ok r"
  using mkAmount_issued[OF assms(2), of m e neg] assms(1) by (auto simp: same_outcome_def split: sum.splits)

lemma st_divide_ok:
  assumes "st_divide num den iss = Inr r" "\<not> isXRP_id (currency iss)"
  shows "issued_ok r" "mIssue r = iss"
proof -
  obtain m e neg where "mkAmount iss m e neg = Inr r"
    using assms(1) by (auto simp: st_divide_def Let_def split: if_splits prod.splits)
  then show "issued_ok r" "mIssue r = iss" using mkAmount_issued_ok assms(2) mkAmount_fields(1) by blast+
qed

lemma getRate_word:
  assumes "st_divide offerIn offerOut noIssue = Inr r" "mValue r \<noteq> 0" "mValue offerOut \<noteq> 0"
  shows "getRate offerOut offerIn = rate_word r" "st.fits (mValue r) (mOffset r)"
  using assms st_divide_ok[OF assms(1) noIssue_not_xrp]
  by (auto simp: getRate_def st_isZero_iff rate_word_def issued_ok_def)

section \<open>Properties\<close>

text \<open>
  C30. A product rounded towards zero never exceeds the exact product in magnitude, whether the
  operands and the result are XRP or issued.
\<close>

theorem mulRound_never_exceeds:
  assumes "st_ok v1" "st_ok v2" "mulRound sw1 sw2 v1 v2 iss up = Inr r"
    and "(mIsNegative v1 \<noteq> mIsNegative v2) = up"
  shows "\<bar>st_value r\<bar> \<le> \<bar>st_value v1 * st_value v2\<bar>"
  using mulRound_le[OF assms] by (simp add: abs_mult)

text \<open>
  C31. A quotient rounded towards zero, multiplied back by the divisor, never exceeds the dividend
  in magnitude.
\<close>

theorem divRound_never_exceeds:
  assumes "divRound sw1 sw2 num den iss up = Inr r" "(mIsNegative num \<noteq> mIsNegative den) = up"
  shows "\<bar>st_value r * st_value den\<bar> \<le> \<bar>st_value num\<bar>"
  using divRound_le[OF assms] by (simp add: abs_mult)

text \<open>
  C32. The 64-bit rate of an offer decodes to the quotient from which it was computed.
\<close>

theorem rate_roundtrip:
  assumes "st_divide offerIn offerOut noIssue = Inr r" "0 < st_signum r" "\<not> st_isZero offerOut"
  shows "amountFromQuality (getRate offerOut offerIn) = Inr r"
proof -
  have nz: "mValue r \<noteq> 0" "\<not> mIsNegative r" using assms(2) by (auto simp: st_signum_def split: if_splits)
  have out: "mValue offerOut \<noteq> 0" using assms(3) by (simp add: st_isZero_iff)
  note g = getRate_word[OF assms(1) nz(1) out] and f = getRate_word(2)[OF assms(1) nz(1) out, unfolded st_fits_iff]
  note v = rate_word_val[OF g(2)]
  have "unat (rate_word r) mod 2 ^ 56 = mValue r" "unat (rate_word r) div 2 ^ 56 = nat (mOffset r + 100)"
    unfolding v using f by simp_all
  moreover have "rate_word r \<noteq> 0" using v f by (auto simp flip: unat_eq_zero)
  moreover have "mkAmount noIssue (mValue r) (mOffset r) False = Inr r"
  proof -
    have r: "\<lparr>mIssue = noIssue, mValue = mValue r, mOffset = mOffset r, mIsNative = False, mIsNegative = False\<rparr> = r"
      using st_divide_ok[OF assms(1) noIssue_not_xrp] nz(2) by (cases r) (simp add: issued_ok_def)
    show ?thesis unfolding mkAmount_def r
      using st_divide_ok[OF assms(1) noIssue_not_xrp] g(2) by (intro canonicalize_fits) (auto simp: issued_ok_def)
  qed
  ultimately show ?thesis using f
    unfolding amountFromQuality_def g(1) rate_parts Let_def by simp
qed

text \<open>
  C33. Rates compare as the quotients do: the unsigned order of the 64-bit words, by which order
  books are sorted, is the order of the exact values.
\<close>

theorem rate_order:
  assumes "st_divide in1 out1 noIssue = Inr r1" "st_divide in2 out2 noIssue = Inr r2"
    and "0 < st_signum r1" "0 < st_signum r2" "\<not> st_isZero out1" "\<not> st_isZero out2"
  shows "getRate out1 in1 < getRate out2 in2 \<longleftrightarrow> st_value r1 < st_value r2"
proof -
  have nz: "mValue r1 \<noteq> 0" "\<not> mIsNegative r1" "mValue r2 \<noteq> 0" "\<not> mIsNegative r2"
    using assms(3,4) by (auto simp: st_signum_def split: if_splits)
  have out: "mValue out1 \<noteq> 0" "mValue out2 \<noteq> 0" using assms(5,6) by (simp_all add: st_isZero_iff)
  note g1 = getRate_word[OF assms(1) nz(1) out(1)] and g2 = getRate_word[OF assms(2) nz(3) out(2)]
  note f1 = g1(2)[unfolded st_fits_iff] and f2 = g2(2)[unfolded st_fits_iff]
  have "getRate out1 in1 < getRate out2 in2 \<longleftrightarrow>
      mOffset r1 < mOffset r2 \<or> mOffset r1 = mOffset r2 \<and> mValue r1 < mValue r2"
    unfolding g1(1) g2(1) word_less_nat_alt rate_word_val[OF g1(2)] rate_word_val[OF g2(2)]
    using f1 f2 by (cases "mOffset r1" "mOffset r2" rule: linorder_cases) auto
  also have "\<dots> \<longleftrightarrow> st_value r1 < st_value r2"
    using st.fits_less_iff[OF g1(2) g2(2)] nz by (simp add: st_value_def st_signed_def apply_sign_def)
  finally show ?thesis .
qed

subsection \<open>Witnesses and boundary cases\<close>

definition one_usd :: STAmount where "one_usd = mkUnchecked usd 1000000000000000 (-15) False False"
definition two_usd :: STAmount where "two_usd = mkUnchecked usd 2000000000000000 (-15) False False"
definition rate_1 :: STAmount where "rate_1 = mkUnchecked noIssue 1000000000000000 (-15) False False"
definition rate_half :: STAmount where "rate_half = mkUnchecked noIssue 5000000000000000 (-16) False False"

lemmas st_eval = mkUnchecked_def st_isZero_iff operand_def muldiv_def muldiv_round_def
  tenTo14_def tenTo17_def tenTo14m1_def finish_round_def mkAmount_def canonicalize_def st_isXRP_def
  st_consts scale_up.simps scale_down.simps u64_def Let_def

lemma one_usd_ok: "st_ok one_usd"
  using usd_not_xrp by (simp add: st_ok_def issued_ok_def one_usd_def mkUnchecked_def st_fits_iff st_isXRP_def)

theorem mulRound_never_exceeds_witness: "\<bar>st_value one_usd\<bar> \<le> \<bar>st_value one_usd * st_value one_usd\<bar>"
proof -
  have "mulRound True True one_usd one_usd usd False = Inr one_usd"
    using usd_not_xrp by (simp add: mulRound_def one_usd_def st_eval)
  then show ?thesis using mulRound_never_exceeds[OF one_usd_ok one_usd_ok] by blast
qed

theorem divRound_never_exceeds_witness: "\<bar>st_value one_usd * st_value one_usd\<bar> \<le> \<bar>st_value one_usd\<bar>"
proof -
  have "divRound True True one_usd one_usd usd False = Inr one_usd"
    using usd_not_xrp by (simp add: divRound_def one_usd_def st_eval)
  then show ?thesis using divRound_never_exceeds by blast
qed

lemma usd_rates: "st_divide one_usd one_usd noIssue = Inr rate_1" "st_divide one_usd two_usd noIssue = Inr rate_half"
  using noIssue_not_xrp by (simp_all add: st_divide_def one_usd_def two_usd_def rate_1_def rate_half_def st_eval)

theorem rate_roundtrip_witness: "amountFromQuality (getRate two_usd one_usd) = Inr rate_half"
  using rate_roundtrip[OF usd_rates(2)] by (simp add: st_signum_def rate_half_def two_usd_def mkUnchecked_def st_isZero_iff)

theorem rate_order_witness:
  "getRate two_usd one_usd < getRate one_usd one_usd \<longleftrightarrow> st_value rate_half < st_value rate_1"
  using rate_order[OF usd_rates(2,1)]
  by (simp add: st_signum_def rate_half_def rate_1_def one_usd_def two_usd_def mkUnchecked_def st_isZero_iff)

text \<open>
  Rounding up can fall below the exact product: the eighteen-digit intermediate loses its last
  digit to a truncating division before the rounding increment.
\<close>

lemma mulRound_up_below:
  "\<exists>a b r. st_ok a \<and> st_ok b \<and> mulRound True True a b usd True = Inr r \<and> st_value r < st_value a * st_value b"
proof -
  let ?a = "mkUnchecked usd 5253608691488931 0 False False" and ?b = "mkUnchecked usd 1903453528276749 0 False False"
  let ?r = "mkUnchecked usd 1000000000000000 16 False False"
  have "st_ok ?a" "st_ok ?b"
    using usd_not_xrp by (simp_all add: st_ok_def issued_ok_def mkUnchecked_def st_fits_iff st_isXRP_def)
  moreover have "mulRound True True ?a ?b usd True = Inr ?r"
    using usd_not_xrp by (simp add: mulRound_def st_eval canonicalizeRound_def drop_while_above.simps)
  moreover have "st_value ?r < st_value ?a * st_value ?b"
    by (simp add: st_value_def st_signed_def mkUnchecked_def apply_sign_def dec_def)
  ultimately show ?thesis by blast
qed

text \<open>An XRP amount below one drop with a minus sign becomes a negative zero.\<close>

lemma negative_zero_drops: "\<exists>r. mkAmount xrpIssue 5 (-1) True = Inr r \<and> mValue r = 0 \<and> mIsNegative r"
  using xrpIssue_isXRP
  by (simp add: mkAmount_def canonicalize_def st_isXRP_def native_down.simps native_up.simps)

text \<open>Scaling a native mantissa up wraps: ten to the 64 drops are accepted as none.\<close>

lemma native_up_wraps: "native_up v (int n) = (if n = 0 then (v, 0) else (v * 10 ^ n mod 2 ^ 64, 0))"
proof (induction n arbitrary: v)
  case 0
  then show ?case by (simp add: native_up.simps)
next
  case (Suc n)
  have "native_up v (int (Suc n)) = native_up (u64 (v * 10)) (int n)" by (simp add: native_up.simps[of v])
  then show ?case using Suc[of "u64 (v * 10)"] by (simp add: u64_def mod_mult_left_eq mult.assoc)
qed

lemma native_wrap_accepted: "\<exists>r. mkAmount xrpIssue 1 64 False = Inr r \<and> mValue r = 0"
  using xrpIssue_isXRP native_up_wraps[of 1 64]
  by (simp add: mkAmount_def canonicalize_def st_isXRP_def native_down.simps)

end
