(* ===== verification/SHAMap.thy ===== *)
theory SHAMap
  imports BaseUint "HOL-Library.Monad_Syntax"
begin

text \<open>
  The radix tree that holds transaction sets and ledger state, \<^verbatim>\<open>ripple/shamap\<close>: node identifiers,
  nodes, and the operations of \<^verbatim>\<open>SHAMap.cpp\<close> and \<^verbatim>\<open>SHAMapDelta.cpp\<close> for maps of version 1.

  A tree is a value.  \<^verbatim>\<open>unshareNode\<close> copies a node that another map shares before it is modified,
  so on values it is the identity, and a snapshot is the same tree.  All nodes are in memory:
  \<^verbatim>\<open>descendThrow\<close> is the access to the child.  The cached hash of a node is the hash
  that \<^verbatim>\<open>unshare\<close> computes, a function of the tree; the hash \<^verbatim>\<open>sha512Half\<close> is a parameter.
  A stack is a list with its top first.  Operations return \<^const>\<open>None\<close> where the code fails an
  assertion or throws \<^verbatim>\<open>SHAMapMissingNode\<close>.
\<close>

section \<open>Node identifiers\<close>

record SHAMapNodeID =
  mNodeID :: blob
  mDepth :: int

definition rootID :: SHAMapNodeID where
  "rootID = \<lparr>mNodeID = replicate 32 0, mDepth = 0\<rparr>"

definition nid_isValid :: "SHAMapNodeID \<Rightarrow> bool" where
  "nid_isValid n \<longleftrightarrow> 0 \<le> mDepth n \<and> mDepth n \<le> 64"

definition nid_isRoot :: "SHAMapNodeID \<Rightarrow> bool" where
  "nid_isRoot n \<longleftrightarrow> mDepth n = 0"

text \<open>The table of masks: the first \<open>depth\<close> nibbles set.\<close>

definition Masks :: "nat \<Rightarrow> blob" where
  "Masks depth =
     (let full = replicate (depth div 2) 0xFF;
          half = (if odd depth then [0xF0] else [])
      in full @ half @ replicate (32 - length full - length half) 0)"

definition nid_getParent :: "SHAMapNodeID \<Rightarrow> SHAMapNodeID option" where
  "nid_getParent n =
     (if mDepth n = 0 then None
      else Some \<lparr>mNodeID = map2 (AND) (mNodeID n) (Masks (nat (mDepth n - 1))), mDepth = mDepth n - 1\<rparr>)"

definition getChildNodeID :: "SHAMapNodeID \<Rightarrow> nat \<Rightarrow> SHAMapNodeID" where
  "getChildNodeID n m =
     (let i = nat (mDepth n) div 2
      in \<lparr>mNodeID = (mNodeID n)[i := (mNodeID n ! i) OR
            (if odd (mDepth n) then of_nat m else push_bit 4 (of_nat m))],
          mDepth = mDepth n + 1\<rparr>)"

lemma mDepth_child [simp]: "mDepth (getChildNodeID n m) = mDepth n + 1"
  by (simp add: getChildNodeID_def Let_def)

definition selectBranch :: "SHAMapNodeID \<Rightarrow> blob \<Rightarrow> nat" where
  "selectBranch n hash =
     (let branch = hash ! (nat (mDepth n) div 2)
      in unat (if odd (mDepth n) then branch AND 0xf else drop_bit 4 branch))"

definition nid_less :: "SHAMapNodeID \<Rightarrow> SHAMapNodeID \<Rightarrow> bool" where
  "nid_less a b \<longleftrightarrow> mDepth a < mDepth b \<or> (\<not> mDepth b < mDepth a \<and> bu_less (mNodeID a) (mNodeID b))"

definition nid_eq :: "SHAMapNodeID \<Rightarrow> SHAMapNodeID \<Rightarrow> bool" where
  "nid_eq a b \<longleftrightarrow> mDepth a = mDepth b \<and> bu_eq (mNodeID a) (mNodeID b)"

definition addIDRaw :: "SHAMapNodeID \<Rightarrow> Serializer \<Rightarrow> Serializer" where
  "addIDRaw n s = snd (add8 (word_of_int (mDepth n)) (snd (add256 (mNodeID n) s)))"

definition nid_fromRaw :: "blob \<Rightarrow> SHAMapNodeID" where
  "nid_fromRaw raw =
     (if length raw < 33 then \<lparr>mNodeID = replicate 32 0, mDepth = -1\<rparr>
      else \<lparr>mNodeID = take 32 raw, mDepth = int (unat (raw ! 32))\<rparr>)"

section \<open>Nodes\<close>

record SHAMapItem =
  tag :: blob
  idata :: blob

datatype TNType = tnERROR | tnINNER | tnTRANSACTION_NM | tnTRANSACTION_MD | tnACCOUNT_STATE

datatype SHAMapNode = TreeNode SHAMapItem TNType | InnerNode "SHAMapNode option list"

type_synonym node_stack = "(SHAMapNode \<times> SHAMapNodeID) list"

text \<open>The constructor of a leaf asserts that its data are at least twelve bytes long.\<close>

definition mkTreeNode :: "SHAMapItem \<Rightarrow> TNType \<Rightarrow> SHAMapNode option" where
  "mkTreeNode item type = (if 12 \<le> length (idata item) then Some (TreeNode item type) else None)"

definition newInner :: "SHAMapNode option list" where
  "newInner = replicate 16 None"

definition getChild :: "SHAMapNode option list \<Rightarrow> nat \<Rightarrow> SHAMapNode option" where
  "getChild cs branch = (if branch < length cs then cs ! branch else None)"

definition isEmptyBranch :: "SHAMapNode option list \<Rightarrow> nat \<Rightarrow> bool" where
  "isEmptyBranch cs m \<longleftrightarrow> getChild cs m = None"

definition setChild :: "SHAMapNode option list \<Rightarrow> nat \<Rightarrow> SHAMapNode option \<Rightarrow> SHAMapNode option list" where
  "setChild cs m child = cs[m := child]"

text \<open>The non-empty branches in order.\<close>

definition branches :: "SHAMapNode option list \<Rightarrow> SHAMapNode list" where
  "branches cs = List.map_filter id cs"

definition getBranchCount :: "SHAMapNode option list \<Rightarrow> nat" where
  "getBranchCount cs = length (filter (\<lambda>i. \<not> isEmptyBranch cs i) [0..<16])"

definition inner_isEmpty :: "SHAMapNode option list \<Rightarrow> bool" where
  "inner_isEmpty cs \<longleftrightarrow> (\<forall>c\<in>set cs. c = None)"

lemma getChild_Cons [simp]: "getChild (c # cs) 0 = c" "getChild (c # cs) (Suc i) = getChild cs i" "getChild [] i = None"
  by (simp_all add: getChild_def)

lemma getChild_mem: "getChild cs b = Some c \<Longrightarrow> Some c \<in> set cs"
  by (auto simp: getChild_def split: if_splits) (metis nth_mem)

lemma size_child [termination_simp]: "Some c \<in> set cs \<Longrightarrow> size c < size_list (size_option size) cs"
  by (induction cs) auto

lemma branches_mem: "c \<in> set (branches cs) \<longleftrightarrow> Some c \<in> set cs"
  by (induction cs) (auto simp: branches_def List.map_filter_def)

lemma node_induct [case_names TreeNode InnerNode, induct type: SHAMapNode]:
  assumes "\<And>it ty. P (TreeNode it ty)"
    and "\<And>cs. (\<And>c. Some c \<in> set cs \<Longrightarrow> P c) \<Longrightarrow> P (InnerNode cs)"
  shows "P n"
proof (induction "size n" arbitrary: n rule: less_induct)
  case less
  show ?case
  proof (cases n)
    case (InnerNode cs)
    then show ?thesis using less by (auto intro!: assms(2) less_SucI[OF size_child])
  qed (simp add: assms(1))
qed

section \<open>Hashes\<close>

text \<open>The hash prefixes are four bytes, three letters and a zero.\<close>

definition hp_transactionID :: uint32 where "hp_transactionID = 0x54584E00"
definition hp_txNode :: uint32 where "hp_txNode = 0x534E4400"
definition hp_leafNode :: uint32 where "hp_leafNode = 0x4D4C4E00"
definition hp_innerNode :: uint32 where "hp_innerNode = 0x4D494E00"

text \<open>What \<^verbatim>\<open>SHAMapTreeNode::updateHash\<close> hashes; other types fail an assertion.\<close>

definition leaf_preimage :: "SHAMapItem \<Rightarrow> TNType \<Rightarrow> blob" where
  "leaf_preimage item type =
     (case type of
        tnTRANSACTION_NM \<Rightarrow> bytes32 hp_transactionID @ idata item
      | tnACCOUNT_STATE \<Rightarrow> bytes32 hp_leafNode @ idata item @ tag item
      | tnTRANSACTION_MD \<Rightarrow> bytes32 hp_txNode @ idata item @ tag item
      | _ \<Rightarrow> [])"

fun node_hash :: "(blob \<Rightarrow> blob) \<Rightarrow> SHAMapNode \<Rightarrow> blob" where
  "node_hash sha (TreeNode item type) = sha (leaf_preimage item type)"
| "node_hash sha (InnerNode cs) =
     (if inner_isEmpty cs then replicate 32 0
      else sha (bytes32 hp_innerNode @
        concat (map (\<lambda>c. case c of None \<Rightarrow> replicate 32 0 | Some n \<Rightarrow> node_hash sha n) cs)))"

definition getChildHash :: "(blob \<Rightarrow> blob) \<Rightarrow> SHAMapNode option list \<Rightarrow> nat \<Rightarrow> blob" where
  "getChildHash sha cs m =
     (case getChild cs m of None \<Rightarrow> replicate 32 0 | Some n \<Rightarrow> node_hash sha n)"

section \<open>Maps\<close>

datatype SHAMapState = Modifying | Immutable | Synching | Floating | Invalid

record SHAMap =
  smState :: SHAMapState
  smRoot :: SHAMapNode

definition newSHAMap :: SHAMap where
  "newSHAMap = \<lparr>smState = Modifying, smRoot = InnerNode newInner\<rparr>"

definition snapShot :: "bool \<Rightarrow> SHAMap \<Rightarrow> SHAMap" where
  "snapShot isMutable m =
     \<lparr>smState = (if isMutable then Modifying else Immutable), smRoot = smRoot m\<rparr>"

definition sm_setImmutable :: "SHAMap \<Rightarrow> SHAMap option" where
  "sm_setImmutable m = (if smState m = Invalid then None else Some (m\<lparr>smState := Immutable\<rparr>))"

definition getHash :: "(blob \<Rightarrow> blob) \<Rightarrow> SHAMap \<Rightarrow> blob" where
  "getHash sha m = node_hash sha (smRoot m)"

section \<open>Lookup\<close>

text \<open>The walk towards a key, with the nodes it passed, the last one on top.\<close>

function walkTowards ::
  "blob \<Rightarrow> SHAMapNode \<Rightarrow> SHAMapNodeID \<Rightarrow> node_stack \<Rightarrow> (SHAMapItem \<times> TNType) option \<times> node_stack" where
  "walkTowards key (TreeNode it ty) nodeID stack = (Some (it, ty), (TreeNode it ty, nodeID) # stack)"
| "walkTowards key (InnerNode cs) nodeID stack =
     (let stack' = (InnerNode cs, nodeID) # stack; branch = selectBranch nodeID key
      in case getChild cs branch of
           None \<Rightarrow> (None, stack')
         | Some c \<Rightarrow> walkTowards key c (getChildNodeID nodeID branch) stack')"
  by pat_completeness auto
termination
  by (relation "measure (\<lambda>(_, n, _, _). size n)") (auto intro: less_SucI size_child getChild_mem)

definition walkTowardsKey :: "blob \<Rightarrow> SHAMap \<Rightarrow> (SHAMapItem \<times> TNType) option \<times> node_stack" where
  "walkTowardsKey key m = walkTowards key (smRoot m) rootID []"

definition findKey :: "blob \<Rightarrow> SHAMap \<Rightarrow> (SHAMapItem \<times> TNType) option" where
  "findKey key m =
     (case fst (walkTowardsKey key m) of
        None \<Rightarrow> None
      | Some (it, ty) \<Rightarrow> if tag it \<noteq> key then None else Some (it, ty))"

definition sm_peekItem :: "blob \<Rightarrow> SHAMap \<Rightarrow> SHAMapItem option" where
  "sm_peekItem key m = map_option fst (findKey key m)"

definition sm_hasItem :: "blob \<Rightarrow> SHAMap \<Rightarrow> bool" where
  "sm_hasItem key m \<longleftrightarrow> findKey key m \<noteq> None"

section \<open>Modification\<close>

text \<open>The loop of \<^verbatim>\<open>dirtyUp\<close>; its last node is the new root.\<close>

fun dirtyUp :: "node_stack \<Rightarrow> blob \<Rightarrow> SHAMapNode \<Rightarrow> SHAMapNode option" where
  "dirtyUp [] target child = Some child"
| "dirtyUp ((InnerNode cs, nodeID) # stack) target child =
     dirtyUp stack target (InnerNode (setChild cs (selectBranch nodeID target) (Some child)))"
| "dirtyUp ((TreeNode it ty, nodeID) # stack) target child = None"

definition node_type :: "bool \<Rightarrow> bool \<Rightarrow> TNType" where
  "node_type isTransaction hasMeta =
     (if \<not> isTransaction then tnACCOUNT_STATE
      else if hasMeta then tnTRANSACTION_MD else tnTRANSACTION_NM)"

text \<open>
  The loop that pushes inner nodes until two keys part; at depth 64 \<^verbatim>\<open>getChildNodeID\<close>
  fails its assertion.
\<close>

function part_keys ::
  "blob \<Rightarrow> blob \<Rightarrow> SHAMapNodeID \<Rightarrow> node_stack \<Rightarrow> (nat \<times> nat \<times> node_stack) option" where
  "part_keys tag1 tag2 nodeID stack =
     (let b1 = selectBranch nodeID tag1; b2 = selectBranch nodeID tag2
      in if 64 \<le> mDepth nodeID then None
         else if b1 = b2
         then part_keys tag1 tag2 (getChildNodeID nodeID b1) ((InnerNode newInner, nodeID) # stack)
         else Some (b1, b2, stack))"
  by pat_completeness auto
termination
  by (relation "measure (\<lambda>(_, _, n, _). nat (64 - mDepth n))") auto

declare part_keys.simps [simp del]

definition addGiveItem :: "SHAMapItem \<Rightarrow> bool \<Rightarrow> bool \<Rightarrow> SHAMap \<Rightarrow> (bool \<times> SHAMap) option" where
  "addGiveItem item isTransaction hasMeta m =
     (let type = node_type isTransaction hasMeta
      in if smState m = Immutable then None
         else case snd (walkTowardsKey (tag item) m) of
           [] \<Rightarrow> None
         | (InnerNode cs, nodeID) # stack \<Rightarrow>
             (let branch = selectBranch nodeID (tag item)
              in if \<not> isEmptyBranch cs branch then None
                 else do { newNode \<leftarrow> mkTreeNode item type;
                           r \<leftarrow> dirtyUp stack (tag item) (InnerNode (setChild cs branch (Some newNode)));
                           Some (True, m\<lparr>smRoot := r\<rparr>) })
         | (TreeNode otherItem _, nodeID) # stack \<Rightarrow>
             (if tag otherItem = tag item then Some (False, m)
              else do { (b1, b2, stack) \<leftarrow> part_keys (tag item) (tag otherItem) nodeID stack;
                        newNode \<leftarrow> mkTreeNode item type;
                        otherNode \<leftarrow> mkTreeNode otherItem type;
                        r \<leftarrow> dirtyUp stack (tag item)
                          (InnerNode (setChild (setChild newInner b1 (Some newNode)) b2 (Some otherNode)));
                        Some (True, m\<lparr>smRoot := r\<rparr>) }))"

definition updateGiveItem ::
  "(blob \<Rightarrow> blob) \<Rightarrow> SHAMapItem \<Rightarrow> bool \<Rightarrow> bool \<Rightarrow> SHAMap \<Rightarrow> (bool \<times> SHAMap) option" where
  "updateGiveItem sha item isTransaction hasMeta m =
     (let type = node_type isTransaction hasMeta
      in if smState m = Immutable then None
         else case snd (walkTowardsKey (tag item) m) of
           (TreeNode old oty, nodeID) # stack \<Rightarrow>
             (if tag old \<noteq> tag item then None
              else if node_hash sha (TreeNode item type) = node_hash sha (TreeNode old oty)
              then Some (True, m)
              else do { r \<leftarrow> dirtyUp stack (tag item) (TreeNode item type);
                        Some (True, m\<lparr>smRoot := r\<rparr>) })
         | _ \<Rightarrow> None)"

text \<open>The only item below a node, if there is just one.\<close>

function onlyBelow :: "SHAMapNode \<Rightarrow> SHAMapItem option" where
  "onlyBelow (TreeNode it ty) = Some it"
| "onlyBelow (InnerNode cs) = (case branches cs of [c] \<Rightarrow> onlyBelow c | _ \<Rightarrow> None)"
  by pat_completeness auto
termination
proof (relation "measure size")
  fix cs c x
  assume "branches cs = c # x" "x = []"
  then have "Some c \<in> set cs" using branches_mem[of c cs] by simp
  then show "(c, InnerNode cs) \<in> measure size" using size_child[of c cs] by simp
qed simp

text \<open>What \<^verbatim>\<open>delItem\<close> leaves of an inner node other than the root.\<close>

definition shrink :: "TNType \<Rightarrow> SHAMapNode option list \<Rightarrow> SHAMapNode option option" where
  "shrink type cs =
     (if getBranchCount cs = 0 then Some None
      else if getBranchCount cs = 1 then
        (case onlyBelow (InnerNode cs) of
           Some item \<Rightarrow> map_option Some (mkTreeNode item type)
         | None \<Rightarrow> Some (Some (InnerNode cs)))
      else Some (Some (InnerNode cs)))"

fun delUp :: "blob \<Rightarrow> TNType \<Rightarrow> node_stack \<Rightarrow> SHAMapNode option \<Rightarrow> SHAMapNode \<Rightarrow> SHAMapNode option" where
  "delUp key type [] prevNode rt = Some rt"
| "delUp key type ((InnerNode cs, nodeID) # stack) prevNode rt =
     (let cs' = setChild cs (selectBranch nodeID key) prevNode
      in if nid_isRoot nodeID then delUp key type stack prevNode (InnerNode cs')
         else do { prev \<leftarrow> shrink type cs'; delUp key type stack prev rt })"
| "delUp key type ((TreeNode it ty, nodeID) # stack) prevNode rt = None"

definition delItem :: "blob \<Rightarrow> SHAMap \<Rightarrow> (bool \<times> SHAMap) option" where
  "delItem key m =
     (if smState m = Immutable then None
      else case snd (walkTowardsKey key m) of
        [] \<Rightarrow> None
      | (InnerNode cs, _) # stack \<Rightarrow> Some (False, m)
      | (TreeNode it type, _) # stack \<Rightarrow>
          (if tag it \<noteq> key then Some (False, m)
           else do { r \<leftarrow> delUp key type stack None (smRoot m); Some (True, m\<lparr>smRoot := r\<rparr>) }))"

section \<open>Iteration\<close>

text \<open>
  \<^verbatim>\<open>firstBelow\<close> descends along the first branches.  It computes the identifiers of the nodes
  it pushes from its argument \<^verbatim>\<open>branch\<close> and not from the branch it takes; only their depth is
  used afterwards.
\<close>

definition leafID :: "SHAMapItem \<Rightarrow> SHAMapNodeID" where
  "leafID it = \<lparr>mNodeID = tag it, mDepth = 64\<rparr>"

function descendFirst :: "SHAMapNode option list \<Rightarrow> node_stack \<Rightarrow> nat \<Rightarrow> SHAMapItem option \<times> node_stack" where
  "descendFirst cs stack branch =
     (case branches cs of
        [] \<Rightarrow> (None, stack)
      | TreeNode it ty # _ \<Rightarrow> (Some it, (TreeNode it ty, leafID it) # stack)
      | InnerNode ds # _ \<Rightarrow>
          descendFirst ds ((InnerNode ds, getChildNodeID (snd (hd stack)) branch) # stack) branch)"
  by pat_completeness auto
termination
proof (relation "measure (\<lambda>(cs, _, _). size (InnerNode cs))", simp)
  fix cs :: "SHAMapNode option list" and stack :: node_stack and branch :: nat and c r ds
  assume "branches cs = c # r" "c = InnerNode ds"
  then have "Some (InnerNode ds) \<in> set cs" using branches_mem[of c cs] by simp
  then show "((ds, (InnerNode ds, getChildNodeID (snd (hd stack)) branch) # stack, branch), cs, stack, branch)
      \<in> measure (\<lambda>(cs, _, _). size (InnerNode cs))"
    using size_child[of "InnerNode ds" cs] by simp
qed

declare descendFirst.simps [simp del]

definition firstBelow :: "SHAMapNode \<Rightarrow> node_stack \<Rightarrow> nat \<Rightarrow> SHAMapItem option \<times> node_stack" where
  "firstBelow node stack branch =
     (case node of
        TreeNode it ty \<Rightarrow> (Some it, (node, leafID it) # stack)
      | InnerNode cs \<Rightarrow>
          descendFirst cs
            ((node, if stack = [] then rootID else getChildNodeID (snd (hd stack)) branch) # stack) branch)"

definition peekFirstItem :: "SHAMap \<Rightarrow> SHAMapItem option \<times> node_stack" where
  "peekFirstItem m =
     (case firstBelow (smRoot m) [] 0 of (None, _) \<Rightarrow> (None, []) | (Some it, stack) \<Rightarrow> (Some it, stack))"

definition next_branch :: "SHAMapNode option list \<Rightarrow> nat \<Rightarrow> nat option" where
  "next_branch cs b = find (\<lambda>i. \<not> isEmptyBranch cs i) [b..<16]"

text \<open>The first leaf of a later branch of a node on top of the stack; no leaf throws.\<close>

definition firstAfter ::
  "SHAMapNode option list \<Rightarrow> nat \<Rightarrow> node_stack \<Rightarrow> (SHAMapItem \<times> node_stack) option option" where
  "firstAfter cs b stack =
     (case next_branch cs b of
        None \<Rightarrow> Some None
      | Some i \<Rightarrow>
          do { c \<leftarrow> getChild cs i;
               case firstBelow c stack i of (None, _) \<Rightarrow> None | (Some it, st) \<Rightarrow> Some (Some (it, st)) })"

fun nextUp :: "blob \<Rightarrow> node_stack \<Rightarrow> (SHAMapItem option \<times> node_stack) option" where
  "nextUp key [] = Some (None, [])"
| "nextUp key ((InnerNode cs, nodeID) # stack) =
     do { found \<leftarrow> firstAfter cs (Suc (selectBranch nodeID key)) ((InnerNode cs, nodeID) # stack);
          case found of Some (it, st) \<Rightarrow> Some (Some it, st) | None \<Rightarrow> nextUp key stack }"
| "nextUp key ((TreeNode it ty, nodeID) # stack) = None"

definition peekNextItem :: "blob \<Rightarrow> node_stack \<Rightarrow> (SHAMapItem option \<times> node_stack) option" where
  "peekNextItem key stack =
     (case stack of (TreeNode it ty, nodeID) # rest \<Rightarrow> nextUp key rest | _ \<Rightarrow> None)"

fun upperUp :: "blob \<Rightarrow> node_stack \<Rightarrow> (SHAMapItem option \<times> node_stack) option" where
  "upperUp key [] = Some (None, [])"
| "upperUp key ((TreeNode it ty, nodeID) # stack) =
     (if bu_greater (tag it) key then Some (Some it, (TreeNode it ty, nodeID) # stack)
      else upperUp key stack)"
| "upperUp key ((InnerNode cs, nodeID) # stack) =
     do { found \<leftarrow> firstAfter cs (Suc (selectBranch nodeID key)) ((InnerNode cs, nodeID) # stack);
          case found of Some (it, st) \<Rightarrow> Some (Some it, st) | None \<Rightarrow> upperUp key stack }"

definition upper_bound :: "blob \<Rightarrow> SHAMap \<Rightarrow> (SHAMapItem option \<times> node_stack) option" where
  "upper_bound key m = upperUp key (snd (walkTowardsKey key m))"

section \<open>Comparison of maps\<close>

text \<open>\<^verbatim>\<open>Delta\<close> is an ordered map; \<^verbatim>\<open>insert\<close> keeps an entry that is there.\<close>

type_synonym Delta = "(blob \<times> SHAMapItem option \<times> SHAMapItem option) list"

fun delta_insert :: "blob \<Rightarrow> SHAMapItem option \<times> SHAMapItem option \<Rightarrow> Delta \<Rightarrow> Delta" where
  "delta_insert k v [] = [(k, v)]"
| "delta_insert k v ((k', v') # r) =
     (if bu_less k k' then (k, v) # (k', v') # r
      else if bu_less k' k then (k', v') # delta_insert k v r
      else (k', v') # r)"

text \<open>
  Recording one difference; the flag is false when \<^verbatim>\<open>--maxCount <= 0\<close>.  The result of the
  traversals is that flag, the differences and the remaining count.
\<close>

type_synonym delta_state = "bool \<times> Delta \<times> int"

definition note_diff ::
  "blob \<Rightarrow> SHAMapItem option \<times> SHAMapItem option \<Rightarrow> Delta \<times> int \<Rightarrow> delta_state" where
  "note_diff k v = (\<lambda>(d, n). (0 < n - 1, delta_insert k v d, n - 1))"

definition go_on :: "delta_state \<Rightarrow> (Delta \<times> int \<Rightarrow> delta_state) \<Rightarrow> delta_state" where
  "go_on r f = (case r of (b, s) \<Rightarrow> if b then f s else r)"

definition delta_ref :: "bool \<Rightarrow> SHAMapItem option \<Rightarrow> SHAMapItem option \<Rightarrow> SHAMapItem option \<times> SHAMapItem option" where
  "delta_ref isFirstMap x y = (if isFirstMap then (x, y) else (y, x))"

lemma sum_size_branches: "sum_list (map (Suc \<circ> size) (branches cs)) \<le> size_list (size_option size) cs"
  by (induction cs) (auto simp: branches_def List.map_filter_def)

function walkBranch_loop ::
  "SHAMapNode list \<Rightarrow> SHAMapItem option \<Rightarrow> bool \<Rightarrow> bool \<Rightarrow> Delta \<times> int \<Rightarrow> delta_state" where
  "walkBranch_loop [] other isFirstMap emptyBranch s =
     (case other of
        Some o' \<Rightarrow>
          if \<not> emptyBranch then note_diff (tag o') (delta_ref isFirstMap None (Some o')) s else (True, s)
      | None \<Rightarrow> (True, s))"
| "walkBranch_loop (InnerNode cs # stack) other isFirstMap emptyBranch s =
     walkBranch_loop (rev (branches cs) @ stack) other isFirstMap emptyBranch s"
| "walkBranch_loop (TreeNode it ty # stack) other isFirstMap emptyBranch s =
     (case other of
        Some o' \<Rightarrow>
          if emptyBranch \<or> tag it \<noteq> tag o' then
            go_on (note_diff (tag it) (delta_ref isFirstMap (Some it) None) s)
              (walkBranch_loop stack other isFirstMap emptyBranch)
          else if idata it \<noteq> idata o' then
            go_on (note_diff (tag it) (delta_ref isFirstMap (Some it) (Some o')) s)
              (walkBranch_loop stack other isFirstMap True)
          else walkBranch_loop stack other isFirstMap True s
      | None \<Rightarrow>
          go_on (note_diff (tag it) (delta_ref isFirstMap (Some it) None) s)
            (walkBranch_loop stack other isFirstMap emptyBranch))"
  by pat_completeness auto
termination
  by (relation "measure (\<lambda>(st, _). sum_list (map (Suc \<circ> size) st))")
    (auto simp: less_Suc_eq_le rev_map[symmetric] intro: le_SucI[OF sum_size_branches])

definition walkBranch :: "SHAMapNode \<Rightarrow> SHAMapItem option \<Rightarrow> bool \<Rightarrow> Delta \<times> int \<Rightarrow> delta_state" where
  "walkBranch node otherMapItem isFirstMap s =
     walkBranch_loop [node] otherMapItem isFirstMap (otherMapItem = None) s"

text \<open>
  The two inner nodes of \<^verbatim>\<open>compare\<close>: branches with different hashes that only one of them has are
  walked in order, the pairs of children that both have are pushed.
\<close>

fun compare_branches ::
  "(blob \<Rightarrow> blob) \<Rightarrow> SHAMapNode option list \<Rightarrow> SHAMapNode option list \<Rightarrow> nat list \<Rightarrow> Delta \<times> int \<Rightarrow> delta_state" where
  "compare_branches sha ours other [] s = (True, s)"
| "compare_branches sha ours other (i # is) s =
     (if getChildHash sha ours i = getChildHash sha other i then compare_branches sha ours other is s
      else case (getChild ours i, getChild other i) of
             (Some c, None) \<Rightarrow> go_on (walkBranch c None True s) (compare_branches sha ours other is)
           | (None, Some c) \<Rightarrow> go_on (walkBranch c None False s) (compare_branches sha ours other is)
           | _ \<Rightarrow> compare_branches sha ours other is s)"

definition child_pair ::
  "(blob \<Rightarrow> blob) \<Rightarrow> SHAMapNode option list \<Rightarrow> SHAMapNode option list \<Rightarrow> nat \<Rightarrow> (SHAMapNode \<times> SHAMapNode) option" where
  "child_pair sha ours other i =
     (if getChildHash sha ours i = getChildHash sha other i then None
      else case (getChild ours i, getChild other i) of (Some c, Some d) \<Rightarrow> Some (c, d) | _ \<Rightarrow> None)"

definition pushed_pairs ::
  "(blob \<Rightarrow> blob) \<Rightarrow> SHAMapNode option list \<Rightarrow> SHAMapNode option list \<Rightarrow> (SHAMapNode \<times> SHAMapNode) list" where
  "pushed_pairs sha ours other = rev (List.map_filter (child_pair sha ours other) [0..<16])"

lemma sum_size_children:
  "sum_list (map (\<lambda>i. case getChild cs i of None \<Rightarrow> 0 | Some c \<Rightarrow> Suc (size c)) [0..<n])
     \<le> size_list (size_option size) cs"
proof (induction cs arbitrary: n)
  case (Cons c cs)
  show ?case
  proof (cases n)
    case (Suc k)
    have "[0..<n] = 0 # map Suc [0..<k]" unfolding Suc by (metis map_Suc_upt upt_conv_Cons zero_less_Suc)
    then show ?thesis using Cons[of k] by (cases c) (auto simp: comp_def)
  qed simp
qed simp

lemma sum_size_pushed:
  "sum_list (map (Suc \<circ> size \<circ> fst) (pushed_pairs sha ours other)) \<le> size_list (size_option size) ours"
proof -
  have "sum_list (map (Suc \<circ> size \<circ> fst) (List.map_filter (child_pair sha ours other) is))
      \<le> sum_list (map (\<lambda>i. case getChild ours i of None \<Rightarrow> 0 | Some c \<Rightarrow> Suc (size c)) is)" for "is"
    by (induction "is") (auto simp: map_filter_simps child_pair_def split: option.splits)
  then show ?thesis
    unfolding pushed_pairs_def rev_map[symmetric] sum_list_rev by (rule order.trans[OF _ sum_size_children])
qed

function compare_loop ::
  "(blob \<Rightarrow> blob) \<Rightarrow> (SHAMapNode \<times> SHAMapNode) list \<Rightarrow> Delta \<times> int \<Rightarrow> delta_state" where
  "compare_loop sha [] s = (True, s)"
| "compare_loop sha ((TreeNode ours t1, TreeNode other t2) # stack) s =
     (if tag ours = tag other then
        (if idata ours \<noteq> idata other
         then go_on (note_diff (tag ours) (Some ours, Some other) s) (compare_loop sha stack)
         else compare_loop sha stack s)
      else
        go_on (note_diff (tag ours) (Some ours, None) s) (\<lambda>s.
        go_on (note_diff (tag other) (None, Some other) s) (compare_loop sha stack)))"
| "compare_loop sha ((InnerNode cs, TreeNode other t) # stack) s =
     go_on (walkBranch (InnerNode cs) (Some other) True s) (compare_loop sha stack)"
| "compare_loop sha ((TreeNode ours t, InnerNode cs) # stack) s =
     go_on (walkBranch (InnerNode cs) (Some ours) False s) (compare_loop sha stack)"
| "compare_loop sha ((InnerNode cs, InnerNode ds) # stack) s =
     go_on (compare_branches sha cs ds [0..<16] s) (compare_loop sha (pushed_pairs sha cs ds @ stack))"
  by pat_completeness auto
termination
  by (relation "measure (\<lambda>(_, st, _). sum_list (map (Suc \<circ> size \<circ> fst) st))")
    (auto simp: less_Suc_eq_le intro: le_SucI[OF sum_size_pushed])

definition sm_compare :: "(blob \<Rightarrow> blob) \<Rightarrow> SHAMap \<Rightarrow> SHAMap \<Rightarrow> int \<Rightarrow> bool \<times> Delta" where
  "sm_compare sha m otherMap maxCount =
     (if getHash sha m = getHash sha otherMap then (True, [])
      else case compare_loop sha [(smRoot m, smRoot otherMap)] ([], maxCount) of (b, d, _) \<Rightarrow> (b, d))"

end
