(* ===== verification/SHAMap_Correct.thy ===== *)
theory SHAMap_Correct
  imports SHAMap BaseUint_Correct
begin

text \<open>
  Correctness of the radix tree: the nibbles of a key, the shape invariant, and every operation
  of \<^theory_text>\<open>SHAMap\<close> against the set of items in the tree.
\<close>

section \<open>Nibbles of a key\<close>

definition nib :: "nat \<Rightarrow> blob \<Rightarrow> nat" where
  "nib d k = (let b = k ! (d div 2) in unat (if odd d then b AND 15 else drop_bit 4 b))"

definition has_prefix :: "nat list \<Rightarrow> blob \<Rightarrow> bool" where
  "has_prefix p k \<longleftrightarrow> (\<forall>i<length p. nib i k = p ! i)"

lemma selectBranch_nib: "mDepth n = int d \<Longrightarrow> selectBranch n k = nib d k"
  by (simp add: selectBranch_def nib_def)

lemma unat_low: "unat ((b::byte) AND 15) = unat b mod 16"
proof -
  have "b AND 15 = b mod 16" using take_bit_eq_mask[of 4 b] by (simp add: take_bit_eq_mod mask_eq_exp_minus_1)
  then show ?thesis by (simp add: unat_mod_distrib)
qed

lemma unat_high: "unat (drop_bit 4 (b::byte)) = unat b div 16"
  by (simp add: drop_bit_eq_div unat_div_distrib)

lemma nib_less [simp]: "nib d k < 16"
proof -
  have "unat (k ! (d div 2)) < 256" by (rule order.strict_trans2[OF unsigned_less]) simp
  then have "unat (k ! (d div 2)) div 16 < 16" by simp
  then show ?thesis by (simp add: nib_def Let_def unat_low unat_high)
qed

lemma nib_byte: "unat (k ! i) = 16 * nib (2 * i) k + nib (2 * i + 1) k"
  by (simp add: nib_def Let_def unat_low unat_high)

lemma nib_ext:
  assumes "length a = 32" "length b = 32" "\<And>d. d < 64 \<Longrightarrow> nib d a = nib d b"
  shows "a = b"
proof (rule nth_equalityI)
  fix i assume "i < length a"
  then have "unat (a ! i) = unat (b ! i)" using assms by (simp add: nib_byte del: One_nat_def)
  then show "a ! i = b ! i" by (simp add: word_unat_eq_iff)
qed (simp add: assms)

lemma has_prefix_snoc: "has_prefix (p @ [b]) k \<longleftrightarrow> has_prefix p k \<and> nib (length p) k = b"
  by (auto simp: has_prefix_def nth_append less_Suc_eq)

lemma has_prefix_Nil [simp]: "has_prefix [] k"
  by (simp add: has_prefix_def)

text \<open>The order of keys is the order of the first nibble that differs.\<close>

lemma bu_less_nth:
  assumes "length a = length b" "j < length a" "\<And>i. i < j \<Longrightarrow> a ! i = b ! i" "a ! j < b ! j"
  shows "bu_less a b"
  using assms
proof (induction a b arbitrary: j rule: bu_compare.induct)
  case (1 x xs y ys)
  show ?case
  proof (cases j)
    case 0
    then show ?thesis using 1 by (auto simp: bu_less_def)
  next
    case (Suc n)
    then have "x = y" "\<And>i. i < n \<Longrightarrow> xs ! i = ys ! i" using 1(4)[of 0] 1(4)[of "Suc i" for i] by auto
    then show ?thesis using 1(1)[of n] 1(2,3,5) Suc by (simp add: bu_less_def)
  qed
qed auto

lemma nib_order:
  assumes "length a = 32" "length b = 32" "d < 64" "\<And>i. i < d \<Longrightarrow> nib i a = nib i b" "nib d a < nib d b"
  shows "bu_less a b"
proof (rule bu_less_nth)
  let ?j = "d div 2"
  show "a ! i = b ! i" if "i < ?j" for i
  proof -
    have "2 * i + 1 < d" using that by linarith
    then have "unat (a ! i) = unat (b ! i)" using assms(4)[of "2 * i"] assms(4)[of "2 * i + 1"] by (simp add: nib_byte)
    then show ?thesis by (simp add: word_unat_eq_iff)
  qed
  show "a ! ?j < b ! ?j"
  proof (cases "even d")
    case True
    then have "nib (2 * ?j) a < nib (2 * ?j) b" using assms(5) by simp
    then have "unat (a ! ?j) < unat (b ! ?j)"
      using nib_byte[of a ?j] nib_byte[of b ?j] nib_less[of "2 * ?j + 1" a] by linarith
    then show ?thesis by (simp add: word_less_nat_alt)
  next
    case False
    then have "nib (2 * ?j) a = nib (2 * ?j) b" "nib (2 * ?j + 1) a < nib (2 * ?j + 1) b"
      using assms(4)[of "2 * ?j"] assms(5) by (auto elim!: oddE)
    then have "unat (a ! ?j) < unat (b ! ?j)" using nib_byte[of a ?j] nib_byte[of b ?j] by linarith
    then show ?thesis by (simp add: word_less_nat_alt)
  qed
qed (use assms in auto)

section \<open>Contents\<close>

fun leaves :: "SHAMapNode \<Rightarrow> SHAMapItem list" where
  "leaves (TreeNode it ty) = [it]"
| "leaves (InnerNode cs) = concat (map (\<lambda>c. case c of None \<Rightarrow> [] | Some n \<Rightarrow> leaves n) cs)"

abbreviation items :: "SHAMapNode \<Rightarrow> SHAMapItem set" where
  "items n \<equiv> set (leaves n)"

definition child_items :: "SHAMapNode option \<Rightarrow> SHAMapItem set" where
  "child_items c = (case c of None \<Rightarrow> {} | Some n \<Rightarrow> items n)"

lemma child_items_simps [simp]: "child_items None = {}" "child_items (Some n) = items n"
  by (simp_all add: child_items_def)

declare leaves.simps(2) [simp del]

lemma items_inner: "items (InnerNode cs) = (\<Union>i<length cs. child_items (getChild cs i))"
proof -
  have "items (InnerNode cs) = (\<Union>c\<in>set cs. child_items c)"
    by (auto simp: leaves.simps(2) child_items_def split: option.splits)
  also have "set cs = (\<lambda>i. getChild cs i) ` {..<length cs}"
    by (auto simp: getChild_def set_conv_nth)
  finally show ?thesis by simp
qed

lemma getChild_setChild:
  "b < length cs \<Longrightarrow> getChild (setChild cs b c) i = (if i = b then c else getChild cs i)"
  by (simp add: getChild_def setChild_def)

lemma length_setChild [simp]: "length (setChild cs b c) = length cs"
  by (simp add: setChild_def)

section \<open>The shape invariant\<close>

text \<open>
  All leaves have one type and lie under the prefix of their keys; an inner node below
  the root holds at least two items.
\<close>

definition item_ok :: "SHAMapItem \<Rightarrow> bool" where
  "item_ok it \<longleftrightarrow> length (tag it) = 32 \<and> 12 \<le> length (idata it)"

inductive node_ok :: "TNType \<Rightarrow> nat list \<Rightarrow> SHAMapNode \<Rightarrow> bool" for ty where
  leaf: "item_ok it \<Longrightarrow> has_prefix p (tag it) \<Longrightarrow> node_ok ty p (TreeNode it ty)"
| inner: "length cs = 16 \<Longrightarrow> length p < 64 \<Longrightarrow> \<forall>i c. getChild cs i = Some c \<longrightarrow> node_ok ty (p @ [i]) c \<Longrightarrow>
    2 \<le> card (items (InnerNode cs)) \<Longrightarrow> node_ok ty p (InnerNode cs)"

inductive_simps node_ok_leaf: "node_ok ty p (TreeNode it ty')"
inductive_simps node_ok_inner: "node_ok ty p (InnerNode cs)"

definition kids_ok :: "TNType \<Rightarrow> nat list \<Rightarrow> SHAMapNode option list \<Rightarrow> bool" where
  "kids_ok ty p cs \<longleftrightarrow> length cs = 16 \<and> length p < 64 \<and>
     (\<forall>i c. getChild cs i = Some c \<longrightarrow> node_ok ty (p @ [i]) c)"

definition map_ok :: "TNType \<Rightarrow> SHAMap \<Rightarrow> bool" where
  "map_ok ty m \<longleftrightarrow> (\<exists>cs. smRoot m = InnerNode cs \<and> kids_ok ty [] cs)"

lemma node_ok_inner_iff:
  "node_ok ty p (InnerNode cs) \<longleftrightarrow> kids_ok ty p cs \<and> 2 \<le> card (items (InnerNode cs))"
  unfolding node_ok_inner kids_ok_def by blast

lemma kids_ok_child:
  assumes "kids_ok ty p cs" "getChild cs i = Some c"
  shows "node_ok ty (p @ [i]) c" "i < 16"
  using assms by (auto simp: kids_ok_def getChild_def split: if_splits)

lemma kids_ok_setChild:
  assumes "kids_ok ty p cs" "b < 16" "\<And>n. c = Some n \<Longrightarrow> node_ok ty (p @ [b]) n"
  shows "kids_ok ty p (setChild cs b c)"
  using assms by (auto simp: kids_ok_def getChild_setChild split: if_splits)

lemma kids_ok_newInner: "length p < 64 \<Longrightarrow> kids_ok ty p newInner"
  by (simp add: kids_ok_def newInner_def getChild_def)

lemma items_newInner [simp]: "items (InnerNode newInner) = {}"
  by (auto simp: items_inner newInner_def getChild_def)

lemma node_ok_items: "node_ok ty p n \<Longrightarrow> it \<in> items n \<Longrightarrow> item_ok it \<and> has_prefix p (tag it)"
proof (induction rule: node_ok.induct)
  case (inner cs p)
  then obtain i c where "getChild cs i = Some c" "it \<in> items c"
    unfolding items_inner by (auto simp: child_items_def split: option.splits)
  then show ?case using inner.IH by (auto simp: has_prefix_snoc)
qed simp

lemma kids_ok_items:
  assumes "kids_ok ty p cs" "it \<in> child_items (getChild cs i)"
  shows "item_ok it" "has_prefix p (tag it)" "nib (length p) (tag it) = i"
proof -
  obtain c where c: "getChild cs i = Some c" "it \<in> items c"
    using assms(2) by (auto simp: child_items_def split: option.splits)
  from node_ok_items[OF kids_ok_child(1)[OF assms(1) c(1)] c(2)]
  show "item_ok it" "has_prefix p (tag it)" "nib (length p) (tag it) = i" by (auto simp: has_prefix_snoc)
qed

lemma child_items_nib:
  assumes "kids_ok ty p cs"
  shows "child_items (getChild cs i) = {it \<in> items (InnerNode cs). nib (length p) (tag it) = i}"
proof (cases "i < 16")
  case True
  then show ?thesis using assms kids_ok_items[OF assms] by (auto simp: items_inner kids_ok_def)
next
  case False
  then have "getChild cs i = None" using assms by (simp add: kids_ok_def getChild_def)
  then show ?thesis using False nib_less by auto
qed

lemma items_setChild:
  assumes "kids_ok ty p cs" "b < 16"
  shows "items (InnerNode (setChild cs b c)) =
    {it \<in> items (InnerNode cs). nib (length p) (tag it) \<noteq> b} \<union> child_items c"
proof -
  have "items (InnerNode (setChild cs b c)) =
      (\<Union>i\<in>{..<16} - {b}. child_items (getChild cs i)) \<union> child_items c"
    using assms by (auto simp: items_inner kids_ok_def getChild_setChild split: if_splits)
  also have "(\<Union>i\<in>{..<16} - {b}. child_items (getChild cs i)) =
      {it \<in> items (InnerNode cs). nib (length p) (tag it) \<noteq> b}"
    unfolding child_items_nib[OF assms(1)] by auto
  finally show ?thesis .
qed

lemma node_ok_nonempty: "node_ok ty p n \<Longrightarrow> items n \<noteq> {}"
  by (induction rule: node_ok.induct) auto

section \<open>Lookup\<close>

lemma kids_key:
  assumes "kids_ok ty p cs"
  shows "{it \<in> items (InnerNode cs). tag it = k} = {it \<in> child_items (getChild cs (nib (length p) k)). tag it = k}"
  unfolding child_items_nib[OF assms] by auto

lemma node_ok_tag_inj: "node_ok ty p n \<Longrightarrow> inj_on tag (items n)"
proof (induction rule: node_ok.induct)
  case (inner cs p)
  have k: "kids_ok ty p cs" using inner by (auto simp: kids_ok_def)
  show ?case
  proof (rule inj_onI)
    fix x y assume xy: "x \<in> items (InnerNode cs)" "y \<in> items (InnerNode cs)" "tag x = tag y"
    let ?c = "getChild cs (nib (length p) (tag y))"
    have "x \<in> child_items ?c" "y \<in> child_items ?c" unfolding child_items_nib[OF k] using xy by auto
    then show "x = y" using inner.IH xy(3) by (auto simp: child_items_def inj_on_def split: option.splits)
  qed
qed simp

lemma kids_ok_tag_inj:
  assumes "kids_ok ty p cs"
  shows "inj_on tag (items (InnerNode cs))"
proof (rule inj_onI)
  fix x y assume xy: "x \<in> items (InnerNode cs)" "y \<in> items (InnerNode cs)" "tag x = tag y"
  let ?i = "nib (length p) (tag y)"
  have c: "x \<in> child_items (getChild cs ?i)" "y \<in> child_items (getChild cs ?i)"
    unfolding child_items_nib[OF assms] using xy by auto
  then obtain n where n: "getChild cs ?i = Some n" by (auto simp: child_items_def split: option.splits)
  show "x = y" using node_ok_tag_inj[OF kids_ok_child(1)[OF assms n]] c xy(3) by (auto simp: n inj_on_def)
qed

lemma walk_lookup:
  assumes "node_ok ty p n" "has_prefix p k" "mDepth nid = int (length p)"
  shows "case fst (walkTowards k n nid stk) of
      None \<Rightarrow> {it \<in> items n. tag it = k} = {}
    | Some (it, t) \<Rightarrow> t = ty \<and> it \<in> items n \<and> {it' \<in> items n. tag it' = k} = (if tag it = k then {it} else {})"
  using assms
proof (induction n arbitrary: p nid stk rule: node_induct)
  case (InnerNode cs)
  let ?b = "nib (length p) k"
  have k: "kids_ok ty p cs" using InnerNode.prems by (simp add: node_ok_inner_iff)
  have s: "selectBranch nid k = ?b" using InnerNode.prems by (simp add: selectBranch_nib)
  show ?case
  proof (cases "getChild cs ?b")
    case None
    then show ?thesis using kids_key[OF k] by (simp add: s)
  next
    case (Some c)
    have "items c \<subseteq> items (InnerNode cs)" using child_items_nib[OF k, of ?b] Some by auto
    then show ?thesis
      using InnerNode.IH[of c "p @ [?b]" "getChildNodeID nid ?b" "(InnerNode cs, nid) # stk"] kids_key[OF k, of k]
        kids_ok_child(1)[OF k Some] InnerNode.prems Some getChild_mem
      by (auto simp: s has_prefix_snoc split: option.splits)
  qed
qed (auto simp: node_ok_leaf)

lemma walk_inner:
  assumes "mDepth nid = int (length p)"
  shows "walkTowards k (InnerNode cs) nid stk =
    (case getChild cs (nib (length p) k) of
       None \<Rightarrow> (None, (InnerNode cs, nid) # stk)
     | Some c \<Rightarrow> walkTowards k c (getChildNodeID nid (nib (length p) k)) ((InnerNode cs, nid) # stk))"
  using assms by (simp add: selectBranch_nib Let_def)

lemma rootID_simps [simp]: "mDepth rootID = 0" "selectBranch rootID k = nib 0 k"
  by (simp_all add: rootID_def selectBranch_nib[of _ 0])

lemma findKey_iff:
  assumes "map_ok ty m"
  shows "findKey k m = Some (it, t) \<longleftrightarrow> it \<in> items (smRoot m) \<and> tag it = k \<and> t = ty"
proof -
  obtain cs where cs: "smRoot m = InnerNode cs" "kids_ok ty [] cs" using assms by (auto simp: map_ok_def)
  define S where "S = {it \<in> items (InnerNode cs). tag it = k}"
  let ?b = "nib 0 k"
  have key: "S = {it \<in> child_items (getChild cs ?b). tag it = k}" using kids_key[OF cs(2), of k] by (simp add: S_def)
  define r where "r = fst (walkTowards k (InnerNode cs) rootID [])"
  have r: "case r of None \<Rightarrow> S = {} | Some (it, t) \<Rightarrow> t = ty \<and> S = (if tag it = k then {it} else {})"
  proof (cases "getChild cs ?b")
    case None
    then show ?thesis by (simp add: key r_def)
  next
    case (Some c)
    have "node_ok ty [?b] c" using kids_ok_child(1)[OF cs(2) Some] by simp
    note w = walk_lookup[OF this, of k "getChildNodeID rootID ?b" "[(InnerNode cs, rootID)]"]
    have "fst (walkTowards k c (getChildNodeID rootID ?b) [(InnerNode cs, rootID)]) = r" by (simp add: r_def Some)
    from w[unfolded this] show ?thesis unfolding key Some by (cases r) (auto simp: has_prefix_def)
  qed
  have f: "findKey k m = (case r of None \<Rightarrow> None | Some (it, ty) \<Rightarrow> if tag it \<noteq> k then None else Some (it, ty))"
    by (simp add: findKey_def walkTowardsKey_def cs(1) r_def)
  have "findKey k m = Some (it, t) \<longleftrightarrow> it \<in> S \<and> t = ty"
  proof (cases r)
    case (Some x)
    then show ?thesis using r unfolding f by (cases x) (auto split: if_splits)
  qed (use r f in simp)
  then show ?thesis by (simp add: S_def cs(1))
qed


section \<open>Key order\<close>

abbreviation by_key :: "SHAMapItem \<Rightarrow> SHAMapItem \<Rightarrow> bool" where
  "by_key x y \<equiv> bu_less (tag x) (tag y)"

lemma sorted_wrt_concat:
  assumes "\<And>xs. xs \<in> set xss \<Longrightarrow> sorted_wrt P xs"
    and "sorted_wrt (\<lambda>xs ys. \<forall>x\<in>set xs. \<forall>y\<in>set ys. P x y) xss"
  shows "sorted_wrt P (concat xss)"
  using assms by (induction xss) (auto simp: sorted_wrt_append)

lemma bu_compare_self [simp]: "bu_compare k k = 0"
  by (induction k) auto

lemma not_bu_less_self [simp]: "\<not> bu_less k k"
  by (simp add: bu_less_def)

lemma kids_by_key:
  assumes "kids_ok ty p cs" "x \<in> child_items (getChild cs i)" "y \<in> child_items (getChild cs j)" "i < j"
  shows "by_key x y"
  using kids_ok_items[OF assms(1,2)] kids_ok_items[OF assms(1,3)] assms(1,4)
  by (intro nib_order[of _ _ "length p"]) (auto simp: item_ok_def has_prefix_def kids_ok_def)

lemma leaves_inner: "leaves (InnerNode cs) = concat (map (\<lambda>c. case c of None \<Rightarrow> [] | Some n \<Rightarrow> leaves n) cs)"
  by (rule leaves.simps(2))

lemma kids_sorted:
  assumes k: "kids_ok ty p cs" and c: "\<And>i c. getChild cs i = Some c \<Longrightarrow> sorted_wrt by_key (leaves c)"
  shows "sorted_wrt by_key (leaves (InnerNode cs))"
  unfolding leaves_inner
proof (rule sorted_wrt_concat)
  fix xs assume "xs \<in> set (map (\<lambda>c. case c of None \<Rightarrow> [] | Some n \<Rightarrow> leaves n) cs)"
  then obtain i where i: "i < length cs" "xs = (case cs ! i of None \<Rightarrow> [] | Some n \<Rightarrow> leaves n)"
    by (auto simp: in_set_conv_nth)
  then show "sorted_wrt by_key xs" using c[of i] by (auto simp: getChild_def split: option.splits)
next
  have "by_key x y" if "i < j" "j < length cs" "x \<in> child_items (cs ! i)" "y \<in> child_items (cs ! j)" for i j x y
    using kids_by_key[OF k, of x i y j] that by (simp add: getChild_def)
  then show "sorted_wrt (\<lambda>xs ys. \<forall>x\<in>set xs. \<forall>y\<in>set ys. by_key x y)
      (map (\<lambda>c. case c of None \<Rightarrow> [] | Some n \<Rightarrow> leaves n) cs)"
    unfolding sorted_wrt_iff_nth_less by (fastforce simp: child_items_def split: option.splits)
qed

lemma node_sorted: "node_ok ty p n \<Longrightarrow> sorted_wrt by_key (leaves n)"
proof (induction rule: node_ok.induct)
  case (inner cs p)
  then show ?case by (intro kids_sorted[of ty p]) (auto simp: kids_ok_def)
qed simp

lemma map_sorted: "map_ok ty m \<Longrightarrow> sorted_wrt by_key (leaves (smRoot m))"
  unfolding map_ok_def by (metis kids_sorted node_sorted kids_ok_child(1))

lemma sorted_by_key_distinct: "sorted_wrt by_key xs \<Longrightarrow> distinct xs"
  by (induction xs) auto

section \<open>Insertion\<close>

declare walkTowards.simps(2) [simp del]

lemma prefix_lt_64:
  assumes "length a = 32" "length b = 32" "a \<noteq> b" "has_prefix p a" "has_prefix p b"
  shows "length p < 64"
proof (rule ccontr)
  assume "\<not> length p < 64"
  then have "nib d a = nib d b" if "d < 64" for d using assms(4,5) that by (simp add: has_prefix_def)
  then show False using nib_ext assms(1-3) by blast
qed

lemma card_two: "tag a \<noteq> tag b \<Longrightarrow> card {a, b} = 2"
  by (metis card_2_iff)

text \<open>The chain of inner nodes that parts a new item from the leaf in its place.\<close>

lemma part_keys_ok:
  assumes "item_ok it" "item_ok ot" "tag it \<noteq> tag ot" "has_prefix p (tag it)" "has_prefix p (tag ot)"
    "mDepth nid = int (length p)"
  shows "\<exists>cs. kids_ok ty p cs \<and> items (InnerNode cs) = {it, ot} \<and>
    (\<forall>stk. \<exists>b1 b2 st. part_keys (tag it) (tag ot) nid stk = Some (b1, b2, st) \<and>
       dirtyUp st (tag it) (InnerNode (setChild (setChild newInner b1 (Some (TreeNode it ty))) b2 (Some (TreeNode ot ty))))
       = dirtyUp stk (tag it) (InnerNode cs))"
  using assms
proof (induction "64 - length p" arbitrary: p nid rule: less_induct)
  case less
  have p: "length p < 64" using prefix_lt_64[of "tag it" "tag ot" p] less.prems by (simp add: item_ok_def)
  let ?b1 = "nib (length p) (tag it)" and ?b2 = "nib (length p) (tag ot)"
  have unf: "part_keys (tag it) (tag ot) nid stk =
      (if ?b1 = ?b2 then part_keys (tag it) (tag ot) (getChildNodeID nid ?b1) ((InnerNode newInner, nid) # stk)
       else Some (?b1, ?b2, stk))" for stk
    using p less.prems(6) by (subst part_keys.simps) (simp add: selectBranch_nib Let_def)
  have new: "kids_ok ty p newInner" by (rule kids_ok_newInner[OF p])
  show ?case
  proof (cases "?b1 = ?b2")
    case True
    have "64 - length (p @ [?b1]) < 64 - length p" using p by simp
    from less.hyps[OF this, of "getChildNodeID nid ?b1"] less.prems True
    obtain cs where cs: "kids_ok ty (p @ [?b1]) cs" "items (InnerNode cs) = {it, ot}"
      and st: "\<And>stk. \<exists>b1 b2 st. part_keys (tag it) (tag ot) (getChildNodeID nid ?b1) stk = Some (b1, b2, st) \<and>
        dirtyUp st (tag it) (InnerNode (setChild (setChild newInner b1 (Some (TreeNode it ty))) b2 (Some (TreeNode ot ty))))
        = dirtyUp stk (tag it) (InnerNode cs)"
      by (auto simp: has_prefix_snoc)
    have n: "node_ok ty (p @ [?b1]) (InnerNode cs)"
      unfolding node_ok_inner_iff using cs card_two[OF less.prems(3)] by simp
    let ?cs = "setChild newInner ?b1 (Some (InnerNode cs))"
    have "kids_ok ty p ?cs" using new n by (intro kids_ok_setChild) auto
    moreover have "items (InnerNode ?cs) = {it, ot}" using items_setChild[OF new nib_less] cs(2) by simp
    moreover have "\<exists>b1 b2 st. part_keys (tag it) (tag ot) nid stk = Some (b1, b2, st) \<and>
        dirtyUp st (tag it) (InnerNode (setChild (setChild newInner b1 (Some (TreeNode it ty))) b2 (Some (TreeNode ot ty))))
        = dirtyUp stk (tag it) (InnerNode ?cs)" for stk
      using st[of "(InnerNode newInner, nid) # stk"] True less.prems(6) by (simp add: unf selectBranch_nib)
    ultimately show ?thesis by blast
  next
    case False
    let ?cs1 = "setChild newInner ?b1 (Some (TreeNode it ty))"
    let ?cs = "setChild ?cs1 ?b2 (Some (TreeNode ot ty))"
    have 1: "kids_ok ty p ?cs1" using new less.prems by (intro kids_ok_setChild) (auto simp: node_ok_leaf has_prefix_snoc)
    have 2: "kids_ok ty p ?cs" using less.prems by (intro kids_ok_setChild[OF 1]) (auto simp: node_ok_leaf has_prefix_snoc)
    have "items (InnerNode ?cs) = {it, ot}"
      using items_setChild[OF 1 nib_less] items_setChild[OF new nib_less] False by auto
    then show ?thesis using 2 False unf by (intro exI[of _ ?cs]) auto
  qed
qed

text \<open>What \<^const>\<open>addGiveItem\<close> does with the stack of the walk when the key is new.\<close>

definition add_tail :: "SHAMapItem \<Rightarrow> TNType \<Rightarrow> node_stack \<Rightarrow> SHAMapNode option" where
  "add_tail item type st =
     (case st of
        [] \<Rightarrow> None
      | (InnerNode cs, nodeID) # stack \<Rightarrow>
          (let branch = selectBranch nodeID (tag item)
           in if \<not> isEmptyBranch cs branch then None
              else do { newNode \<leftarrow> mkTreeNode item type;
                        dirtyUp stack (tag item) (InnerNode (setChild cs branch (Some newNode))) })
      | (TreeNode otherItem _, nodeID) # stack \<Rightarrow>
          (if tag otherItem = tag item then None
           else do { (b1, b2, stack) \<leftarrow> part_keys (tag item) (tag otherItem) nodeID stack;
                     newNode \<leftarrow> mkTreeNode item type;
                     otherNode \<leftarrow> mkTreeNode otherItem type;
                     dirtyUp stack (tag item)
                       (InnerNode (setChild (setChild newInner b1 (Some newNode)) b2 (Some otherNode))) }))"

lemma addGiveItem_tail:
  assumes "add_tail item (node_type isT hasM) (snd (walkTowardsKey (tag item) m)) = Some r" "smState m \<noteq> Immutable"
  shows "addGiveItem item isT hasM m = Some (True, m\<lparr>smRoot := r\<rparr>)"
  using assms unfolding add_tail_def addGiveItem_def
  by (auto simp: Let_def bind_eq_Some_conv split: list.splits SHAMapNode.splits if_splits)

lemma mkTreeNode_ok: "item_ok it \<Longrightarrow> mkTreeNode it ty = Some (TreeNode it ty)"
  by (simp add: mkTreeNode_def item_ok_def)

lemma add_kids:
  assumes k: "kids_ok ty p cs" and it: "item_ok it" "has_prefix p (tag it)" and nid: "mDepth nid = int (length p)"
    and new: "tag it \<notin> tag ` items (InnerNode cs)"
    and IH: "\<And>c. getChild cs (nib (length p) (tag it)) = Some c \<Longrightarrow> tag it \<notin> tag ` items c \<Longrightarrow>
      \<exists>c'. node_ok ty (p @ [nib (length p) (tag it)]) c' \<and> items c' = insert it (items c) \<and>
        (\<forall>stk. add_tail it ty (snd (walkTowards (tag it) c (getChildNodeID nid (nib (length p) (tag it))) stk)) = dirtyUp stk (tag it) c')"
  shows "\<exists>cs'. kids_ok ty p cs' \<and> items (InnerNode cs') = insert it (items (InnerNode cs)) \<and>
    (\<forall>stk. add_tail it ty (snd (walkTowards (tag it) (InnerNode cs) nid stk)) = dirtyUp stk (tag it) (InnerNode cs'))"
proof -
  let ?b = "nib (length p) (tag it)"
  note ci = child_items_nib[OF k, of ?b]
  obtain c' where c': "node_ok ty (p @ [?b]) c'" "items c' = insert it (child_items (getChild cs ?b))"
    and w: "\<And>stk. add_tail it ty (snd (walkTowards (tag it) (InnerNode cs) nid stk))
      = dirtyUp stk (tag it) (InnerNode (setChild cs ?b (Some c')))"
  proof (cases "getChild cs ?b")
    case None
    show thesis
    proof (rule that)
      show "node_ok ty (p @ [?b]) (TreeNode it ty)" using it by (simp add: node_ok_leaf has_prefix_snoc)
    qed (use nid None it in \<open>simp_all add: walk_inner add_tail_def selectBranch_nib isEmptyBranch_def mkTreeNode_ok\<close>)
  next
    case (Some c)
    have "tag it \<notin> tag ` items c" using new ci Some by auto
    from IH[OF Some this] obtain c' where "node_ok ty (p @ [?b]) c'" "items c' = insert it (items c)"
      "\<And>stk. add_tail it ty (snd (walkTowards (tag it) c (getChildNodeID nid ?b) stk)) = dirtyUp stk (tag it) c'" by blast
    then show thesis using that[of c'] nid Some by (simp add: walk_inner selectBranch_nib)
  qed
  have "kids_ok ty p (setChild cs ?b (Some c'))" using c' by (intro kids_ok_setChild[OF k]) auto
  moreover have "items (InnerNode (setChild cs ?b (Some c'))) = insert it (items (InnerNode cs))"
    unfolding items_setChild[OF k nib_less] child_items_simps c'(2) ci by auto
  ultimately show ?thesis using w by blast
qed

lemma card_insert_ge: "2 \<le> card (set xs) \<Longrightarrow> 2 \<le> card (insert x (set xs))"
  by (meson card_insert_le finite_set order.trans)

lemma add_node:
  assumes "node_ok ty p n" "item_ok it" "has_prefix p (tag it)" "mDepth nid = int (length p)" "tag it \<notin> tag ` items n"
  shows "\<exists>n'. node_ok ty p n' \<and> items n' = insert it (items n) \<and>
    (\<forall>stk. add_tail it ty (snd (walkTowards (tag it) n nid stk)) = dirtyUp stk (tag it) n')"
  using assms
proof (induction n arbitrary: p nid rule: node_induct)
  case (TreeNode ot t)
  then have ot: "item_ok ot" "has_prefix p (tag ot)" "tag it \<noteq> tag ot" by (auto simp: node_ok_leaf)
  from part_keys_ok[OF TreeNode.prems(2) ot(1,3) TreeNode.prems(3) ot(2) TreeNode.prems(4), of ty]
  obtain cs where cs: "kids_ok ty p cs" "items (InnerNode cs) = {it, ot}"
    and w: "\<And>stk. \<exists>b1 b2 st. part_keys (tag it) (tag ot) nid stk = Some (b1, b2, st) \<and>
       dirtyUp st (tag it) (InnerNode (setChild (setChild newInner b1 (Some (TreeNode it ty))) b2 (Some (TreeNode ot ty))))
       = dirtyUp stk (tag it) (InnerNode cs)" by blast
  have "add_tail it ty (snd (walkTowards (tag it) (TreeNode ot t) nid stk)) = dirtyUp stk (tag it) (InnerNode cs)" for stk
    using w[of stk] ot TreeNode.prems(2) by (auto simp: add_tail_def mkTreeNode_ok)
  moreover have "node_ok ty p (InnerNode cs)" using cs card_two[OF ot(3)] by (simp add: node_ok_inner_iff)
  ultimately show ?case using cs(2) by (intro exI[of _ "InnerNode cs"]) simp
next
  case (InnerNode cs)
  then have k: "kids_ok ty p cs" and c2: "2 \<le> card (items (InnerNode cs))" by (simp_all add: node_ok_inner_iff)
  let ?b = "nib (length p) (tag it)"
  have "\<exists>cs'. kids_ok ty p cs' \<and> items (InnerNode cs') = insert it (items (InnerNode cs)) \<and>
    (\<forall>stk. add_tail it ty (snd (walkTowards (tag it) (InnerNode cs) nid stk)) = dirtyUp stk (tag it) (InnerNode cs'))"
    using InnerNode.prems kids_ok_child(1)[OF k]
    by (intro add_kids[OF k] InnerNode.IH) (auto simp: has_prefix_snoc getChild_mem)
  then show ?case using card_insert_ge[OF c2, of it] by (metis node_ok_inner_iff)
qed

lemma addGiveItem_new:
  assumes "map_ok (node_type isT hasM) m" "smState m \<noteq> Immutable" "item_ok it" "tag it \<notin> tag ` items (smRoot m)"
  shows "\<exists>m'. addGiveItem it isT hasM m = Some (True, m') \<and> map_ok (node_type isT hasM) m' \<and>
    items (smRoot m') = insert it (items (smRoot m)) \<and> smState m' = smState m"
proof -
  let ?ty = "node_type isT hasM"
  obtain cs where cs: "smRoot m = InnerNode cs" "kids_ok ?ty [] cs" using assms by (auto simp: map_ok_def)
  have "\<exists>cs'. kids_ok ?ty [] cs' \<and> items (InnerNode cs') = insert it (items (InnerNode cs)) \<and>
    (\<forall>stk. add_tail it ?ty (snd (walkTowards (tag it) (InnerNode cs) rootID stk)) = dirtyUp stk (tag it) (InnerNode cs'))"
    using assms(3,4) cs kids_ok_child(1)[OF cs(2)]
    by (intro add_kids[OF cs(2)] add_node) (auto simp: has_prefix_snoc has_prefix_def)
  then obtain cs' where cs': "kids_ok ?ty [] cs'" "items (InnerNode cs') = insert it (items (InnerNode cs))"
    "add_tail it ?ty (snd (walkTowardsKey (tag it) m)) = Some (InnerNode cs')"
    by (auto simp: walkTowardsKey_def cs(1))
  then show ?thesis using addGiveItem_tail[OF cs'(3) assms(2)] cs(1) by (auto simp: map_ok_def)
qed

section \<open>Deletion\<close>

lemma leaves_branches: "leaves (InnerNode cs) = concat (map leaves (branches cs))"
  unfolding leaves_inner by (induction cs) (auto simp: branches_def map_filter_simps split: option.splits)

lemma length_branches:
  assumes "length cs = 16"
  shows "getBranchCount cs = length (branches cs)"
proof -
  have "getBranchCount cs = card {i. i < 16 \<and> cs ! i \<noteq> None}"
    unfolding getBranchCount_def length_filter_conv_card
    by (intro arg_cong[of _ _ card] Collect_cong) (auto simp: isEmptyBranch_def getChild_def assms)
  also have "\<dots> = length (filter (\<lambda>c. c \<noteq> None) cs)" unfolding length_filter_conv_card assms by simp
  also have "\<dots> = length (branches cs)" by (simp add: branches_def List.map_filter_def)
  finally show ?thesis .
qed

lemma branches_ok:
  assumes "kids_ok ty p cs" "c \<in> set (branches cs)"
  shows "\<exists>i<16. getChild cs i = Some c \<and> node_ok ty (p @ [i]) c"
proof -
  have "Some c \<in> set cs" using assms(2) by (simp add: branches_mem)
  then obtain i where "i < length cs" "cs ! i = Some c" by (auto simp: in_set_conv_nth)
  then show ?thesis using assms(1) by (auto simp: kids_ok_def getChild_def)
qed

lemma onlyBelow_kids:
  assumes k: "kids_ok ty p cs"
    and IH: "\<And>c. c \<in> set (branches cs) \<Longrightarrow> onlyBelow c = Some it \<longleftrightarrow> leaves c = [it]"
  shows "onlyBelow (InnerNode cs) = Some it \<longleftrightarrow> leaves (InnerNode cs) = [it]"
proof (cases "branches cs")
  case (Cons a r)
  show ?thesis
  proof (cases r)
    case Nil
    then show ?thesis using IH[of a] Cons by (simp add: leaves_branches)
  next
    case (Cons b r')
    then have m: "a \<in> set (branches cs)" "b \<in> set (branches cs)" using \<open>branches cs = a # r\<close> by auto
    then have "leaves a \<noteq> []" "leaves b \<noteq> []" using branches_ok[OF k] node_ok_nonempty by (metis set_empty)+
    then have "2 \<le> length (leaves a) + length (leaves b)" by (cases "leaves a"; cases "leaves b") auto
    then have "length (leaves (InnerNode cs)) \<noteq> 1"
      using \<open>branches cs = a # r\<close> Cons by (simp add: leaves_branches)
    then show ?thesis using \<open>branches cs = a # r\<close> Cons by auto
  qed
qed (simp add: leaves_branches)

lemma onlyBelow_node: "node_ok ty p n \<Longrightarrow> onlyBelow n = Some it \<longleftrightarrow> leaves n = [it]"
proof (induction rule: node_ok.induct)
  case (inner cs p)
  then have k: "kids_ok ty p cs" by (auto simp: kids_ok_def)
  show ?case using onlyBelow_kids[OF k] branches_ok[OF k] inner.IH by metis
qed simp

lemma shrink_ok:
  assumes k: "kids_ok ty p cs" and ne: "items (InnerNode cs) \<noteq> {}"
  shows "\<exists>n. shrink ty cs = Some (Some n) \<and> node_ok ty p n \<and> items n = items (InnerNode cs)"
proof -
  have bc: "getBranchCount cs = length (branches cs)" using k by (auto simp: kids_ok_def intro: length_branches)
  have n0: "branches cs \<noteq> []" using ne by (auto simp: leaves_branches)
  have d: "distinct (leaves (InnerNode cs))"
    using kids_sorted[OF k] node_sorted kids_ok_child(1)[OF k] sorted_by_key_distinct by metis
  have only: "onlyBelow (InnerNode cs) = Some it \<longleftrightarrow> leaves (InnerNode cs) = [it]" for it
    using onlyBelow_kids[OF k] branches_ok[OF k] onlyBelow_node by metis
  show ?thesis
  proof (cases "\<exists>it. leaves (InnerNode cs) = [it]")
    case True
    then obtain it where it: "leaves (InnerNode cs) = [it]" by blast
    then have o: "onlyBelow (InnerNode cs) = Some it" using only by simp
    then have "length (branches cs) = 1" by (auto split: list.splits)
    moreover have "item_ok it" "has_prefix p (tag it)"
      using it kids_ok_items[OF k] k by (fastforce simp: items_inner kids_ok_def set_eq_iff dest!: arg_cong[of _ _ set])+
    ultimately show ?thesis using o it bc by (simp add: shrink_def mkTreeNode_ok node_ok_leaf)
  next
    case False
    then have "onlyBelow (InnerNode cs) = None" using only by (cases "onlyBelow (InnerNode cs)") auto
    then have s: "shrink ty cs = Some (Some (InnerNode cs))" using n0 bc by (simp add: shrink_def)
    have "2 \<le> length (leaves (InnerNode cs))"
      using False ne by (cases "leaves (InnerNode cs)"; cases "tl (leaves (InnerNode cs))") auto
    then show ?thesis using s k distinct_card[OF d] by (simp add: node_ok_inner_iff)
  qed
qed

text \<open>
  Where the key is present the walk ends at its leaf \<open>x\<close>; deleting it leaves a subtree, if any,
  that holds the other items.
\<close>

definition opt_ok :: "TNType \<Rightarrow> nat list \<Rightarrow> SHAMapNode option \<Rightarrow> bool" where
  "opt_ok ty p c \<longleftrightarrow> (\<forall>n. c = Some n \<longrightarrow> node_ok ty p n)"

definition del_walk :: "TNType \<Rightarrow> SHAMapItem \<Rightarrow> SHAMapNode \<Rightarrow> SHAMapNodeID \<Rightarrow> SHAMapNode option \<Rightarrow> bool" where
  "del_walk ty x n nid prev \<longleftrightarrow> (\<forall>stk rt. \<exists>nid' rest.
     snd (walkTowards (tag x) n nid stk) = (TreeNode x ty, nid') # rest \<and>
     delUp (tag x) ty rest None rt = delUp (tag x) ty stk prev rt)"

lemma del_kids:
  assumes k: "kids_ok ty p cs" and x: "x \<in> items (InnerNode cs)" and nid: "mDepth nid = int (length p)"
    and IH: "\<And>c. getChild cs (nib (length p) (tag x)) = Some c \<Longrightarrow> x \<in> items c \<Longrightarrow>
      \<exists>prev. opt_ok ty (p @ [nib (length p) (tag x)]) prev \<and> child_items prev = items c - {x} \<and>
        del_walk ty x c (getChildNodeID nid (nib (length p) (tag x))) prev"
  shows "\<exists>prev. kids_ok ty p (setChild cs (nib (length p) (tag x)) prev) \<and>
    items (InnerNode (setChild cs (nib (length p) (tag x)) prev)) = items (InnerNode cs) - {x} \<and>
    (\<forall>stk rt. \<exists>nid' rest. snd (walkTowards (tag x) (InnerNode cs) nid stk) = (TreeNode x ty, nid') # rest \<and>
       delUp (tag x) ty rest None rt = delUp (tag x) ty ((InnerNode cs, nid) # stk) prev rt)"
proof -
  let ?b = "nib (length p) (tag x)"
  note ci = child_items_nib[OF k, of ?b]
  have "x \<in> child_items (getChild cs ?b)" using x ci by simp
  then obtain c where c: "getChild cs ?b = Some c" "x \<in> items c" by (cases "getChild cs ?b") auto
  from IH[OF c] obtain prev where prev: "opt_ok ty (p @ [?b]) prev" "child_items prev = items c - {x}"
    "del_walk ty x c (getChildNodeID nid ?b) prev" by blast
  have "kids_ok ty p (setChild cs ?b prev)" using prev(1) by (intro kids_ok_setChild[OF k]) (auto simp: opt_ok_def)
  moreover have "items (InnerNode (setChild cs ?b prev)) = items (InnerNode cs) - {x}"
    unfolding items_setChild[OF k nib_less] prev(2) using ci c by auto
  moreover have "\<exists>nid' rest. snd (walkTowards (tag x) (InnerNode cs) nid stk) = (TreeNode x ty, nid') # rest \<and>
       delUp (tag x) ty rest None rt = delUp (tag x) ty ((InnerNode cs, nid) # stk) prev rt" for stk rt
    using prev(3) unfolding del_walk_def walk_inner[OF nid] c(1) option.case by blast
  ultimately show ?thesis by blast
qed

lemma del_node:
  assumes "node_ok ty p n" "x \<in> items n" "mDepth nid = int (length p)" "p \<noteq> []"
  shows "\<exists>prev. opt_ok ty p prev \<and> child_items prev = items n - {x} \<and> del_walk ty x n nid prev"
  using assms
proof (induction n arbitrary: p nid rule: node_induct)
  case (TreeNode it t)
  then have "del_walk ty x (TreeNode it t) nid None" by (auto simp: del_walk_def node_ok_leaf)
  then show ?case using TreeNode.prems(2) by (intro exI[of _ None]) (auto simp: opt_ok_def)
next
  case (InnerNode cs)
  then have k: "kids_ok ty p cs" and c2: "2 \<le> card (items (InnerNode cs))" by (simp_all add: node_ok_inner_iff)
  let ?b = "nib (length p) (tag x)"
  have "\<exists>prev. kids_ok ty p (setChild cs ?b prev) \<and> items (InnerNode (setChild cs ?b prev)) = items (InnerNode cs) - {x} \<and>
    (\<forall>stk rt. \<exists>nid' rest. snd (walkTowards (tag x) (InnerNode cs) nid stk) = (TreeNode x ty, nid') # rest \<and>
       delUp (tag x) ty rest None rt = delUp (tag x) ty ((InnerNode cs, nid) # stk) prev rt)"
    using InnerNode.prems kids_ok_child(1)[OF k]
    by (intro del_kids[OF k] InnerNode.IH) (auto simp: getChild_mem)
  then obtain prev where pr: "kids_ok ty p (setChild cs ?b prev)"
      "items (InnerNode (setChild cs ?b prev)) = items (InnerNode cs) - {x}"
    and w: "\<And>stk rt. \<exists>nid' rest. snd (walkTowards (tag x) (InnerNode cs) nid stk) = (TreeNode x ty, nid') # rest \<and>
       delUp (tag x) ty rest None rt = delUp (tag x) ty ((InnerNode cs, nid) # stk) prev rt" by blast
  have "items (InnerNode (setChild cs ?b prev)) \<noteq> {}"
    using c2 card_mono[of "{x}" "items (InnerNode cs)"] unfolding pr(2) by force
  from shrink_ok[OF pr(1) this] obtain n where n: "shrink ty (setChild cs ?b prev) = Some (Some n)" "node_ok ty p n"
    "items n = items (InnerNode cs) - {x}" unfolding pr(2) by blast
  have "delUp (tag x) ty ((InnerNode cs, nid) # stk) prev rt = delUp (tag x) ty stk (Some n) rt" for stk rt
    using InnerNode.prems n(1) by (simp add: selectBranch_nib nid_isRoot_def Let_def)
  then have "del_walk ty x (InnerNode cs) nid (Some n)" using w unfolding del_walk_def by simp
  then show ?case using n by (intro exI[of _ "Some n"]) (auto simp: opt_ok_def)
qed

lemma delItem_present:
  assumes "map_ok ty m" "smState m \<noteq> Immutable" "x \<in> items (smRoot m)"
  shows "\<exists>m'. delItem (tag x) m = Some (True, m') \<and> map_ok ty m' \<and>
    items (smRoot m') = items (smRoot m) - {x} \<and> smState m' = smState m"
proof -
  obtain cs where cs: "smRoot m = InnerNode cs" "kids_ok ty [] cs" using assms by (auto simp: map_ok_def)
  let ?b = "nib 0 (tag x)"
  have "\<exists>prev. kids_ok ty [] (setChild cs (nib (length ([]::nat list)) (tag x)) prev) \<and>
    items (InnerNode (setChild cs (nib (length ([]::nat list)) (tag x)) prev)) = items (InnerNode cs) - {x} \<and>
    (\<forall>stk rt. \<exists>nid' rest. snd (walkTowards (tag x) (InnerNode cs) rootID stk) = (TreeNode x ty, nid') # rest \<and>
       delUp (tag x) ty rest None rt = delUp (tag x) ty ((InnerNode cs, rootID) # stk) prev rt)"
    using assms(3) cs kids_ok_child(1)[OF cs(2)] by (intro del_kids[OF cs(2)] del_node) auto
  then obtain prev nid' rest where "kids_ok ty [] (setChild cs ?b prev)"
    "items (InnerNode (setChild cs ?b prev)) = items (InnerNode cs) - {x}"
    "snd (walkTowardsKey (tag x) m) = (TreeNode x ty, nid') # rest"
    "delUp (tag x) ty rest None (smRoot m) = delUp (tag x) ty [(InnerNode cs, rootID)] prev (smRoot m)"
    by (auto simp: walkTowardsKey_def cs(1)) blast
  then show ?thesis using assms(2) cs(1)
    by (auto simp: delItem_def nid_isRoot_def map_ok_def Let_def)
qed

section \<open>Update, and keys already or not yet there\<close>

text \<open>The top of the stack is the leaf that the walk returned, or the inner node it stopped at.\<close>

lemma walk_stack:
  "case fst (walkTowards k n nid stk) of
     None \<Rightarrow> \<exists>cs nid' rest. snd (walkTowards k n nid stk) = (InnerNode cs, nid') # rest
   | Some (it, t) \<Rightarrow> \<exists>nid' rest. snd (walkTowards k n nid stk) = (TreeNode it t, nid') # rest"
proof (induction n arbitrary: nid stk rule: node_induct)
  case (InnerNode cs)
  show ?case
  proof (cases "getChild cs (selectBranch nid k)")
    case (Some c)
    then have "walkTowards k (InnerNode cs) nid stk =
        walkTowards k c (getChildNodeID nid (selectBranch nid k)) ((InnerNode cs, nid) # stk)"
      by (simp add: walkTowards.simps(2) Let_def)
    then show ?thesis by (simp only:) (rule InnerNode.IH[OF getChild_mem[OF Some]])
  qed (simp add: walkTowards.simps(2) Let_def)
qed simp

lemma stack_absent:
  assumes "map_ok ty m" "k \<notin> tag ` items (smRoot m)"
  shows "(\<exists>cs nid rest. snd (walkTowardsKey k m) = (InnerNode cs, nid) # rest) \<or>
    (\<exists>it t nid rest. snd (walkTowardsKey k m) = (TreeNode it t, nid) # rest \<and> tag it \<noteq> k)"
proof -
  have "findKey k m = None" using findKey_iff[OF assms(1), of k] assms(2) by (metis imageI not_None_eq surj_pair)
  then show ?thesis using walk_stack[of k "smRoot m" rootID "[]"]
    by (auto simp: findKey_def walkTowardsKey_def split: option.splits if_splits)
qed

lemma stack_present:
  assumes "map_ok ty m" "x \<in> items (smRoot m)"
  shows "\<exists>nid rest. snd (walkTowardsKey (tag x) m) = (TreeNode x ty, nid) # rest"
proof -
  have "findKey (tag x) m = Some (x, ty)" using findKey_iff[OF assms(1), of "tag x" x ty] assms(2) by simp
  then show ?thesis using walk_stack[of "tag x" "smRoot m" rootID "[]"]
    by (auto simp: findKey_def walkTowardsKey_def split: option.splits if_splits)
qed

lemma addGiveItem_old:
  assumes "map_ok ty m" "smState m \<noteq> Immutable" "tag it \<in> tag ` items (smRoot m)"
  shows "addGiveItem it isT hasM m = Some (False, m)"
proof -
  obtain x where x: "x \<in> items (smRoot m)" "tag x = tag it" using assms(3) by (auto simp: image_iff)
  from stack_present[OF assms(1) x(1)] show ?thesis using assms(2) x(2) by (auto simp: addGiveItem_def)
qed

lemma delItem_absent:
  assumes "map_ok ty m" "smState m \<noteq> Immutable" "k \<notin> tag ` items (smRoot m)"
  shows "delItem k m = Some (False, m)"
  using stack_absent[OF assms(1,3)] assms(2) by (auto simp: delItem_def)

lemma updateGiveItem_absent:
  assumes "map_ok ty m" "tag it \<notin> tag ` items (smRoot m)"
  shows "updateGiveItem sha it isT hasM m = None"
  using stack_absent[OF assms] by (elim disjE exE) (simp_all add: updateGiveItem_def Let_def)

definition upd_walk :: "TNType \<Rightarrow> SHAMapItem \<Rightarrow> SHAMapItem \<Rightarrow> SHAMapNode \<Rightarrow> SHAMapNodeID \<Rightarrow> SHAMapNode \<Rightarrow> bool" where
  "upd_walk ty x it n nid n' \<longleftrightarrow> (\<forall>stk. \<exists>nid' rest.
     snd (walkTowards (tag x) n nid stk) = (TreeNode x ty, nid') # rest \<and>
     dirtyUp rest (tag x) (TreeNode it ty) = dirtyUp stk (tag x) n')"

lemma upd_kids:
  assumes k: "kids_ok ty p cs" and x: "x \<in> items (InnerNode cs)" and nid: "mDepth nid = int (length p)"
    and IH: "\<And>c. getChild cs (nib (length p) (tag x)) = Some c \<Longrightarrow> x \<in> items c \<Longrightarrow>
      \<exists>c'. node_ok ty (p @ [nib (length p) (tag x)]) c' \<and> items c' = insert it (items c - {x}) \<and>
        upd_walk ty x it c (getChildNodeID nid (nib (length p) (tag x))) c'"
  shows "\<exists>cs'. kids_ok ty p cs' \<and> items (InnerNode cs') = insert it (items (InnerNode cs) - {x}) \<and>
    upd_walk ty x it (InnerNode cs) nid (InnerNode cs')"
proof -
  let ?b = "nib (length p) (tag x)"
  note ci = child_items_nib[OF k, of ?b]
  have "x \<in> child_items (getChild cs ?b)" using x ci by simp
  then obtain c where c: "getChild cs ?b = Some c" "x \<in> items c" by (cases "getChild cs ?b") auto
  from IH[OF c] obtain c' where c': "node_ok ty (p @ [?b]) c'" "items c' = insert it (items c - {x})"
    "upd_walk ty x it c (getChildNodeID nid ?b) c'" by blast
  have "kids_ok ty p (setChild cs ?b (Some c'))" using c'(1) by (intro kids_ok_setChild[OF k]) auto
  moreover have "items (InnerNode (setChild cs ?b (Some c'))) = insert it (items (InnerNode cs) - {x})"
    unfolding items_setChild[OF k nib_less] child_items_simps c'(2) using ci c by auto
  moreover have "upd_walk ty x it (InnerNode cs) nid (InnerNode (setChild cs ?b (Some c')))"
    unfolding upd_walk_def walk_inner[OF nid] c(1) option.case
  proof (rule allI)
    fix stk
    show "\<exists>nid' rest. snd (walkTowards (tag x) c (getChildNodeID nid ?b) ((InnerNode cs, nid) # stk)) = (TreeNode x ty, nid') # rest \<and>
        dirtyUp rest (tag x) (TreeNode it ty) = dirtyUp stk (tag x) (InnerNode (setChild cs ?b (Some c')))"
      using c'(3)[unfolded upd_walk_def, THEN spec, of "(InnerNode cs, nid) # stk"] nid by (simp add: selectBranch_nib)
  qed
  ultimately show ?thesis by blast
qed

lemma upd_node:
  assumes "node_ok ty p n" "x \<in> items n" "mDepth nid = int (length p)" "item_ok it" "tag it = tag x"
  shows "\<exists>n'. node_ok ty p n' \<and> items n' = insert it (items n - {x}) \<and> upd_walk ty x it n nid n'"
  using assms
proof (induction n arbitrary: p nid rule: node_induct)
  case (TreeNode y t)
  then show ?case by (intro exI[of _ "TreeNode it ty"]) (auto simp: upd_walk_def node_ok_leaf)
next
  case (InnerNode cs)
  then have k: "kids_ok ty p cs" and c2: "2 \<le> card (items (InnerNode cs))" by (simp_all add: node_ok_inner_iff)
  have "\<exists>cs'. kids_ok ty p cs' \<and> items (InnerNode cs') = insert it (items (InnerNode cs) - {x}) \<and>
    upd_walk ty x it (InnerNode cs) nid (InnerNode cs')"
    using InnerNode.prems kids_ok_child(1)[OF k] by (intro upd_kids[OF k] InnerNode.IH) (auto simp: getChild_mem)
  moreover have "card (insert it (items (InnerNode cs) - {x})) = card (items (InnerNode cs))"
  proof -
    have "it \<notin> items (InnerNode cs) - {x}" using kids_ok_tag_inj[OF k] InnerNode.prems(2,5) by (auto simp: inj_on_def)
    then show ?thesis using card_Suc_Diff1[OF finite_set InnerNode.prems(2)] by simp
  qed
  ultimately show ?case using c2 by (metis node_ok_inner_iff)
qed

lemma updateGiveItem_present:
  assumes "map_ok (node_type isT hasM) m" "smState m \<noteq> Immutable" "x \<in> items (smRoot m)"
    "item_ok it" "tag it = tag x"
    "node_hash sha (TreeNode it (node_type isT hasM)) = node_hash sha (TreeNode x (node_type isT hasM)) \<Longrightarrow> it = x"
  shows "\<exists>m'. updateGiveItem sha it isT hasM m = Some (True, m') \<and> map_ok (node_type isT hasM) m' \<and>
    items (smRoot m') = insert it (items (smRoot m) - {x}) \<and> smState m' = smState m"
proof -
  let ?ty = "node_type isT hasM"
  obtain cs where cs: "smRoot m = InnerNode cs" "kids_ok ?ty [] cs" using assms by (auto simp: map_ok_def)
  have "\<exists>cs'. kids_ok ?ty [] cs' \<and> items (InnerNode cs') = insert it (items (InnerNode cs) - {x}) \<and>
    upd_walk ?ty x it (InnerNode cs) rootID (InnerNode cs')"
    using assms(3,4,5) cs kids_ok_child(1)[OF cs(2)] by (intro upd_kids[OF cs(2)] upd_node) auto
  then obtain cs' nid rest where cs': "kids_ok ?ty [] cs'" "items (InnerNode cs') = insert it (items (InnerNode cs) - {x})"
    "snd (walkTowardsKey (tag x) m) = (TreeNode x ?ty, nid) # rest"
    "dirtyUp rest (tag x) (TreeNode it ?ty) = Some (InnerNode cs')"
    by (fastforce simp: upd_walk_def walkTowardsKey_def cs(1))
  show ?thesis
  proof (cases "node_hash sha (TreeNode it ?ty) = node_hash sha (TreeNode x ?ty)")
    case True
    with assms(6) have "it = x" by simp
    then have "insert it (items (smRoot m) - {x}) = items (smRoot m)" using assms(3) by auto
    then show ?thesis using True cs' assms(1,2,5) by (auto simp: updateGiveItem_def)
  next
    case False
    then show ?thesis using cs' assms(2,5) cs(1) by (auto simp: updateGiveItem_def map_ok_def)
  qed
qed

end
