(* ===== verification/SHAMap_Iter.thy ===== *)
theory SHAMap_Iter
  imports SHAMap_Correct
begin

text \<open>
  Iteration over the radix tree: the stack of an iterator describes the items that are still
  to come, and \<^const>\<open>upper_bound\<close> starts at the first item above a key.
\<close>

section \<open>Branches from a position on\<close>

lemma branches_Cons: "branches (c # cs) = (case c of None \<Rightarrow> branches cs | Some n \<Rightarrow> n # branches cs)"
  by (simp add: branches_def map_filter_simps split: option.splits)

lemma branches_Nil [simp]: "branches [] = []"
  by (simp add: branches_def map_filter_simps)

lemma branches_first:
  "branches cs = c # r \<Longrightarrow> \<exists>i. getChild cs i = Some c \<and> branches (drop (Suc i) cs) = r"
proof (induction cs)
  case (Cons x xs)
  show ?case
  proof (cases x)
    case None
    then obtain i where "getChild xs i = Some c" "branches (drop (Suc i) xs) = r" using Cons by (auto simp: branches_Cons)
    then show ?thesis by (intro exI[of _ "Suc i"]) simp
  next
    case (Some n)
    then show ?thesis using Cons.prems by (intro exI[of _ 0]) (simp add: branches_Cons)
  qed
qed simp

lemma branches_drop:
  assumes "b < length cs"
  shows "branches (drop b cs) =
    (case getChild cs b of None \<Rightarrow> branches (drop (Suc b) cs) | Some c \<Rightarrow> c # branches (drop (Suc b) cs))"
  using assms by (subst Cons_nth_drop_Suc[symmetric]) (auto simp: branches_Cons getChild_def)

lemma next_branch_cases:
  assumes "length cs = 16"
  shows "case next_branch cs b of
      None \<Rightarrow> branches (drop b cs) = []
    | Some i \<Rightarrow> \<exists>c. getChild cs i = Some c \<and> b \<le> i \<and> branches (drop b cs) = c # branches (drop (Suc i) cs)"
proof (induction "16 - b" arbitrary: b)
  case 0
  then show ?case using assms by (simp add: next_branch_def)
next
  case (Suc n)
  then have b: "b < 16" by simp
  then have nb: "next_branch cs b = (if getChild cs b = None then next_branch cs (Suc b) else Some b)"
    by (simp add: next_branch_def upt_conv_Cons isEmptyBranch_def)
  show ?case
  proof (cases "getChild cs b")
    case None
    have "n = 16 - Suc b" using Suc(2) by simp
    from Suc(1)[OF this] show ?thesis using branches_drop[of b cs] None b assms nb
      by (auto split: option.splits)
  next
    case (Some c)
    then show ?thesis using branches_drop[of b cs] b assms nb by simp
  qed
qed

section \<open>Stacks of iterators\<close>

inductive path_ok :: "TNType \<Rightarrow> nat list \<Rightarrow> node_stack \<Rightarrow> bool" for ty where
  nil: "path_ok ty [] []"
| snoc: "path_ok ty p stk \<Longrightarrow> kids_ok ty p cs \<Longrightarrow> mDepth nid = int (length p) \<Longrightarrow>
    path_ok ty (p @ [b]) ((InnerNode cs, nid) # stk)"

inductive_cases path_ok_inner: "path_ok ty p ((InnerNode cs, nid) # stk)"
inductive_cases path_ok_Nil: "path_ok ty p []"

abbreviation leaves_from :: "SHAMapNode option list \<Rightarrow> nat \<Rightarrow> SHAMapItem list" where
  "leaves_from cs b \<equiv> leaves (InnerNode (drop b cs))"

fun rest_of :: "blob \<Rightarrow> node_stack \<Rightarrow> SHAMapItem list" where
  "rest_of k ((InnerNode cs, nid) # stk) = leaves_from cs (Suc (selectBranch nid k)) @ rest_of k stk"
| "rest_of k _ = []"

lemma rest_of_prefix:
  "path_ok ty p stk \<Longrightarrow> has_prefix p k \<Longrightarrow> has_prefix p k' \<Longrightarrow> rest_of k stk = rest_of k' stk"
  by (induction rule: path_ok.induct) (auto simp: has_prefix_snoc selectBranch_nib)

text \<open>A position: the stack of an iterator at the item \<open>y\<close>, with the items \<open>ys\<close> to come.\<close>

definition positioned :: "TNType \<Rightarrow> SHAMapItem \<Rightarrow> SHAMapItem list \<Rightarrow> node_stack \<Rightarrow> bool" where
  "positioned ty y ys st \<longleftrightarrow> (\<exists>nid p rest. st = (TreeNode y ty, nid) # rest \<and> path_ok ty p rest \<and>
     has_prefix p (tag y) \<and> ys = rest_of (tag y) rest)"

lemma descendFirst_ok:
  assumes "kids_ok ty p cs" "path_ok ty p stk" "mDepth nid = int (length p)" "branches cs \<noteq> []"
  shows "\<exists>y zs st. descendFirst cs ((InnerNode cs, nid) # stk) br = (Some y, st) \<and> leaves (InnerNode cs) = y # zs \<and>
    positioned ty y (zs @ rest_of (tag y) stk) st"
  using assms
proof (induction "InnerNode cs" arbitrary: cs p nid stk rule: node_induct)
  case (InnerNode cs)
  note prems = InnerNode.prems and IH = InnerNode.hyps
  obtain c r where br: "branches cs = c # r" using prems(4) by (cases "branches cs") auto
  from branches_first[OF br] obtain i where i: "getChild cs i = Some c" "branches (drop (Suc i) cs) = r" by blast
  have c: "node_ok ty (p @ [i]) c" using kids_ok_child(1)[OF prems(1) i(1)] .
  let ?stk = "(InnerNode cs, nid) # stk"
  have path: "path_ok ty (p @ [i]) ?stk" using prems by (intro path_ok.snoc)
  have lv: "leaves (InnerNode cs) = leaves c @ leaves_from cs (Suc i)" by (simp add: leaves_branches br i(2))
  have ri: "rest_of (tag y) ?stk = leaves_from cs (Suc i) @ rest_of (tag y) stk" if "has_prefix (p @ [i]) (tag y)" for y
    using that prems(3) by (simp add: has_prefix_snoc selectBranch_nib)
  show ?case
  proof (cases c)
    case (TreeNode y t)
    then have y: "t = ty" "has_prefix (p @ [i]) (tag y)" using c by (auto simp: node_ok_leaf)
    have "positioned ty y (rest_of (tag y) ?stk) ((c, leafID y) # ?stk)"
      using path y TreeNode unfolding positioned_def by blast
    then show ?thesis using lv ri[OF y(2)] TreeNode br by (simp add: descendFirst.simps[of cs])
  next
    case (InnerNode ds)
    let ?n = "getChildNodeID nid br"
    have "kids_ok ty (p @ [i]) ds" "branches ds \<noteq> []"
      using c InnerNode by (auto simp: node_ok_inner_iff leaves_branches)
    moreover have "Some (InnerNode ds) \<in> set cs" using i(1) InnerNode getChild_mem by blast
    ultimately obtain y zs st where y: "descendFirst ds ((InnerNode ds, ?n) # ?stk) br = (Some y, st)"
      "leaves (InnerNode ds) = y # zs" "positioned ty y (zs @ rest_of (tag y) ?stk) st"
      using IH[of ds "p @ [i]" ?stk ?n] path prems(3) by auto
    have "has_prefix (p @ [i]) (tag y)" using node_ok_items[OF c, of y] y(2) InnerNode by simp
    then show ?thesis using y lv ri[of y] InnerNode br by (simp add: descendFirst.simps[of cs])
  qed
qed

text \<open>\<^const>\<open>firstBelow\<close> on the child of the node on top of the stack.\<close>

lemma firstBelow_ok:
  assumes c: "node_ok ty (p @ [i]) c" and path: "path_ok ty (p @ [i]) ((InnerNode cs, nid) # stk)"
    and nid: "mDepth nid = int (length p)"
  shows "\<exists>y zs st. firstBelow c ((InnerNode cs, nid) # stk) br = (Some y, st) \<and> leaves c = y # zs \<and>
    has_prefix (p @ [i]) (tag y) \<and> positioned ty y (zs @ rest_of (tag y) ((InnerNode cs, nid) # stk)) st"
proof (cases c)
  case (TreeNode y t)
  then have "t = ty" "has_prefix (p @ [i]) (tag y)" using c by (auto simp: node_ok_leaf)
  then show ?thesis using path TreeNode by (auto simp: firstBelow_def positioned_def)
next
  case (InnerNode ds)
  let ?n = "getChildNodeID nid br"
  have "kids_ok ty (p @ [i]) ds" "branches ds \<noteq> []"
    using c InnerNode by (auto simp: node_ok_inner_iff leaves_branches)
  from descendFirst_ok[OF this(1) path _ this(2), of ?n br] nid
  obtain y zs st where y: "descendFirst ds ((InnerNode ds, ?n) # (InnerNode cs, nid) # stk) br = (Some y, st)"
    "leaves (InnerNode ds) = y # zs" "positioned ty y (zs @ rest_of (tag y) ((InnerNode cs, nid) # stk)) st" by auto
  moreover have "has_prefix (p @ [i]) (tag y)" using node_ok_items[OF c, of y] y(2) InnerNode by simp
  ultimately show ?thesis using InnerNode by (simp add: firstBelow_def)
qed

lemma firstAfter_ok:
  assumes k: "kids_ok ty p cs" and path: "path_ok ty p stk" and nid: "mDepth nid = int (length p)" and kp: "has_prefix p k"
  shows "if leaves_from cs b = [] then firstAfter cs b ((InnerNode cs, nid) # stk) = Some None
    else \<exists>y ys st. firstAfter cs b ((InnerNode cs, nid) # stk) = Some (Some (y, st)) \<and>
      leaves_from cs b = y # ys \<and> positioned ty y (ys @ rest_of k stk) st"
proof -
  have len: "length cs = 16" using k by (simp add: kids_ok_def)
  show ?thesis
  proof (cases "next_branch cs b")
    case None
    then have "branches (drop b cs) = []" using next_branch_cases[OF len, of b] by simp
    then show ?thesis using None by (simp add: firstAfter_def leaves_branches)
  next
    case (Some i)
    then obtain c where c: "getChild cs i = Some c" "branches (drop b cs) = c # branches (drop (Suc i) cs)"
      using next_branch_cases[OF len, of b] by auto
    have path': "path_ok ty (p @ [i]) ((InnerNode cs, nid) # stk)" using path k nid by (rule path_ok.snoc)
    from firstBelow_ok[OF kids_ok_child(1)[OF k c(1)] path' nid, of i]
    obtain y zs st where y: "firstBelow c ((InnerNode cs, nid) # stk) i = (Some y, st)" "leaves c = y # zs"
      "has_prefix (p @ [i]) (tag y)" "positioned ty y (zs @ rest_of (tag y) ((InnerNode cs, nid) # stk)) st" by blast
    have "rest_of (tag y) ((InnerNode cs, nid) # stk) = leaves_from cs (Suc i) @ rest_of k stk"
      using y(3) nid rest_of_prefix[OF path, of "tag y" k] kp by (simp add: has_prefix_snoc selectBranch_nib)
    then show ?thesis using Some c y by (simp add: firstAfter_def leaves_branches)
  qed
qed

text \<open>What \<^const>\<open>nextUp\<close> and \<^const>\<open>upperUp\<close> find on a path: the first item to come.\<close>

definition at_rest :: "TNType \<Rightarrow> SHAMapItem list \<Rightarrow> (SHAMapItem option \<times> node_stack) option \<Rightarrow> bool" where
  "at_rest ty xs r \<longleftrightarrow> (case xs of
     [] \<Rightarrow> r = Some (None, [])
   | y # ys \<Rightarrow> \<exists>st. r = Some (Some y, st) \<and> positioned ty y ys st)"

lemma nextUp_ok: "path_ok ty p stk \<Longrightarrow> has_prefix p k \<Longrightarrow> at_rest ty (rest_of k stk) (nextUp k stk)"
proof (induction rule: path_ok.induct)
  case (snoc p stk cs nid b)
  then have "has_prefix p k" by (simp add: has_prefix_snoc)
  note fa = firstAfter_ok[OF snoc.hyps(2,1,3) this, of "Suc (selectBranch nid k)"] and IH = snoc.IH[OF this]
  show ?case
  proof (cases "leaves_from cs (Suc (selectBranch nid k)) = []")
    case True
    then have "nextUp k ((InnerNode cs, nid) # stk) = nextUp k stk" using fa by simp
    then show ?thesis using IH True by simp
  next
    case False
    with fa show ?thesis by (auto simp: at_rest_def)
  qed
qed (simp add: at_rest_def)

lemma upperUp_path: "path_ok ty p stk \<Longrightarrow> has_prefix p k \<Longrightarrow> upperUp k stk = nextUp k stk"
  by (induction rule: path_ok.induct) (auto simp: has_prefix_snoc)

lemma peekNextItem_ok: "positioned ty y ys st \<Longrightarrow> at_rest ty ys (peekNextItem (tag y) st)"
  by (auto simp: positioned_def peekNextItem_def intro: nextUp_ok)

lemma peekFirstItem_ok:
  assumes "map_ok ty m"
  shows "at_rest ty (leaves (smRoot m)) (Some (peekFirstItem m))"
proof -
  obtain cs where cs: "smRoot m = InnerNode cs" "kids_ok ty [] cs" using assms by (auto simp: map_ok_def)
  show ?thesis
  proof (cases "branches cs = []")
    case True
    then show ?thesis
      by (simp add: at_rest_def peekFirstItem_def firstBelow_def cs(1) leaves_branches descendFirst.simps[of cs])
  next
    case False
    from descendFirst_ok[OF cs(2) path_ok.nil _ this, of rootID 0] show ?thesis
      by (auto simp: at_rest_def peekFirstItem_def firstBelow_def cs(1))
  qed
qed

section \<open>The first item above a key\<close>

lemma bu_compare_swap: "bu_compare b a = - bu_compare a b"
  by (induction a b rule: bu_compare.induct) auto

lemma bu_greater_iff: "bu_greater a b \<longleftrightarrow> bu_less b a"
  using bu_compare_swap[of b a] by (simp add: bu_greater_def bu_less_def)

lemma bu_less_asym: "bu_less a b \<Longrightarrow> \<not> bu_less b a"
  using bu_compare_swap[of b a] by (simp add: bu_less_def)

definition above :: "blob \<Rightarrow> SHAMapItem list \<Rightarrow> SHAMapItem list" where
  "above k xs = filter (\<lambda>x. bu_less k (tag x)) xs"

lemma child_vs_key:
  assumes "kids_ok ty p cs" "has_prefix p k" "length k = 32" "x \<in> child_items (getChild cs i)"
  shows "i < nib (length p) k \<Longrightarrow> bu_less (tag x) k" "nib (length p) k < i \<Longrightarrow> bu_less k (tag x)"
  using kids_ok_items[OF assms(1,4)] assms(1-3)
  by (auto intro!: nib_order[of _ _ "length p"] simp: item_ok_def has_prefix_def kids_ok_def)

lemma above_kids:
  assumes k: "kids_ok ty p cs" "has_prefix p k" "length k = 32" and b: "b = nib (length p) k"
  shows "above k (leaves (InnerNode cs)) =
    above k (case getChild cs b of None \<Rightarrow> [] | Some c \<Rightarrow> leaves c) @ leaves_from cs (Suc b)"
proof -
  have len: "b < length cs" using k(1) b by (simp add: kids_ok_def)
  let ?l = "\<lambda>c. case c of None \<Rightarrow> [] | Some n \<Rightarrow> leaves n"
  have split: "leaves (InnerNode cs) = leaves (InnerNode (take b cs)) @ ?l (getChild cs b) @ leaves_from cs (Suc b)"
    unfolding leaves_inner using len by (subst id_take_nth_drop[OF len]) (simp add: getChild_def)
  have "filter (\<lambda>x. bu_less k (tag x)) (leaves (InnerNode (take b cs))) = []"
  proof -
    have "\<not> bu_less k (tag x)" if x: "x \<in> items (InnerNode (take b cs))" for x
    proof -
      obtain i where "i < b" "x \<in> child_items (getChild cs i)"
        using x len by (auto simp: items_inner getChild_def)
      then show ?thesis using child_vs_key(1)[OF k] bu_less_asym b by blast
    qed
    then show ?thesis by (simp add: filter_empty_conv)
  qed
  moreover have "filter (\<lambda>x. bu_less k (tag x)) (leaves_from cs (Suc b)) = leaves_from cs (Suc b)"
  proof -
    have "bu_less k (tag x)" if x: "x \<in> items (InnerNode (drop (Suc b) cs))" for x
    proof -
      obtain i where "i < length cs - Suc b" "x \<in> child_items (cs ! Suc (b + i))"
        using x len by (auto simp: items_inner getChild_def)
      then have "x \<in> child_items (getChild cs (Suc (b + i)))" by (simp add: getChild_def)
      then show ?thesis using child_vs_key(2)[OF k] b by simp
    qed
    then show ?thesis by (simp add: filter_True)
  qed
  ultimately show ?thesis unfolding above_def split by simp
qed

lemma upperUp_inner:
  assumes k: "kids_ok ty p cs" "has_prefix p k" "length k = 32" and stk: "mDepth nid = int (length p)" "path_ok ty p stk"
    and IH: "\<And>c. getChild cs (nib (length p) k) = Some c \<Longrightarrow>
      at_rest ty (above k (leaves c) @ rest_of k ((InnerNode cs, nid) # stk))
        (upperUp k (snd (walkTowards k c (getChildNodeID nid (nib (length p) k)) ((InnerNode cs, nid) # stk))))"
  shows "at_rest ty (above k (leaves (InnerNode cs)) @ rest_of k stk) (upperUp k (snd (walkTowards k (InnerNode cs) nid stk)))"
proof -
  let ?b = "nib (length p) k"
  let ?stk = "(InnerNode cs, nid) # stk"
  have path: "path_ok ty (p @ [?b]) ?stk" "has_prefix (p @ [?b]) k"
    using k stk by (auto intro: path_ok.snoc simp: has_prefix_snoc)
  have rest: "rest_of k ?stk = leaves_from cs (Suc ?b) @ rest_of k stk" using stk(1) by (simp add: selectBranch_nib)
  note above = above_kids[OF k refl]
  show ?thesis
  proof (cases "getChild cs ?b")
    case None
    then show ?thesis using nextUp_ok[OF path] upperUp_path[OF path] unfolding walk_inner[OF stk(1)] rest
      by (simp only: above None option.case) (simp add: above_def)
  next
    case (Some c)
    then show ?thesis using IH[OF Some] unfolding walk_inner[OF stk(1)] rest by (simp add: above)
  qed
qed

lemma upperUp_node:
  assumes "node_ok ty p n" "has_prefix p k" "length k = 32" "mDepth nid = int (length p)" "path_ok ty p stk"
  shows "at_rest ty (above k (leaves n) @ rest_of k stk) (upperUp k (snd (walkTowards k n nid stk)))"
  using assms
proof (induction n arbitrary: p nid stk rule: node_induct)
  case (TreeNode it t)
  then have it: "t = ty" "has_prefix p (tag it)" by (auto simp: node_ok_leaf)
  show ?case
  proof (cases "bu_less k (tag it)")
    case True
    have "positioned ty it (rest_of k stk) ((TreeNode it ty, nid) # stk)"
      using TreeNode.prems(2,5) it rest_of_prefix[of ty p stk k "tag it"] unfolding positioned_def by blast
    then show ?thesis using True it(1) by (simp add: above_def at_rest_def bu_greater_iff)
  next
    case False
    then show ?thesis using nextUp_ok[OF TreeNode.prems(5,2)] upperUp_path[OF TreeNode.prems(5,2)]
      by (simp add: above_def bu_greater_iff)
  qed
next
  case (InnerNode cs)
  then have k: "kids_ok ty p cs" by (simp add: node_ok_inner_iff)
  show ?case
  proof (rule upperUp_inner[OF k InnerNode.prems(2-5)])
    fix c assume c: "getChild cs (nib (length p) k) = Some c"
    show "at_rest ty (above k (leaves c) @ rest_of k ((InnerNode cs, nid) # stk))
        (upperUp k (snd (walkTowards k c (getChildNodeID nid (nib (length p) k)) ((InnerNode cs, nid) # stk))))"
      using InnerNode.prems kids_ok_child(1)[OF k c]
      by (intro InnerNode.IH[of _ "p @ [nib (length p) k]"] getChild_mem[OF c] path_ok.snoc k) (auto simp: has_prefix_snoc)
  qed
qed

lemma upper_bound_ok:
  assumes "map_ok ty m" "length k = 32"
  shows "at_rest ty (above k (leaves (smRoot m))) (upper_bound k m)"
proof -
  obtain cs where cs: "smRoot m = InnerNode cs" "kids_ok ty [] cs" using assms by (auto simp: map_ok_def)
  have "at_rest ty (above k (leaves (InnerNode cs)) @ rest_of k []) (upperUp k (snd (walkTowards k (InnerNode cs) rootID [])))"
  proof (rule upperUp_inner[OF cs(2)])
    fix c assume c: "getChild cs (nib (length ([]::nat list)) k) = Some c"
    show "at_rest ty (above k (leaves c) @ rest_of k [(InnerNode cs, rootID)])
        (upperUp k (snd (walkTowards k c (getChildNodeID rootID (nib (length ([]::nat list)) k)) [(InnerNode cs, rootID)])))"
      using assms(2) kids_ok_child(1)[OF cs(2) c]
      by (intro upperUp_node[of ty "[] @ [nib 0 k]"] path_ok.snoc path_ok.nil cs(2)) (auto simp: has_prefix_def)
  qed (use assms(2) in \<open>auto intro: path_ok.nil\<close>)
  then show ?thesis by (simp add: upper_bound_def walkTowardsKey_def cs(1))
qed

end
