(* ===== verification/SHAMap_Refine.thy ===== *)
theory SHAMap_Refine
  imports SHAMap_Iter
begin

text \<open>
  The radix tree as an implementation of a finite map from keys to items.  The interface of such
  a store is a locale; its client lemma is about sequences of edits, and the tree is
  an instance for every kind of leaf.
\<close>

section \<open>Stores of items\<close>

datatype sm_op = AddItem SHAMapItem | UpdateItem SHAMapItem | DelItem blob

text \<open>What an operation answers and does on the map it stands for.\<close>

fun abs_op :: "sm_op \<Rightarrow> (blob \<rightharpoonup> SHAMapItem) \<Rightarrow> bool \<times> (blob \<rightharpoonup> SHAMapItem)" where
  "abs_op (AddItem it) f = (if f (tag it) = None then (True, f(tag it \<mapsto> it)) else (False, f))"
| "abs_op (UpdateItem it) f = (True, f(tag it \<mapsto> it))"
| "abs_op (DelItem k) f = (f k \<noteq> None, f(k := None))"

fun abs_ops :: "sm_op list \<Rightarrow> (blob \<rightharpoonup> SHAMapItem) \<Rightarrow> bool list \<times> (blob \<rightharpoonup> SHAMapItem)" where
  "abs_ops [] f = ([], f)"
| "abs_ops (x # xs) f =
     (let (b, f1) = abs_op x f; (bs, f2) = abs_ops xs f1 in (b # bs, f2))"

text \<open>Items are well-formed, and only items that are there are updated.\<close>

fun op_pre :: "(SHAMapItem \<Rightarrow> SHAMapItem \<Rightarrow> bool) \<Rightarrow> sm_op \<Rightarrow> (blob \<rightharpoonup> SHAMapItem) \<Rightarrow> bool" where
  "op_pre tells (AddItem it) f \<longleftrightarrow> item_ok it"
| "op_pre tells (UpdateItem it) f \<longleftrightarrow> item_ok it \<and> (\<exists>x. f (tag it) = Some x \<and> tells it x)"
| "op_pre tells (DelItem k) f \<longleftrightarrow> True"

fun ops_pre :: "(SHAMapItem \<Rightarrow> SHAMapItem \<Rightarrow> bool) \<Rightarrow> sm_op list \<Rightarrow> (blob \<rightharpoonup> SHAMapItem) \<Rightarrow> bool" where
  "ops_pre tells [] f \<longleftrightarrow> True"
| "ops_pre tells (x # xs) f \<longleftrightarrow> op_pre tells x f \<and> ops_pre tells xs (snd (abs_op x f))"

text \<open>A sequence of operations, with their answers.\<close>

fun run_op ::
  "(SHAMapItem \<Rightarrow> 's \<Rightarrow> (bool \<times> 's) option) \<Rightarrow> (SHAMapItem \<Rightarrow> 's \<Rightarrow> (bool \<times> 's) option) \<Rightarrow>
   (blob \<Rightarrow> 's \<Rightarrow> (bool \<times> 's) option) \<Rightarrow> sm_op \<Rightarrow> 's \<Rightarrow> (bool \<times> 's) option" where
  "run_op add upd del (AddItem it) s = add it s"
| "run_op add upd del (UpdateItem it) s = upd it s"
| "run_op add upd del (DelItem k) s = del k s"

fun run_ops ::
  "(sm_op \<Rightarrow> 's \<Rightarrow> (bool \<times> 's) option) \<Rightarrow> sm_op list \<Rightarrow> 's \<Rightarrow> (bool list \<times> 's) option" where
  "run_ops step [] s = Some ([], s)"
| "run_ops step (x # xs) s =
     do { (b, s1) \<leftarrow> step x s; (bs, s2) \<leftarrow> run_ops step xs s1; Some (b # bs, s2) }"

locale item_store =
  fixes ok :: "'s \<Rightarrow> bool" and contents :: "'s \<Rightarrow> blob \<rightharpoonup> SHAMapItem"
    and add :: "SHAMapItem \<Rightarrow> 's \<Rightarrow> (bool \<times> 's) option"
    and del :: "blob \<Rightarrow> 's \<Rightarrow> (bool \<times> 's) option"
  assumes add_new: "ok s \<Longrightarrow> item_ok it \<Longrightarrow> contents s (tag it) = None \<Longrightarrow>
      \<exists>s'. add it s = Some (True, s') \<and> ok s' \<and> contents s' = (contents s)(tag it \<mapsto> it)"
    and add_old: "ok s \<Longrightarrow> contents s (tag it) \<noteq> None \<Longrightarrow> add it s = Some (False, s)"
    and del_any: "ok s \<Longrightarrow> \<exists>s'. del k s = Some (contents s k \<noteq> None, s') \<and> ok s' \<and> contents s' = (contents s)(k := None)"
begin

lemma add_abs:
  assumes "ok s" "item_ok it"
  shows "\<exists>b s'. add it s = Some (b, s') \<and> ok s' \<and> (b, contents s') = abs_op (AddItem it) (contents s)"
  using add_new[OF assms] add_old[OF assms(1)] assms(1) by (cases "contents s (tag it)") auto

lemma del_abs: "ok s \<Longrightarrow> \<exists>b s'. del k s = Some (b, s') \<and> ok s' \<and> (b, contents s') = abs_op (DelItem k) (contents s)"
  using del_any[of s k] by auto

end

text \<open>A store with an update; \<open>tells\<close> says which changes of an item it notices.\<close>

locale updatable_store = item_store +
  fixes upd :: "SHAMapItem \<Rightarrow> 's \<Rightarrow> (bool \<times> 's) option" and tells :: "SHAMapItem \<Rightarrow> SHAMapItem \<Rightarrow> bool"
  assumes upd_old: "ok s \<Longrightarrow> item_ok it \<Longrightarrow> contents s (tag it) = Some x \<Longrightarrow> tells it x \<Longrightarrow>
      \<exists>s'. upd it s = Some (True, s') \<and> ok s' \<and> contents s' = (contents s)(tag it \<mapsto> it)"
begin

lemma run_op_abs:
  assumes "ok s" "op_pre tells x (contents s)"
  shows "\<exists>b s'. run_op add upd del x s = Some (b, s') \<and> ok s' \<and> (b, contents s') = abs_op x (contents s)"
proof (cases x)
  case (UpdateItem it)
  then obtain y where "item_ok it" "contents s (tag it) = Some y" "tells it y" using assms(2) by auto
  from upd_old[OF assms(1) this] show ?thesis using UpdateItem by auto
qed (use assms add_abs del_abs in auto)

lemma run_ops_abs:
  "ok s \<Longrightarrow> ops_pre tells xs (contents s) \<Longrightarrow>
   \<exists>bs s'. run_ops (run_op add upd del) xs s = Some (bs, s') \<and> ok s' \<and> (bs, contents s') = abs_ops xs (contents s)"
proof (induction xs arbitrary: s)
  case (Cons x xs)
  from run_op_abs[OF Cons.prems(1), of x] Cons.prems(2) obtain b s1 where 1: "run_op add upd del x s = Some (b, s1)" "ok s1"
    "(b, contents s1) = abs_op x (contents s)" by auto
  then have "ops_pre tells xs (contents s1)" using Cons.prems(2) by (metis ops_pre.simps(2) snd_conv)
  from Cons.IH[OF 1(2) this] show ?case using 1 by (auto simp: Let_def split: prod.splits)
qed simp

end

section \<open>The tree\<close>

definition sm_contents :: "SHAMap \<Rightarrow> blob \<rightharpoonup> SHAMapItem" where
  "sm_contents m = map_of (map (\<lambda>it. (tag it, it)) (leaves (smRoot m)))"

definition sm_ok :: "bool \<Rightarrow> bool \<Rightarrow> SHAMap \<Rightarrow> bool" where
  "sm_ok isTransaction hasMeta m \<longleftrightarrow> map_ok (node_type isTransaction hasMeta) m \<and> smState m \<noteq> Immutable"

text \<open>An update with the hash of the old leaf is dropped, so equal hashes must mean equal items.\<close>

definition hash_tells :: "(blob \<Rightarrow> blob) \<Rightarrow> TNType \<Rightarrow> SHAMapItem \<Rightarrow> SHAMapItem \<Rightarrow> bool" where
  "hash_tells sha ty it x \<longleftrightarrow> (node_hash sha (TreeNode it ty) = node_hash sha (TreeNode x ty) \<longrightarrow> it = x)"

lemma sorted_by_key_tags: "sorted_wrt by_key xs \<Longrightarrow> distinct (map tag xs)"
proof (induction xs)
  case (Cons a xs)
  then have "tag a \<notin> tag ` set xs" by (metis (no_types) imageE not_bu_less_self sorted_wrt.simps(2))
  then show ?case using Cons by simp
qed simp

lemma sm_contents_iff:
  assumes "map_ok ty m"
  shows "sm_contents m k = Some it \<longleftrightarrow> it \<in> items (smRoot m) \<and> tag it = k"
proof -
  have "distinct (map tag (leaves (smRoot m)))" by (rule sorted_by_key_tags[OF map_sorted[OF assms]])
  then show ?thesis unfolding sm_contents_def by (subst map_of_eq_Some_iff) (auto simp: comp_def)
qed

lemma sm_contents_eqI:
  assumes "map_ok ty m" "\<And>k it. it \<in> items (smRoot m) \<and> tag it = k \<longleftrightarrow> f k = Some it"
  shows "sm_contents m = f"
proof
  fix k
  have "sm_contents m k = Some it \<longleftrightarrow> f k = Some it" for it using sm_contents_iff[OF assms(1)] assms(2) by blast
  then show "sm_contents m k = f k" by (metis not_None_eq)
qed

lemma sm_contents_None: "map_ok ty m \<Longrightarrow> sm_contents m k = None \<longleftrightarrow> k \<notin> tag ` items (smRoot m)"
  using sm_contents_iff[of ty m k] by (metis (no_types, lifting) image_iff not_None_eq)

lemma sm_contents_mem:
  assumes "map_ok ty m"
  shows "y \<in> items (smRoot m) \<longleftrightarrow> sm_contents m (tag y) = Some y" "sm_contents m k = Some y \<Longrightarrow> tag y = k"
  using sm_contents_iff[OF assms] by auto

lemma sm_peekItem_contents: "map_ok ty m \<Longrightarrow> sm_peekItem k m = sm_contents m k"
proof -
  assume m: "map_ok ty m"
  have "sm_peekItem k m = Some it \<longleftrightarrow> sm_contents m k = Some it" for it
    using findKey_iff[OF m, of k it] sm_contents_iff[OF m, of k it] by (auto simp: sm_peekItem_def)
  then show ?thesis by (metis not_None_eq)
qed

lemma sm_hasItem_contents: "map_ok ty m \<Longrightarrow> sm_hasItem k m \<longleftrightarrow> sm_contents m k \<noteq> None"
  by (simp add: sm_peekItem_contents[symmetric] sm_hasItem_def sm_peekItem_def)

lemma sm_add_new:
  assumes "sm_ok isT hasM m" "item_ok it" "sm_contents m (tag it) = None"
  shows "\<exists>m'. addGiveItem it isT hasM m = Some (True, m') \<and> sm_ok isT hasM m' \<and> sm_contents m' = (sm_contents m)(tag it \<mapsto> it)"
proof -
  have m: "map_ok (node_type isT hasM) m" "smState m \<noteq> Immutable" using assms by (auto simp: sm_ok_def)
  note c = sm_contents_iff[OF m(1)]
  have new: "tag it \<notin> tag ` items (smRoot m)" using assms(3) sm_contents_None[OF m(1)] by simp
  from addGiveItem_new[OF m assms(2) new] obtain m' where m': "addGiveItem it isT hasM m = Some (True, m')"
    "map_ok (node_type isT hasM) m'" "items (smRoot m') = insert it (items (smRoot m))" "smState m' = smState m" by blast
  have "sm_contents m' = (sm_contents m)(tag it \<mapsto> it)"
    using assms(3) by (intro sm_contents_eqI[OF m'(2)]) (auto simp: m'(3) sm_contents_mem(1)[OF m(1)] dest: sm_contents_mem(2)[OF m(1)])
  then show ?thesis using m' m(2) by (auto simp: sm_ok_def)
qed

lemma sm_del_any:
  assumes "sm_ok isT hasM m"
  shows "\<exists>m'. delItem k m = Some (sm_contents m k \<noteq> None, m') \<and> sm_ok isT hasM m' \<and> sm_contents m' = (sm_contents m)(k := None)"
proof -
  have m: "map_ok (node_type isT hasM) m" "smState m \<noteq> Immutable" using assms by (auto simp: sm_ok_def)
  note c = sm_contents_iff[OF m(1)]
  show ?thesis
  proof (cases "sm_contents m k")
    case None
    then show ?thesis using delItem_absent[OF m, of k] assms sm_contents_None[OF m(1)] by (auto simp: fun_upd_idem)
  next
    case (Some x)
    then have x: "x \<in> items (smRoot m)" "tag x = k" using c by auto
    from delItem_present[OF m x(1)] obtain m' where m': "delItem k m = Some (True, m')"
      "map_ok (node_type isT hasM) m'" "items (smRoot m') = items (smRoot m) - {x}" "smState m' = smState m" using x(2) by blast
    have "sm_contents m' = (sm_contents m)(k := None)"
      using Some x(2) by (intro sm_contents_eqI[OF m'(2)]) (auto simp: m'(3) sm_contents_mem(1)[OF m(1)] dest: sm_contents_mem(2)[OF m(1)])
    then show ?thesis using m' m(2) Some by (auto simp: sm_ok_def)
  qed
qed

lemma sm_upd_old:
  assumes "sm_ok isT hasM m" "item_ok it" "sm_contents m (tag it) = Some x" "hash_tells sha (node_type isT hasM) it x"
  shows "\<exists>m'. updateGiveItem sha it isT hasM m = Some (True, m') \<and> sm_ok isT hasM m' \<and>
    sm_contents m' = (sm_contents m)(tag it \<mapsto> it)"
proof -
  have m: "map_ok (node_type isT hasM) m" "smState m \<noteq> Immutable" using assms by (auto simp: sm_ok_def)
  note c = sm_contents_iff[OF m(1)]
  have x: "x \<in> items (smRoot m)" "tag it = tag x" using assms(3) c by auto
  from updateGiveItem_present[OF m x(1) assms(2) x(2), of sha] assms(4)
  obtain m' where m': "updateGiveItem sha it isT hasM m = Some (True, m')" "map_ok (node_type isT hasM) m'"
    "items (smRoot m') = insert it (items (smRoot m) - {x})" "smState m' = smState m" unfolding hash_tells_def by blast
  have "sm_contents m' = (sm_contents m)(tag it \<mapsto> it)"
    using assms(3) x(2) by (intro sm_contents_eqI[OF m'(2)]) (auto simp: m'(3) sm_contents_mem(1)[OF m(1)] dest: sm_contents_mem(2)[OF m(1)])
  then show ?thesis using m' m(2) by (auto simp: sm_ok_def)
qed

interpretation sm: updatable_store "sm_ok isT hasM" sm_contents "\<lambda>it. addGiveItem it isT hasM" delItem
  "\<lambda>it. updateGiveItem sha it isT hasM" "hash_tells sha (node_type isT hasM)" for isT hasM sha
proof unfold_locales
  show "addGiveItem it isT hasM s = Some (False, s)" if "sm_ok isT hasM s" "sm_contents s (tag it) \<noteq> None" for s it
    using that sm_contents_None[of _ s "tag it"] by (auto simp: sm_ok_def intro!: addGiveItem_old)
qed (use sm_add_new sm_del_any sm_upd_old in blast)+

section \<open>Properties\<close>

definition sm_run ::
  "(blob \<Rightarrow> blob) \<Rightarrow> bool \<Rightarrow> bool \<Rightarrow> sm_op list \<Rightarrow> SHAMap \<Rightarrow> (bool list \<times> SHAMap) option" where
  "sm_run sha isT hasM =
     run_ops (run_op (\<lambda>it. addGiveItem it isT hasM) (\<lambda>it. updateGiveItem sha it isT hasM) delItem)"

lemma sm_ok_new: "sm_ok isT hasM newSHAMap" "sm_contents newSHAMap = Map.empty"
proof -
  show "sm_ok isT hasM newSHAMap" by (simp add: sm_ok_def map_ok_def newSHAMap_def kids_ok_newInner)
  then show "sm_contents newSHAMap = Map.empty"
    by (intro sm_contents_eqI) (auto simp: sm_ok_def newSHAMap_def)
qed

text \<open>
  C34. Refinement.  Any sequence of \<^const>\<open>addGiveItem\<close>, \<^const>\<open>updateGiveItem\<close> and
  \<^const>\<open>delItem\<close> on a new map runs without a failed assertion or a missing node, answers what the
  same operations on a finite map from keys to items answer, and leaves a tree in which
  \<^const>\<open>sm_peekItem\<close> and \<^const>\<open>sm_hasItem\<close> read that finite map.  Items have keys of 32 bytes and
  at least twelve bytes of data, only keys that are present are updated, and an update that
  changes an item changes its hash.
\<close>

theorem shamap_refines_map:
  assumes "ops_pre (hash_tells sha (node_type isT hasM)) ops Map.empty"
  shows "\<exists>bs m. sm_run sha isT hasM ops newSHAMap = Some (bs, m) \<and> map_ok (node_type isT hasM) m \<and>
    (bs, \<lambda>k. sm_peekItem k m) = abs_ops ops Map.empty \<and> (\<forall>k. sm_hasItem k m \<longleftrightarrow> sm_peekItem k m \<noteq> None)"
proof -
  from sm.run_ops_abs[OF sm_ok_new(1), of sha isT hasM ops] assms
  obtain bs m where m: "sm_run sha isT hasM ops newSHAMap = Some (bs, m)" "sm_ok isT hasM m"
    "(bs, sm_contents m) = abs_ops ops Map.empty"
    unfolding sm_run_def sm_ok_new(2) by blast
  have ok: "map_ok (node_type isT hasM) m" using m(2) by (simp add: sm_ok_def)
  have "(\<lambda>k. sm_peekItem k m) = sm_contents m" using sm_peekItem_contents[OF ok] by blast
  then show ?thesis using m ok sm_hasItem_contents[OF ok] sm_peekItem_contents[OF ok] by auto
qed

definition item_a :: SHAMapItem where "item_a = \<lparr>tag = 0x12 # replicate 31 0, idata = replicate 12 1\<rparr>"
definition item_b :: SHAMapItem where "item_b = \<lparr>tag = 0x13 # replicate 31 0, idata = replicate 12 2\<rparr>"
definition item_b2 :: SHAMapItem where "item_b2 = \<lparr>tag = 0x13 # replicate 31 0, idata = replicate 14 3\<rparr>"

lemma example_items [simp]: "item_ok item_a" "item_ok item_b" "item_ok item_b2" "tag item_b2 = tag item_b"
  "tag item_a \<noteq> tag item_b" "tag item_b \<noteq> tag item_a" "item_b2 \<noteq> item_b"
  by (simp_all add: item_a_def item_b_def item_b2_def item_ok_def)

theorem shamap_refines_map_witness:
  "\<exists>m. sm_run (\<lambda>x. x) True False [AddItem item_a, AddItem item_b, AddItem item_a, UpdateItem item_b2, DelItem (tag item_a)] newSHAMap
       = Some ([True, True, False, True, True], m) \<and>
     sm_peekItem (tag item_b) m = Some item_b2 \<and> \<not> sm_hasItem (tag item_a) m"
proof -
  let ?ops = "[AddItem item_a, AddItem item_b, AddItem item_a, UpdateItem item_b2, DelItem (tag item_a)]"
  have "hash_tells (\<lambda>x. x) tnTRANSACTION_NM item_b2 item_b"
    by (simp add: hash_tells_def leaf_preimage_def item_b_def item_b2_def)
  then have "ops_pre (hash_tells (\<lambda>x. x) (node_type True False)) ?ops Map.empty" by (simp add: node_type_def)
  from shamap_refines_map[OF this] obtain bs m where m: "sm_run (\<lambda>x. x) True False ?ops newSHAMap = Some (bs, m)"
    "(bs, \<lambda>k. sm_peekItem k m) = abs_ops ?ops Map.empty" "\<forall>k. sm_hasItem k m \<longleftrightarrow> sm_peekItem k m \<noteq> None" by blast
  have "sm_peekItem k m = snd (abs_ops ?ops Map.empty) k" for k using m(2) by (metis snd_conv)
  then show ?thesis using m by (simp add: Let_def)
qed

text \<open>The iterator: \<^verbatim>\<open>begin\<close> and \<open>n\<close> increments; \<^const>\<open>None\<close> is \<^verbatim>\<open>end\<close>.\<close>

fun sm_iter :: "nat \<Rightarrow> SHAMap \<Rightarrow> (SHAMapItem option \<times> node_stack) option" where
  "sm_iter 0 m = Some (peekFirstItem m)"
| "sm_iter (Suc n) m =
     do { (item, stack) \<leftarrow> sm_iter n m;
          case item of None \<Rightarrow> Some (None, stack) | Some it \<Rightarrow> peekNextItem (tag it) stack }"

lemma sm_iter_rest:
  assumes "map_ok ty m"
  shows "at_rest ty (drop n (leaves (smRoot m))) (sm_iter n m)"
proof (induction n)
  case 0
  then show ?case using peekFirstItem_ok[OF assms] by simp
next
  case (Suc n)
  show ?case
  proof (cases "drop n (leaves (smRoot m))")
    case Nil
    then show ?thesis using Suc by (simp add: at_rest_def)
  next
    case (Cons y ys)
    then have "drop (Suc n) (leaves (smRoot m)) = ys" by (metis drop_Suc list.sel(3) tl_drop)
    moreover obtain st where "sm_iter n m = Some (Some y, st)" "positioned ty y ys st"
      using Suc Cons by (auto simp: at_rest_def)
    ultimately show ?thesis using peekNextItem_ok by simp
  qed
qed

lemma at_rest_fst: "at_rest ty xs r \<Longrightarrow> map_option fst r = Some (if xs = [] then None else Some (hd xs))"
  by (auto simp: at_rest_def split: list.splits)

lemma hd_above: "(if above k xs = [] then None else Some (hd (above k xs))) = find (\<lambda>x. bu_less k (tag x)) xs"
  unfolding above_def by (induction xs) auto

text \<open>
  C37. Iteration.  On every well-formed map the iterator visits each item exactly once, in
  increasing order of the keys, and then reaches the end, without a missing node; and
  \<^const>\<open>upper_bound\<close> positions it at the first item whose key is greater than the argument.
\<close>

theorem shamap_iteration:
  assumes "map_ok ty m"
  shows "\<exists>xs. set xs = {it. sm_peekItem (tag it) m = Some it} \<and> sorted_wrt (\<lambda>x y. bu_less (tag x) (tag y)) xs \<and>
    (\<forall>n. map_option fst (sm_iter n m) = Some (if n < length xs then Some (xs ! n) else None)) \<and>
    (\<forall>k. length k = 32 \<longrightarrow> map_option fst (upper_bound k m) = Some (find (\<lambda>x. bu_less k (tag x)) xs))"
proof (intro exI conjI allI impI)
  let ?xs = "leaves (smRoot m)"
  show "set ?xs = {it. sm_peekItem (tag it) m = Some it}"
    using sm_contents_mem(1)[OF assms] sm_peekItem_contents[OF assms] by auto
  show "sorted_wrt by_key ?xs" by (rule map_sorted[OF assms])
  show "map_option fst (sm_iter n m) = Some (if n < length ?xs then Some (?xs ! n) else None)" for n
    using at_rest_fst[OF sm_iter_rest[OF assms, of n]] by (auto simp: hd_drop_conv_nth)
  show "map_option fst (upper_bound k m) = Some (find (\<lambda>x. bu_less k (tag x)) ?xs)" if "length k = 32" for k
    using at_rest_fst[OF upper_bound_ok[OF assms that]] unfolding hd_above .
qed

definition map_ab :: SHAMap where
  "map_ab = \<lparr>smState = Modifying, smRoot = InnerNode (setChild newInner 1 (Some (InnerNode
     (setChild (setChild newInner 3 (Some (TreeNode item_b tnTRANSACTION_NM))) 2 (Some (TreeNode item_a tnTRANSACTION_NM))))))\<rparr>"

lemma map_ab_run: "sm_run (\<lambda>x. x) True False [AddItem item_b, AddItem item_a] newSHAMap = Some ([True, True], map_ab)"
  by code_simp

lemma map_ab_ok: "map_ok tnTRANSACTION_NM map_ab"
proof -
  have "ops_pre (hash_tells (\<lambda>x. x) (node_type True False)) [AddItem item_b, AddItem item_a] Map.empty" by simp
  then show ?thesis
    using sm.run_ops_abs[OF sm_ok_new(1), of "\<lambda>x. x" True False "[AddItem item_b, AddItem item_a]"] map_ab_run
    by (auto simp: sm_run_def sm_ok_new(2) sm_ok_def node_type_def)
qed

theorem shamap_iteration_witness:
  "\<exists>xs. set xs = {it. sm_peekItem (tag it) map_ab = Some it} \<and>
    (\<forall>n. map_option fst (sm_iter n map_ab) = Some (if n < length xs then Some (xs ! n) else None)) \<and>
    map_option fst (upper_bound (tag item_a) map_ab) = Some (find (\<lambda>x. bu_less (tag item_a) (tag x)) xs)"
proof -
  have "length (tag item_a) = 32" by (simp add: item_a_def)
  with shamap_iteration[OF map_ab_ok] show ?thesis by blast
qed

end
