(* ===== verification/SHAMap_Hash.thy ===== *)
theory SHAMap_Hash
  imports SHAMap_Refine
begin

text \<open>
  The shape of a tree depends only on its items, so the root hash does; and without collisions
  of \<^verbatim>\<open>sha512Half\<close> on the two trees equal root hashes mean equal items.
\<close>

section \<open>One tree for a set of items\<close>

lemma getChild_ext:
  assumes "length cs = 16" "length ds = 16" "\<And>i. i < 16 \<Longrightarrow> getChild cs i = getChild ds i"
  shows "cs = ds"
  using assms by (intro nth_equalityI) (auto simp: getChild_def)

lemma kids_unique:
  assumes k: "kids_ok ty p cs" "kids_ok ty p ds" and eq: "items (InnerNode cs) = items (InnerNode ds)"
    and IH: "\<And>i c d. getChild cs i = Some c \<Longrightarrow> getChild ds i = Some d \<Longrightarrow> items c = items d \<Longrightarrow> c = d"
  shows "cs = ds"
proof (rule getChild_ext)
  fix i :: nat
  have ci: "child_items (getChild cs i) = child_items (getChild ds i)"
    unfolding child_items_nib[OF k(1)] child_items_nib[OF k(2)] eq ..
  show "getChild cs i = getChild ds i"
  proof (cases "getChild cs i")
    case None
    then show ?thesis using ci kids_ok_child(1)[OF k(2)] node_ok_nonempty
      by (metis child_items_simps not_None_eq)
  next
    case (Some c)
    then have "items c \<noteq> {}" using kids_ok_child(1)[OF k(1)] node_ok_nonempty by blast
    then obtain d where "getChild ds i = Some d" using ci Some by (cases "getChild ds i") auto
    then show ?thesis using IH Some ci by auto
  qed
qed (use k in \<open>auto simp: kids_ok_def\<close>)

lemma node_unique:
  assumes "node_ok ty p n" "node_ok ty p n'" "items n = items n'"
  shows "n = n'"
  using assms
proof (induction n arbitrary: p n' rule: node_induct)
  case (TreeNode it t)
  show ?case
  proof (cases n')
    case (InnerNode ds)
    then have "2 \<le> card {it}" using TreeNode.prems by (simp add: node_ok_inner_iff)
    then show ?thesis by simp
  qed (use TreeNode.prems in \<open>auto simp: node_ok_leaf\<close>)
next
  case (InnerNode cs)
  note prems = InnerNode.prems and IH = InnerNode.IH
  then have k: "kids_ok ty p cs" "2 \<le> card (items (InnerNode cs))" by (simp_all add: node_ok_inner_iff)
  show ?case
  proof (cases n')
    case (TreeNode it t)
    then show ?thesis using k(2) prems(3) by simp
  next
    case (InnerNode ds)
    then have k': "kids_ok ty p ds" using prems by (simp add: node_ok_inner_iff)
    have "cs = ds"
    proof (rule kids_unique[OF k(1) k'])
      show "items (InnerNode cs) = items (InnerNode ds)" using prems(3) InnerNode by simp
    qed (use IH getChild_mem kids_ok_child(1)[OF k(1)] kids_ok_child(1)[OF k'] in blast)
    then show ?thesis using InnerNode by simp
  qed
qed

lemma map_unique:
  assumes "map_ok ty m" "map_ok ty m'" "sm_contents m = sm_contents m'"
  shows "smRoot m = smRoot m'"
proof -
  obtain cs ds where c: "smRoot m = InnerNode cs" "kids_ok ty [] cs" "smRoot m' = InnerNode ds" "kids_ok ty [] ds"
    using assms by (auto simp: map_ok_def)
  have "items (smRoot m) = items (smRoot m')"
    using sm_contents_mem(1)[OF assms(1)] sm_contents_mem(1)[OF assms(2)] assms(3) by auto
  then have "cs = ds" using kids_unique[OF c(2,4)] node_unique kids_ok_child(1)[OF c(2)] kids_ok_child(1)[OF c(4)]
    unfolding c(1,3) by blast
  then show ?thesis using c by simp
qed

section \<open>Equal hashes\<close>

text \<open>The byte strings that are hashed in a tree.\<close>

fun hashed :: "(blob \<Rightarrow> blob) \<Rightarrow> SHAMapNode \<Rightarrow> blob set" where
  "hashed sha (TreeNode it ty) = {leaf_preimage it ty}"
| "hashed sha (InnerNode cs) =
     (if inner_isEmpty cs then {}
      else insert (bytes32 hp_innerNode @
          concat (map (\<lambda>c. case c of None \<Rightarrow> replicate 32 0 | Some n \<Rightarrow> node_hash sha n) cs))
        (\<Union>c\<in>set cs. case c of None \<Rightarrow> {} | Some n \<Rightarrow> hashed sha n))"

definition no_collision :: "(blob \<Rightarrow> blob) \<Rightarrow> blob set \<Rightarrow> bool" where
  "no_collision sha A \<longleftrightarrow> (\<forall>x\<in>A. \<forall>y\<in>A. sha x = sha y \<longrightarrow> x = y) \<and> (\<forall>x\<in>A. length (sha x) = 32 \<and> sha x \<noteq> replicate 32 0)"

lemma no_collisionD: "no_collision sha A \<Longrightarrow> sha x = sha y \<Longrightarrow> x \<in> A \<Longrightarrow> y \<in> A \<Longrightarrow> x = y"
  by (simp add: no_collision_def)

text \<open>A transaction without metadata has its own hash as key.\<close>

definition keyed :: "(blob \<Rightarrow> blob) \<Rightarrow> TNType \<Rightarrow> SHAMapItem set \<Rightarrow> bool" where
  "keyed sha ty A \<longleftrightarrow> (ty = tnTRANSACTION_NM \<longrightarrow> (\<forall>it\<in>A. tag it = sha (leaf_preimage it ty)))"

definition is_leaf_type :: "TNType \<Rightarrow> bool" where
  "is_leaf_type ty \<longleftrightarrow> ty \<in> {tnTRANSACTION_NM, tnTRANSACTION_MD, tnACCOUNT_STATE}"

definition child_blob :: "(blob \<Rightarrow> blob) \<Rightarrow> SHAMapNode option \<Rightarrow> blob" where
  "child_blob sha c = (case c of None \<Rightarrow> replicate 32 0 | Some n \<Rightarrow> node_hash sha n)"

definition inner_preimage :: "(blob \<Rightarrow> blob) \<Rightarrow> SHAMapNode option list \<Rightarrow> blob" where
  "inner_preimage sha cs = bytes32 hp_innerNode @ concat (map (child_blob sha) cs)"

declare node_hash.simps(2) [simp del] hashed.simps(2) [simp del]

lemma node_hash_inner:
  "node_hash sha (InnerNode cs) = (if inner_isEmpty cs then replicate 32 0 else sha (inner_preimage sha cs))"
  unfolding node_hash.simps(2) inner_preimage_def child_blob_def ..

lemma hashed_inner:
  "hashed sha (InnerNode cs) = (if inner_isEmpty cs then {}
     else insert (inner_preimage sha cs) (\<Union>c\<in>set cs. case c of None \<Rightarrow> {} | Some n \<Rightarrow> hashed sha n))"
  unfolding hashed.simps(2) inner_preimage_def child_blob_def ..

lemma bytes32_append [simp]: "bytes32 a @ x = bytes32 b @ y \<longleftrightarrow> a = b \<and> x = y"
  using bytes_inj(2) by (auto simp: inj_def)

lemma leaf_preimage_inj:
  assumes "is_leaf_type ty" "length (tag a) = 32" "length (tag b) = 32" "leaf_preimage a ty = leaf_preimage b ty"
  shows "idata a = idata b" "ty \<noteq> tnTRANSACTION_NM \<Longrightarrow> tag a = tag b"
  using assms by (auto simp: is_leaf_type_def leaf_preimage_def)

lemma leaf_not_inner: "is_leaf_type ty \<Longrightarrow> leaf_preimage it ty \<noteq> inner_preimage sha cs"
  by (auto simp: is_leaf_type_def leaf_preimage_def inner_preimage_def
      hp_innerNode_def hp_leafNode_def hp_transactionID_def hp_txNode_def)

lemma inner_isEmpty_items: "inner_isEmpty cs \<Longrightarrow> items (InnerNode cs) = {}"
  by (auto simp: leaves_inner inner_isEmpty_def)

lemma inner_isEmpty_kids: "kids_ok ty p cs \<Longrightarrow> inner_isEmpty cs \<longleftrightarrow> items (InnerNode cs) = {}"
proof
  assume k: "kids_ok ty p cs" and e: "items (InnerNode cs) = {}"
  have "getChild cs i = None" for i
    using node_ok_nonempty[OF kids_ok_child(1)[OF k, of i]] child_items_nib[OF k, of i] e
    by (cases "getChild cs i") auto
  then show "inner_isEmpty cs" by (auto simp: inner_isEmpty_def getChild_def in_set_conv_nth split: if_splits) (metis option.distinct(1))
qed (rule inner_isEmpty_items)

lemma node_hash_in:
  assumes "node_ok ty p n"
  shows "\<exists>x\<in>hashed sha n. node_hash sha n = sha x"
proof (cases n)
  case (InnerNode cs)
  then have "kids_ok ty p cs" "items (InnerNode cs) \<noteq> {}"
    using assms node_ok_nonempty by (auto simp: node_ok_inner_iff)
  then show ?thesis using InnerNode inner_isEmpty_kids by (auto simp: node_hash_inner hashed_inner)
qed simp

lemma hashed_child:
  assumes "getChild cs i = Some c" "hashed sha (InnerNode cs) \<subseteq> A"
  shows "hashed sha c \<subseteq> A"
proof -
  have "Some c \<in> set cs" "\<not> inner_isEmpty cs" using getChild_mem[OF assms(1)] by (auto simp: inner_isEmpty_def)
  then show ?thesis using assms(2) by (force simp: hashed_inner)
qed

lemma child_blob_ok:
  assumes "kids_ok ty p cs" "no_collision sha A" "hashed sha (InnerNode cs) \<subseteq> A"
  shows "length (child_blob sha (getChild cs i)) = 32"
    "getChild cs i = Some c \<Longrightarrow> child_blob sha (getChild cs i) \<noteq> replicate 32 0"
proof -
  have *: "length (node_hash sha c) = 32 \<and> node_hash sha c \<noteq> replicate 32 0" if "getChild cs i = Some c" for c
    using node_hash_in[OF kids_ok_child(1)[OF assms(1) that], of sha] hashed_child[OF that assms(3)] assms(2)
    unfolding no_collision_def by auto
  then show "length (child_blob sha (getChild cs i)) = 32"
    "getChild cs i = Some c \<Longrightarrow> child_blob sha (getChild cs i) \<noteq> replicate 32 0"
    by (auto simp: child_blob_def split: option.splits)
qed

lemma child_blob_inj:
  assumes k: "kids_ok ty p cs" "kids_ok ty p ds" and nc: "no_collision sha A"
    and A: "hashed sha (InnerNode cs) \<subseteq> A" "hashed sha (InnerNode ds) \<subseteq> A"
    and eq: "child_blob sha (getChild cs i) = child_blob sha (getChild ds i)"
    and IH: "\<And>c d. getChild cs i = Some c \<Longrightarrow> getChild ds i = Some d \<Longrightarrow> node_hash sha c = node_hash sha d \<Longrightarrow> c = d"
  shows "getChild cs i = getChild ds i"
proof (cases "getChild cs i")
  case None
  then show ?thesis using eq child_blob_ok(2)[OF k(2) nc A(2), of i]
    by (cases "getChild ds i") (simp_all add: child_blob_def)
next
  case (Some c)
  then obtain d where d: "getChild ds i = Some d"
    using eq child_blob_ok(2)[OF k(1) nc A(1) Some] by (cases "getChild ds i") (simp_all add: child_blob_def)
  then show ?thesis using IH[OF Some d] eq Some by (simp add: child_blob_def)
qed

lemma kids_hash_inj:
  assumes k: "kids_ok ty p cs" "kids_ok ty p ds" and nc: "no_collision sha A"
    and A: "hashed sha (InnerNode cs) \<subseteq> A" "hashed sha (InnerNode ds) \<subseteq> A"
    and eq: "inner_preimage sha cs = inner_preimage sha ds"
    and IH: "\<And>i c d. getChild cs i = Some c \<Longrightarrow> getChild ds i = Some d \<Longrightarrow> node_hash sha c = node_hash sha d \<Longrightarrow> c = d"
  shows "cs = ds"
proof (rule getChild_ext)
  show len: "length cs = 16" "length ds = 16" using k by (auto simp: kids_ok_def)
  have n: "child_blob sha (cs ! i) = child_blob sha (getChild cs i)" "child_blob sha (ds ! i) = child_blob sha (getChild ds i)"
    if "i < 16" for i using that len by (simp_all add: getChild_def)
  have "map (child_blob sha) cs = map (child_blob sha) ds"
  proof (rule concat_injective)
    show "concat (map (child_blob sha) cs) = concat (map (child_blob sha) ds)" using eq by (simp add: inner_preimage_def)
    show "\<forall>(x, y)\<in>set (zip (map (child_blob sha) cs) (map (child_blob sha) ds)). length x = length y"
      using len n child_blob_ok(1)[OF k(1) nc A(1)] child_blob_ok(1)[OF k(2) nc A(2)] by (auto simp: set_zip)
  qed (simp add: len)
  then have b: "child_blob sha (getChild cs i) = child_blob sha (getChild ds i)" if "i < 16" for i
    using n that len by (metis nth_map)
  show "getChild cs i = getChild ds i" if "i < 16" for i
    by (rule child_blob_inj[OF k nc A b[OF that] IH])
qed

lemma node_hash_inj:
  assumes "node_ok ty p n" "node_ok ty p n'" "hashed sha n \<subseteq> A" "hashed sha n' \<subseteq> A" "node_hash sha n = node_hash sha n'"
    and ty: "is_leaf_type ty" and keyed: "keyed sha ty (items n)" "keyed sha ty (items n')" and nc: "no_collision sha A"
  shows "n = n'"
  using assms(1-5) keyed
proof (induction n arbitrary: p n' rule: node_induct)
  case (TreeNode it t)
  note prems = TreeNode.prems
  then have it: "t = ty" "item_ok it" by (auto simp: node_ok_leaf)
  show ?case
  proof (cases n')
    case (TreeNode it' t')
    then have it': "t' = ty" "item_ok it'" using prems(2) by (auto simp: node_ok_leaf)
    then have eq: "leaf_preimage it ty = leaf_preimage it' ty"
      using prems(3-5) it nc TreeNode by (auto simp: no_collision_def)
    then have "tag it = tag it'" using leaf_preimage_inj(2)[OF ty _ _ eq] it it' prems(6,7) TreeNode
      by (cases "ty = tnTRANSACTION_NM") (auto simp: item_ok_def keyed_def)
    moreover have "idata it = idata it'" using leaf_preimage_inj(1)[OF ty _ _ eq] it it' by (auto simp: item_ok_def)
    ultimately show ?thesis using TreeNode it it' by simp
  next
    case (InnerNode ds)
    then have "\<not> inner_isEmpty ds" using prems(2) inner_isEmpty_items node_ok_nonempty by blast
    then have "leaf_preimage it ty = inner_preimage sha ds"
      using prems(3-5) it nc InnerNode by (auto simp: no_collision_def node_hash_inner hashed_inner)
    then show ?thesis using leaf_not_inner[OF ty] by blast
  qed
next
  case (InnerNode cs)
  note prems = InnerNode.prems and IH = InnerNode.IH
  then have k: "kids_ok ty p cs" "\<not> inner_isEmpty cs"
    using inner_isEmpty_items node_ok_nonempty by (auto simp: node_ok_inner_iff)
  show ?case
  proof (cases n')
    case (TreeNode it' t')
    then have "leaf_preimage it' ty = inner_preimage sha cs"
      using prems(2-5) nc k by (auto simp: no_collision_def node_hash_inner hashed_inner node_ok_leaf)
    then show ?thesis using leaf_not_inner[OF ty] by blast
  next
    case (InnerNode ds)
    then have k': "kids_ok ty p ds" "\<not> inner_isEmpty ds"
      using prems(2) inner_isEmpty_items node_ok_nonempty by (auto simp: node_ok_inner_iff)
    have A: "hashed sha (InnerNode cs) \<subseteq> A" "hashed sha (InnerNode ds) \<subseteq> A" using prems(3,4) InnerNode by auto
    have eq: "inner_preimage sha cs = inner_preimage sha ds"
      using prems(5) A nc k k' InnerNode by (auto simp: no_collision_def node_hash_inner hashed_inner)
    have "cs = ds"
    proof (rule kids_hash_inj[OF k(1) k'(1) nc A eq])
      fix i c d assume c: "getChild cs i = Some c" "getChild ds i = Some d" "node_hash sha c = node_hash sha d"
      have "keyed sha ty (items c)" "keyed sha ty (items d)"
        using prems(6,7) InnerNode child_items_nib[OF k(1), of i] child_items_nib[OF k'(1), of i] c(1,2) by (auto simp: keyed_def)
      then show "c = d" using IH[OF getChild_mem[OF c(1)]] kids_ok_child(1)[OF k(1) c(1)] kids_ok_child(1)[OF k'(1) c(2)]
          hashed_child[OF c(1) A(1)] hashed_child[OF c(2) A(2)] c(3) by blast
    qed
    then show ?thesis using InnerNode by simp
  qed
qed

section \<open>Properties\<close>

lemma is_leaf_node_type: "is_leaf_type (node_type isT hasM)"
  by (simp add: is_leaf_type_def node_type_def)

lemma map_hash_inj:
  assumes m: "map_ok ty m" "map_ok ty m'" and ty: "is_leaf_type ty"
    and nc: "no_collision sha (hashed sha (smRoot m) \<union> hashed sha (smRoot m'))"
    and keyed: "keyed sha ty (items (smRoot m) \<union> items (smRoot m'))"
    and eq: "getHash sha m = getHash sha m'"
  shows "smRoot m = smRoot m'"
proof -
  obtain cs ds where c: "smRoot m = InnerNode cs" "kids_ok ty [] cs" "smRoot m' = InnerNode ds" "kids_ok ty [] ds"
    using m by (auto simp: map_ok_def)
  let ?A = "hashed sha (InnerNode cs) \<union> hashed sha (InnerNode ds)"
  have nc: "no_collision sha ?A" using nc c by simp
  have nz: "sha (inner_preimage sha cs) \<noteq> replicate 32 0" if "\<not> inner_isEmpty cs"
    using that nc by (auto simp: no_collision_def hashed_inner)
  have nz': "sha (inner_preimage sha ds) \<noteq> replicate 32 0" if "\<not> inner_isEmpty ds"
    using that nc by (auto simp: no_collision_def hashed_inner)
  have h: "node_hash sha (InnerNode cs) = node_hash sha (InnerNode ds)" using eq c by (simp add: getHash_def)
  have "cs = ds"
  proof (cases "inner_isEmpty cs")
    case True
    then have "inner_isEmpty ds" using h nz' by (auto simp: node_hash_inner split: if_splits)
    then have "getChild cs i = None \<and> getChild ds i = None" for i
      using True by (auto simp: inner_isEmpty_def getChild_def)
    then show ?thesis using c by (intro getChild_ext) (auto simp: kids_ok_def)
  next
    case False
    then have e: "\<not> inner_isEmpty ds" using h nz by (auto simp: node_hash_inner split: if_splits)
    have eq: "inner_preimage sha cs = inner_preimage sha ds"
      by (rule no_collisionD[OF nc]) (use h False e in \<open>simp_all add: node_hash_inner hashed_inner\<close>)
    show ?thesis
    proof (rule kids_hash_inj[OF c(2,4) nc _ _ eq])
      fix i x y assume x: "getChild cs i = Some x" "getChild ds i = Some y" "node_hash sha x = node_hash sha y"
      have "keyed sha ty (items x)" "keyed sha ty (items y)"
        using keyed child_items_nib[OF c(2), of i] child_items_nib[OF c(4), of i] x(1,2) c(1,3) by (auto simp: keyed_def)
      then show "x = y" using node_hash_inj[OF kids_ok_child(1)[OF c(2) x(1)] kids_ok_child(1)[OF c(4) x(2)]
          hashed_child[OF x(1)] hashed_child[OF x(2)] x(3) ty] nc by blast
    qed auto
  qed
  then show ?thesis using c by simp
qed

text \<open>
  C35. Two maps have the same root hash exactly when they hold the same items, whatever
  operations built them.  The hash function must not collide on the byte strings hashed in the two
  trees, have 32 bytes and not be zero on them; transactions without metadata have their own
  hash as key.
\<close>

theorem shamap_hash_faithful:
  assumes "map_ok (node_type isT hasM) m" "map_ok (node_type isT hasM) m'"
    and "no_collision sha (hashed sha (smRoot m) \<union> hashed sha (smRoot m'))"
    and "keyed sha (node_type isT hasM) (items (smRoot m) \<union> items (smRoot m'))"
  shows "getHash sha m = getHash sha m' \<longleftrightarrow> (\<forall>k. sm_peekItem k m = sm_peekItem k m')"
proof
  assume "getHash sha m = getHash sha m'"
  from map_hash_inj[OF assms(1,2) is_leaf_node_type assms(3,4) this]
  show "\<forall>k. sm_peekItem k m = sm_peekItem k m'" by (simp add: sm_peekItem_def findKey_def walkTowardsKey_def)
next
  assume "\<forall>k. sm_peekItem k m = sm_peekItem k m'"
  then have "sm_contents m = sm_contents m'"
    using sm_peekItem_contents[OF assms(1)] sm_peekItem_contents[OF assms(2)] by auto
  from map_unique[OF assms(1,2) this] show "getHash sha m = getHash sha m'" by (simp add: getHash_def)
qed

text \<open>An example hash, and two account-state maps of one item each.\<close>

definition toy_sha :: "blob \<Rightarrow> blob" where
  "toy_sha x = replicate 30 1 @ [of_nat (length x), if 66 < length x then x ! 66 else 0]"

definition state_map :: "SHAMapItem \<Rightarrow> SHAMap" where
  "state_map it = \<lparr>smState = Modifying, smRoot = InnerNode (setChild newInner 1 (Some (TreeNode it tnACCOUNT_STATE)))\<rparr>"

lemma state_map_ok:
  assumes "item_ok it" "nib 0 (tag it) = 1"
  shows "map_ok tnACCOUNT_STATE (state_map it)"
proof -
  have "kids_ok tnACCOUNT_STATE [] (setChild newInner 1 (Some (TreeNode it tnACCOUNT_STATE)))"
    using assms by (intro kids_ok_setChild kids_ok_newInner) (auto simp: node_ok_leaf has_prefix_def)
  then show ?thesis by (simp add: map_ok_def state_map_def)
qed

theorem shamap_hash_faithful_witness:
  "getHash toy_sha (state_map item_a) = getHash toy_sha (state_map item_b2) \<longleftrightarrow>
   (\<forall>k. sm_peekItem k (state_map item_a) = sm_peekItem k (state_map item_b2))"
proof (rule shamap_hash_faithful[where isT = False and hasM = False])
  have "nib 0 (tag item_a) = 1" "nib 0 (tag item_b2) = 1" by code_simp+
  then show "map_ok (node_type False False) (state_map item_a)" "map_ok (node_type False False) (state_map item_b2)"
    using state_map_ok by (simp_all add: node_type_def)
  show "no_collision toy_sha (hashed toy_sha (smRoot (state_map item_a)) \<union> hashed toy_sha (smRoot (state_map item_b2)))"
    by code_simp
  show "keyed toy_sha (node_type False False) (items (smRoot (state_map item_a)) \<union> items (smRoot (state_map item_b2)))"
    by (simp add: keyed_def node_type_def)
qed

end
