(* ===== verification/SHAMap_Delta.thy ===== *)
theory SHAMap_Delta
  imports SHAMap_Hash
begin

text \<open>
  \<^verbatim>\<open>SHAMap::compare\<close>: the traversal records exactly the keys at which two maps differ, until its
  limit is reached.  The traversals are described by the list of differences they record; the
  limit only cuts that list.
\<close>

section \<open>Recorded differences\<close>

type_synonym diff = "blob \<times> SHAMapItem option \<times> SHAMapItem option"

fun feed :: "diff list \<Rightarrow> Delta \<times> int \<Rightarrow> delta_state" where
  "feed [] s = (True, s)"
| "feed ((k, v) # es) s = go_on (note_diff k v s) (feed es)"

lemma go_on_True [simp]: "go_on (True, s) f = f s"
  by (simp add: go_on_def)

lemma go_on_assoc: "go_on (go_on r f) g = go_on r (\<lambda>s. go_on (f s) g)"
  by (auto simp: go_on_def split: prod.splits)

lemma feed_append: "feed (xs @ ys) s = go_on (feed xs s) (feed ys)"
proof (induction xs arbitrary: s)
  case (Cons e xs)
  then have "feed (xs @ ys) = (\<lambda>s. go_on (feed xs s) (feed ys))" by blast
  then show ?case by (cases e) (simp add: go_on_assoc)
qed simp

lemma bu_compare_0: "length a = length b \<Longrightarrow> bu_compare a b = 0 \<longleftrightarrow> a = b"
  by (induction a b rule: bu_compare.induct) auto

lemma bu_less_linear: "length a = length b \<Longrightarrow> bu_less a b \<or> a = b \<or> bu_less b a"
  using bu_compare_0[of a b] bu_compare_swap[of a b] by (auto simp: bu_less_def)

lemma bu_less_trans: "length a = length b \<Longrightarrow> length b = length c \<Longrightarrow> bu_less a b \<Longrightarrow> bu_less b c \<Longrightarrow> bu_less a c"
  using bu_compare_val[of a b] bu_compare_val[of b c] bu_compare_val[of a c] by (auto simp: bu_less_def split: if_splits)

definition delta_sorted :: "Delta \<Rightarrow> bool" where
  "delta_sorted d \<longleftrightarrow> sorted_wrt bu_less (map fst d) \<and> (\<forall>k\<in>fst ` set d. length k = 32)"

lemma delta_insert_set:
  "delta_sorted d \<Longrightarrow> length k = 32 \<Longrightarrow> k \<notin> fst ` set d \<Longrightarrow> set (delta_insert k v d) = insert (k, v) (set d)"
proof (induction d)
  case (Cons x r)
  obtain k' v' where x: "x = (k', v')" by (cases x)
  then have "bu_less k k' \<or> bu_less k' k" using bu_less_linear[of k k'] Cons.prems by (auto simp: delta_sorted_def)
  moreover have "delta_sorted r" using Cons.prems(1) by (auto simp: delta_sorted_def)
  ultimately show ?case using Cons.IH Cons.prems x by auto
qed simp

lemma delta_insert_sorted:
  "delta_sorted d \<Longrightarrow> length k = 32 \<Longrightarrow> k \<notin> fst ` set d \<Longrightarrow> delta_sorted (delta_insert k v d)"
proof (induction d)
  case (Cons x r)
  obtain k' v' where x: "x = (k', v')" by (cases x)
  have r: "delta_sorted r" "k \<notin> fst ` set r" "length k' = 32" "\<forall>l\<in>fst ` set r. bu_less k' l"
    using Cons.prems x by (auto simp: delta_sorted_def)
  show ?case
  proof (cases "bu_less k k'")
    case True
    then have "\<forall>l\<in>fst ` set r. bu_less k l"
      using r(1,3,4) Cons.prems(2) bu_less_trans[of k k'] by (auto simp: delta_sorted_def)
    then show ?thesis using True Cons.prems x by (auto simp: delta_sorted_def)
  next
    case False
    then have "bu_less k' k" using bu_less_linear[of k k'] Cons.prems x r by auto
    then show ?thesis
      using False Cons.IH[OF r(1) Cons.prems(2) r(2)] delta_insert_set[OF r(1) Cons.prems(2) r(2), of v] r x
      by (auto simp: delta_sorted_def)
  qed
qed (simp add: delta_sorted_def)

text \<open>What the limit lets through.\<close>

lemma feed_ok:
  assumes "delta_sorted d" "distinct (map fst es)" "\<forall>k\<in>fst ` set es. length k = 32" "fst ` set es \<inter> fst ` set d = {}" "0 < n"
  shows "\<exists>d'. feed es (d, n) = (int (length es) < n, d', n - int (length (take (nat n) es))) \<and>
    delta_sorted d' \<and> set d' = set d \<union> set (take (nat n) es)"
  using assms
proof (induction es arbitrary: d n)
  case (Cons e es)
  obtain k v where e: "e = (k, v)" by (cases e)
  have ins: "set (delta_insert k v d) = insert (k, v) (set d)" "delta_sorted (delta_insert k v d)"
    using Cons.prems e by (simp_all add: delta_insert_set delta_insert_sorted)
  have tk: "nat n = Suc (nat (n - 1))" using Cons.prems(5) by simp
  show ?case
  proof (cases "0 < n - 1")
    case True
    from Cons.IH[OF ins(2), of "n - 1"] Cons.prems True e ins(1) obtain d' where
      "feed es (delta_insert k v d, n - 1) = (int (length es) < n - 1, d', n - 1 - int (length (take (nat (n - 1)) es)))"
      "delta_sorted d'" "set d' = set (delta_insert k v d) \<union> set (take (nat (n - 1)) es)" by auto
    then show ?thesis using True e ins(1) unfolding tk by (auto simp: note_diff_def go_on_def)
  next
    case False
    then have "n = 1" using Cons.prems(5) by simp
    then show ?thesis using e ins by (auto simp: note_diff_def go_on_def)
  qed
qed (simp add: note_diff_def)

section \<open>One branch against one item\<close>

fun branch_diffs :: "SHAMapItem list \<Rightarrow> SHAMapItem option \<Rightarrow> bool \<Rightarrow> bool \<Rightarrow> diff list" where
  "branch_diffs [] other isF eb =
     (case other of Some y \<Rightarrow> if \<not> eb then [(tag y, delta_ref isF None (Some y))] else [] | None \<Rightarrow> [])"
| "branch_diffs (it # its) other isF eb =
     (case other of
        None \<Rightarrow> (tag it, delta_ref isF (Some it) None) # branch_diffs its other isF eb
      | Some y \<Rightarrow>
          if eb \<or> tag it \<noteq> tag y then (tag it, delta_ref isF (Some it) None) # branch_diffs its other isF eb
          else if idata it \<noteq> idata y then (tag it, delta_ref isF (Some it) (Some y)) # branch_diffs its other isF True
          else branch_diffs its other isF True)"

text \<open>The traversal with its stack visits the leaves from the last to the first.\<close>

lemma walkBranch_loop_feed:
  "walkBranch_loop st other isF eb = feed (branch_diffs (concat (map (\<lambda>n. rev (leaves n)) st)) other isF eb)"
proof (induction "sum_list (map (Suc \<circ> size) st)" arbitrary: st eb other rule: less_induct)
  case less
  show ?case
  proof (cases st)
    case Nil
    then show ?thesis by (auto simp: fun_eq_iff go_on_def note_diff_def split: option.splits)
  next
    case (Cons n r)
    show ?thesis
    proof (cases n)
      case (TreeNode it ty)
      have IH: "walkBranch_loop r other' isF eb' = feed (branch_diffs (concat (map (\<lambda>n. rev (leaves n)) r)) other' isF eb')" for other' eb'
        using less[of r] Cons by simp
      show ?thesis unfolding fun_eq_iff using Cons TreeNode by (cases other) (simp_all add: IH)
    next
      case (InnerNode cs)
      have "sum_list (map (Suc \<circ> size) (rev (branches cs) @ r)) < sum_list (map (Suc \<circ> size) st)"
        using sum_size_branches[of cs] Cons InnerNode by (simp add: rev_map[symmetric])
      moreover have "concat (map (\<lambda>n. rev (leaves n)) (rev (branches cs))) = rev (leaves (InnerNode cs))"
        by (simp add: leaves_branches rev_concat rev_map comp_def)
      ultimately show ?thesis unfolding fun_eq_iff using less[of "rev (branches cs) @ r"] Cons InnerNode by simp
    qed
  qed
qed

lemma walkBranch_feed:
  "walkBranch n other isF = feed (branch_diffs (rev (leaves n)) other isF (other = None))"
  by (simp add: fun_eq_iff walkBranch_def walkBranch_loop_feed)

definition item_map :: "SHAMapItem list \<Rightarrow> blob \<rightharpoonup> SHAMapItem" where
  "item_map its = map_of (map (\<lambda>it. (tag it, it)) its)"

definition diff_set :: "bool \<Rightarrow> (blob \<rightharpoonup> SHAMapItem) \<Rightarrow> (blob \<rightharpoonup> SHAMapItem) \<Rightarrow> diff set" where
  "diff_set isF f g = {(k, v). f k \<noteq> g k \<and> v = delta_ref isF (f k) (g k)}"

definition single :: "SHAMapItem \<Rightarrow> blob \<rightharpoonup> SHAMapItem" where
  "single y k = (if k = tag y then Some y else None)"

lemma item_map_simps [simp]: "item_map [] = Map.empty" "item_map (it # its) = (item_map its)(tag it \<mapsto> it)"
  by (simp_all add: item_map_def fun_eq_iff)

lemma item_map_None: "item_map its k = None \<longleftrightarrow> k \<notin> tag ` set its"
  by (induction its) auto

lemma diff_set_upd:
  assumes "f k = None" "g k = None"
  shows "diff_set isF (f(k \<mapsto> it)) g = insert (k, delta_ref isF (Some it) None) (diff_set isF f g)"
proof (rule set_eqI)
  fix x :: diff
  show "x \<in> diff_set isF (f(k \<mapsto> it)) g \<longleftrightarrow> x \<in> insert (k, delta_ref isF (Some it) None) (diff_set isF f g)"
    using assms by (cases x; cases "fst x = k") (simp_all add: diff_set_def)
qed

lemma branch_diffs_all:
  assumes "distinct (map tag its)" "other = None \<or> eb"
  shows "map fst (branch_diffs its other isF eb) = map tag its"
    "set (branch_diffs its other isF eb) = diff_set isF (item_map its) Map.empty"
  using assms
proof (induction its)
  case Nil
  case 2
  then show ?case by (auto simp: diff_set_def split: option.splits)
next
  case (Cons it its)
  case 2
  then have "item_map its (tag it) = None" by (simp add: item_map_None)
  from diff_set_upd[of "item_map its" "tag it" Map.empty isF it, OF this] have
    "diff_set isF (item_map (it # its)) Map.empty =
      insert (tag it, delta_ref isF (Some it) None) (diff_set isF (item_map its) Map.empty)" by simp
  then show ?case using Cons 2 by (cases other) (simp_all del: item_map_simps)
qed (auto split: option.splits)

lemma branch_diffs_one:
  assumes "distinct (map tag its)"
  shows "set (branch_diffs its (Some y) isF False) = diff_set isF (item_map its) (single y)"
    "distinct (map fst (branch_diffs its (Some y) isF False))"
proof -
  have "set (branch_diffs its (Some y) isF False) = diff_set isF (item_map its) (single y) \<and>
      distinct (map fst (branch_diffs its (Some y) isF False))"
    using assms
  proof (induction its)
    case Nil
    then show ?case by (auto simp: diff_set_def single_def split: if_splits)
  next
    case (Cons it its)
    then have n: "item_map its (tag it) = None" "distinct (map tag its)" by (simp_all add: item_map_None)
    show ?case
    proof (cases "tag it = tag y")
      case False
      then have "diff_set isF (item_map (it # its)) (single y) =
          insert (tag it, delta_ref isF (Some it) None) (diff_set isF (item_map its) (single y))"
        using n(1) by (simp add: diff_set_upd single_def)
      moreover have "tag it \<notin> fst ` diff_set isF (item_map its) (single y)" using n(1) False by (auto simp: diff_set_def single_def)
      ultimately show ?thesis using Cons.IH[OF n(2)] False by (simp del: item_map_simps)
    next
      case True
      note all = branch_diffs_all[OF n(2), of "Some y" True isF]
      have "it = y \<longleftrightarrow> idata it = idata y" using True by (cases it; cases y) simp
      then have "diff_set isF (item_map (it # its)) (single y) =
          (if idata it = idata y then {} else {(tag it, delta_ref isF (Some it) (Some y))}) \<union>
          diff_set isF (item_map its) Map.empty"
        using True n(1) by (auto simp: diff_set_def single_def split: if_splits)
      then show ?thesis using all True Cons.prems by (simp del: item_map_simps)
    qed
  qed
  then show "set (branch_diffs its (Some y) isF False) = diff_set isF (item_map its) (single y)"
    "distinct (map fst (branch_diffs its (Some y) isF False))" by auto
qed

section \<open>Two trees\<close>

definition sub_ok :: "TNType \<Rightarrow> nat list \<Rightarrow> SHAMapNode \<Rightarrow> bool" where
  "sub_ok ty p n \<longleftrightarrow> (case n of TreeNode it t \<Rightarrow> node_ok ty p n | InnerNode cs \<Rightarrow> kids_ok ty p cs)"

abbreviation node_map :: "SHAMapNode \<Rightarrow> blob \<rightharpoonup> SHAMapItem" where
  "node_map n \<equiv> item_map (leaves n)"

definition child_map :: "SHAMapNode option \<Rightarrow> blob \<rightharpoonup> SHAMapItem" where
  "child_map c = (case c of None \<Rightarrow> Map.empty | Some n \<Rightarrow> node_map n)"

lemma child_map_simps [simp]: "child_map None = Map.empty" "child_map (Some n) = node_map n"
  by (simp_all add: child_map_def)

lemma node_ok_sub_ok: "node_ok ty p n \<Longrightarrow> sub_ok ty p n"
  by (cases n) (auto simp: sub_ok_def node_ok_inner_iff)

lemma sub_ok_sorted: "sub_ok ty p n \<Longrightarrow> sorted_wrt by_key (leaves n)"
  by (cases n) (auto simp: sub_ok_def intro: kids_sorted node_sorted kids_ok_child(1))

lemma sub_ok_distinct: "sub_ok ty p n \<Longrightarrow> distinct (map tag (leaves n))"
  by (rule sorted_by_key_tags[OF sub_ok_sorted])

lemma item_map_Some:
  assumes "distinct (map tag xs)"
  shows "item_map xs k = Some it \<longleftrightarrow> it \<in> set xs \<and> tag it = k"
  using assms unfolding item_map_def by (subst map_of_eq_Some_iff) (auto simp: comp_def)

lemma item_map_rev:
  assumes "distinct (map tag xs)"
  shows "item_map (rev xs) = item_map xs"
proof
  fix k
  have "item_map (rev xs) k = Some it \<longleftrightarrow> item_map xs k = Some it" for it
    using assms by (simp add: item_map_Some rev_map[symmetric])
  then show "item_map (rev xs) k = item_map xs k" by (metis not_None_eq)
qed

lemma dom_item_map: "dom (item_map xs) = tag ` set xs"
  by (auto simp: dom_def item_map_None)

lemma kids_sub_ok: "kids_ok ty p cs \<Longrightarrow> sub_ok ty p (InnerNode cs)"
  by (simp add: sub_ok_def)

lemma child_distinct: "kids_ok ty p cs \<Longrightarrow> getChild cs i = Some c \<Longrightarrow> distinct (map tag (leaves c))"
  by (rule sub_ok_distinct[OF node_ok_sub_ok[OF kids_ok_child(1)]])

lemma child_map_Some:
  assumes "kids_ok ty p cs"
  shows "child_map (getChild cs i) k = Some it \<longleftrightarrow> it \<in> child_items (getChild cs i) \<and> tag it = k"
  using child_distinct[OF assms, of i] by (cases "getChild cs i") (auto simp: item_map_Some)

lemma node_map_inner:
  assumes "kids_ok ty p cs"
  shows "node_map (InnerNode cs) k = child_map (getChild cs (nib (length p) k)) k"
proof -
  have "node_map (InnerNode cs) k = Some it \<longleftrightarrow> child_map (getChild cs (nib (length p) k)) k = Some it" for it
    using kids_key[OF assms, of k] item_map_Some[OF sub_ok_distinct[OF kids_sub_ok[OF assms]], of k it]
      child_map_Some[OF assms, of _ k it] by auto
  then show ?thesis by (metis not_None_eq)
qed

lemma child_map_nib:
  assumes "kids_ok ty p cs" "child_map (getChild cs i) k \<noteq> None"
  shows "nib (length p) k = i"
proof -
  obtain it where "it \<in> child_items (getChild cs i)" "tag it = k"
    using assms(2) child_map_Some[OF assms(1), of i k] by auto
  then show ?thesis using kids_ok_items(3)[OF assms(1)] by blast
qed

text \<open>The differences of two inner nodes, branch by branch.\<close>

lemma diff_set_kids:
  assumes "kids_ok ty p cs" "kids_ok ty p ds"
  shows "diff_set True (node_map (InnerNode cs)) (node_map (InnerNode ds)) =
    (\<Union>i<16. diff_set True (child_map (getChild cs i)) (child_map (getChild ds i)))"
proof (rule set_eqI)
  fix x :: diff
  obtain k v where x: "x = (k, v)" by (cases x)
  have "i = nib (length p) k" if "x \<in> diff_set True (child_map (getChild cs i)) (child_map (getChild ds i))" for i
  proof -
    have "child_map (getChild cs i) k \<noteq> None \<or> child_map (getChild ds i) k \<noteq> None"
      using that x by (auto simp: diff_set_def)
    then show ?thesis using child_map_nib[OF assms(1)] child_map_nib[OF assms(2)] by blast
  qed
  then have "x \<in> (\<Union>i<16. diff_set True (child_map (getChild cs i)) (child_map (getChild ds i))) \<longleftrightarrow>
      x \<in> diff_set True (child_map (getChild cs (nib (length p) k))) (child_map (getChild ds (nib (length p) k)))"
    using nib_less by blast
  then show "x \<in> diff_set True (node_map (InnerNode cs)) (node_map (InnerNode ds)) \<longleftrightarrow>
      x \<in> (\<Union>i<16. diff_set True (child_map (getChild cs i)) (child_map (getChild ds i)))"
    unfolding x by (simp add: diff_set_def node_map_inner[OF assms(1)] node_map_inner[OF assms(2)])
qed

lemma diff_set_swap: "diff_set False f g = diff_set True g f"
  by (auto simp: diff_set_def delta_ref_def)

text \<open>What \<^const>\<open>compare_branches\<close> records for one branch.\<close>

definition one_sided :: "(blob \<Rightarrow> blob) \<Rightarrow> SHAMapNode option list \<Rightarrow> SHAMapNode option list \<Rightarrow> nat \<Rightarrow> diff list" where
  "one_sided sha cs ds i =
     (if getChildHash sha cs i = getChildHash sha ds i then []
      else case (getChild cs i, getChild ds i) of
             (Some c, None) \<Rightarrow> branch_diffs (rev (leaves c)) None True True
           | (None, Some d) \<Rightarrow> branch_diffs (rev (leaves d)) None False True
           | _ \<Rightarrow> [])"

lemma compare_branches_feed: "compare_branches sha cs ds is = feed (concat (map (one_sided sha cs ds) is))"
proof (induction "is")
  case (Cons i "is")
  show ?case
    by (cases "getChild cs i"; cases "getChild ds i")
      (auto simp: fun_eq_iff Cons one_sided_def walkBranch_feed feed_append)
qed (simp add: fun_eq_iff)

lemma one_sided_ok:
  assumes k: "kids_ok ty p cs" "kids_ok ty p ds"
  shows "distinct (map fst (one_sided sha cs ds i))"
    "getChildHash sha cs i \<noteq> getChildHash sha ds i \<Longrightarrow> child_pair sha cs ds i = None \<Longrightarrow>
      set (one_sided sha cs ds i) = diff_set True (child_map (getChild cs i)) (child_map (getChild ds i))"
    "set (one_sided sha cs ds i) \<subseteq> diff_set True (child_map (getChild cs i)) (child_map (getChild ds i))"
    "child_pair sha cs ds i \<noteq> None \<Longrightarrow> one_sided sha cs ds i = []"
proof -
  note dc = child_distinct[OF k(1), of i] and dd = child_distinct[OF k(2), of i]
  have all: "map fst (branch_diffs (rev (leaves c)) None isF True) = map tag (rev (leaves c))"
    "set (branch_diffs (rev (leaves c)) None isF True) = diff_set isF (node_map c) Map.empty"
    if "distinct (map tag (leaves c))" for c isF
    using branch_diffs_all[of "rev (leaves c)" None True isF] that by (simp_all add: rev_map[symmetric] item_map_rev)
  show "distinct (map fst (one_sided sha cs ds i))"
    using dc dd by (cases "getChild cs i"; cases "getChild ds i") (simp_all add: one_sided_def all(1) rev_map[symmetric])
  show "set (one_sided sha cs ds i) = diff_set True (child_map (getChild cs i)) (child_map (getChild ds i))"
    if "getChildHash sha cs i \<noteq> getChildHash sha ds i" "child_pair sha cs ds i = None"
    using that dc dd by (cases "getChild cs i"; cases "getChild ds i")
      (simp_all add: one_sided_def child_pair_def all(2) diff_set_swap, simp add: diff_set_def)
  show "set (one_sided sha cs ds i) \<subseteq> diff_set True (child_map (getChild cs i)) (child_map (getChild ds i))"
    using dc dd by (cases "getChild cs i"; cases "getChild ds i") (simp_all add: one_sided_def all(2) diff_set_swap)
  show "child_pair sha cs ds i \<noteq> None \<Longrightarrow> one_sided sha cs ds i = []"
    by (cases "getChild cs i"; cases "getChild ds i") (auto simp: one_sided_def child_pair_def split: if_splits)
qed

lemma distinct_concat_by:
  assumes "distinct is" "\<And>i. i \<in> set is \<Longrightarrow> distinct (map fst (f i))" "\<And>i x. i \<in> set is \<Longrightarrow> x \<in> set (f i) \<Longrightarrow> g (fst x) = i"
  shows "distinct (map fst (concat (map f is)))"
  using assms
proof (induction "is")
  case (Cons i "is")
  have "fst x \<noteq> fst y" if "x \<in> set (f i)" "y \<in> set (f j)" "j \<in> set is" for x y j
    using Cons.prems(1,3) that by (metis distinct.simps(2) list.set_intros)
  then have "fst ` set (f i) \<inter> fst ` set (concat (map f is)) = {}" by auto
  then show ?case using Cons by simp
qed simp

definition pair_dom :: "SHAMapNode \<times> SHAMapNode \<Rightarrow> blob set" where
  "pair_dom x = tag ` (items (fst x) \<union> items (snd x))"

definition pair_diff :: "SHAMapNode \<times> SHAMapNode \<Rightarrow> diff set" where
  "pair_diff x = diff_set True (node_map (fst x)) (node_map (snd x))"

definition pair_ok :: "(blob \<Rightarrow> blob) \<Rightarrow> blob set \<Rightarrow> TNType \<Rightarrow> SHAMapNode \<times> SHAMapNode \<Rightarrow> bool" where
  "pair_ok sha A ty x \<longleftrightarrow> (\<exists>p. sub_ok ty p (fst x) \<and> sub_ok ty p (snd x)) \<and>
     hashed sha (fst x) \<union> hashed sha (snd x) \<subseteq> A \<and> keyed sha ty (items (fst x)) \<and> keyed sha ty (items (snd x))"

lemma fst_pair_diff: "fst ` pair_diff x \<subseteq> pair_dom x"
proof
  fix k assume "k \<in> fst ` pair_diff x"
  then have "node_map (fst x) k \<noteq> None \<or> node_map (snd x) k \<noteq> None" by (auto simp: pair_diff_def diff_set_def)
  then show "k \<in> pair_dom x" by (auto simp: item_map_None pair_dom_def)
qed

text \<open>A traversal that records the differences of one pair and goes on with a stack.\<close>

definition records :: "(Delta \<times> int \<Rightarrow> delta_state) \<Rightarrow> diff set \<Rightarrow> bool" where
  "records f D \<longleftrightarrow> (\<exists>es. f = feed es \<and> distinct (map fst es) \<and> set es = D)"

lemma records_then:
  assumes "distinct (map fst es)" "set es = D" "records f E" "fst ` D \<inter> fst ` E = {}"
  shows "records (\<lambda>s. go_on (feed es s) f) (D \<union> E)"
proof -
  obtain fs where fs: "f = feed fs" "distinct (map fst fs)" "set fs = E" using assms(3) by (auto simp: records_def)
  have "(\<lambda>s. go_on (feed es s) f) = feed (es @ fs)" by (simp add: fun_eq_iff feed_append fs(1))
  then show ?thesis using assms(1,2,4) fs(2,3) by (auto simp: records_def intro!: exI[of _ "es @ fs"])
qed

lemma records_diff:
  assumes "records f D" "E = D"
  shows "records f E"
  using assms by simp

lemma leaf_pair:
  assumes "sub_ok ty p (TreeNode x t)" "sub_ok ty p (TreeNode y u)"
  shows "\<exists>es. distinct (map fst es) \<and> set es = pair_diff (TreeNode x t, TreeNode y u) \<and>
    (\<forall>sha stack s. compare_loop sha ((TreeNode x t, TreeNode y u) # stack) s = go_on (feed es s) (compare_loop sha stack))"
proof (cases "tag x = tag y")
  case True
  then have eq: "x = y \<longleftrightarrow> idata x = idata y" by (cases x; cases y) simp
  have d: "pair_diff (TreeNode x t, TreeNode y u) = (if idata x = idata y then {} else {(tag x, Some x, Some y)})"
    using True eq by (auto simp: pair_diff_def diff_set_def delta_ref_def split: if_splits)
  show ?thesis
  proof (cases "idata x = idata y")
    case True
    then show ?thesis using d \<open>tag x = tag y\<close> by (intro exI[of _ "[]"]) simp
  next
    case False
    then show ?thesis using d \<open>tag x = tag y\<close>
      by (intro exI[of _ "[(tag x, Some x, Some y)]"]) (simp add: go_on_assoc)
  qed
next
  case False
  then have "pair_diff (TreeNode x t, TreeNode y u) = {(tag x, Some x, None), (tag y, None, Some y)}"
    by (auto simp: pair_diff_def diff_set_def delta_ref_def split: if_splits)
  then show ?thesis using False
    by (intro exI[of _ "[(tag x, Some x, None), (tag y, None, Some y)]"]) (simp add: go_on_assoc)
qed

lemma inner_leaf_pair:
  assumes "sub_ok ty p (InnerNode cs)"
  shows "\<exists>es. distinct (map fst es) \<and> set es = pair_diff (InnerNode cs, TreeNode y u) \<and>
      (\<forall>sha stack s. compare_loop sha ((InnerNode cs, TreeNode y u) # stack) s = go_on (feed es s) (compare_loop sha stack))"
    "\<exists>es. distinct (map fst es) \<and> set es = pair_diff (TreeNode y u, InnerNode cs) \<and>
      (\<forall>sha stack s. compare_loop sha ((TreeNode y u, InnerNode cs) # stack) s = go_on (feed es s) (compare_loop sha stack))"
proof -
  have d: "distinct (map tag (rev (leaves (InnerNode cs))))" using sub_ok_distinct[OF assms] by (simp add: rev_map[symmetric])
  have y: "item_map [y] = single y" by (auto simp: single_def)
  note one = branch_diffs_one[OF d, of y] and rv = item_map_rev[OF sub_ok_distinct[OF assms]]
  show "\<exists>es. distinct (map fst es) \<and> set es = pair_diff (InnerNode cs, TreeNode y u) \<and>
      (\<forall>sha stack s. compare_loop sha ((InnerNode cs, TreeNode y u) # stack) s = go_on (feed es s) (compare_loop sha stack))"
    using one[of True] y rv
    by (intro exI[of _ "branch_diffs (rev (leaves (InnerNode cs))) (Some y) True False"])
      (simp add: pair_diff_def walkBranch_feed del: item_map_simps)
  show "\<exists>es. distinct (map fst es) \<and> set es = pair_diff (TreeNode y u, InnerNode cs) \<and>
      (\<forall>sha stack s. compare_loop sha ((TreeNode y u, InnerNode cs) # stack) s = go_on (feed es s) (compare_loop sha stack))"
    using one[of False] y rv
    by (intro exI[of _ "branch_diffs (rev (leaves (InnerNode cs))) (Some y) False False"])
      (simp add: pair_diff_def walkBranch_feed diff_set_swap del: item_map_simps)
qed

lemma pair_dom_child:
  assumes "kids_ok ty p cs" "kids_ok ty p ds" "child_pair sha cs ds i = Some x" "k \<in> pair_dom x"
  shows "nib (length p) k = i" "k \<in> pair_dom (InnerNode cs, InnerNode ds)"
proof -
  have "fst x = the (getChild cs i)" "snd x = the (getChild ds i)" "getChild cs i \<noteq> None" "getChild ds i \<noteq> None"
    using assms(3) by (auto simp: child_pair_def split: if_splits option.splits)
  then have "items (fst x) = child_items (getChild cs i)" "items (snd x) = child_items (getChild ds i)" by auto
  then show "nib (length p) k = i" "k \<in> pair_dom (InnerNode cs, InnerNode ds)"
    using assms(4) unfolding pair_dom_def child_items_nib[OF assms(1)] child_items_nib[OF assms(2)] by auto
qed

lemma diff_set_nib:
  assumes "kids_ok ty p cs" "kids_ok ty p ds" "x \<in> diff_set True (child_map (getChild cs i)) (child_map (getChild ds i))"
  shows "nib (length p) (fst x) = i"
proof -
  have "child_map (getChild cs i) (fst x) \<noteq> None \<or> child_map (getChild ds i) (fst x) \<noteq> None"
    using assms(3) by (auto simp: diff_set_def)
  then show ?thesis using child_map_nib[OF assms(1)] child_map_nib[OF assms(2)] by blast
qed

lemma keyed_child:
  assumes "kids_ok ty p cs" "keyed sha ty (items (InnerNode cs))" "getChild cs i = Some c"
  shows "keyed sha ty (items c)"
  using assms(2) child_items_nib[OF assms(1), of i] assms(3) by (auto simp: keyed_def)

lemma same_hash_same_child:
  assumes k: "kids_ok ty p cs" "kids_ok ty p ds" and ok: "pair_ok sha A ty (InnerNode cs, InnerNode ds)"
    and nc: "no_collision sha A" "is_leaf_type ty" and eq: "getChildHash sha cs i = getChildHash sha ds i"
  shows "getChild cs i = getChild ds i"
proof (rule child_blob_inj[OF k nc(1)])
  show h: "hashed sha (InnerNode cs) \<subseteq> A" "hashed sha (InnerNode ds) \<subseteq> A" using ok by (simp_all add: pair_ok_def)
  have kd: "keyed sha ty (items (InnerNode cs))" "keyed sha ty (items (InnerNode ds))" using ok by (simp_all add: pair_ok_def)
  show "child_blob sha (getChild cs i) = child_blob sha (getChild ds i)" using eq by (simp add: getChildHash_def child_blob_def)
  fix c d assume c: "getChild cs i = Some c" "getChild ds i = Some d" "node_hash sha c = node_hash sha d"
  show "c = d"
    by (rule node_hash_inj[OF kids_ok_child(1)[OF k(1) c(1)] kids_ok_child(1)[OF k(2) c(2)]
        hashed_child[OF c(1) h(1)] hashed_child[OF c(2) h(2)] c(3) nc(2)
        keyed_child[OF k(1) kd(1) c(1)] keyed_child[OF k(2) kd(2) c(2)] nc(1)])
qed

lemma child_pair_ok:
  assumes k: "kids_ok ty p cs" "kids_ok ty p ds" and ok: "pair_ok sha A ty (InnerNode cs, InnerNode ds)"
    and x: "child_pair sha cs ds i = Some x"
  shows "pair_ok sha A ty x" "pair_diff x = diff_set True (child_map (getChild cs i)) (child_map (getChild ds i))"
proof -
  have c: "getChild cs i = Some (fst x)" "getChild ds i = Some (snd x)"
    using x by (auto simp: child_pair_def split: if_splits option.splits)
  have "sub_ok ty (p @ [i]) (fst x)" "sub_ok ty (p @ [i]) (snd x)"
    using kids_ok_child(1)[OF k(1) c(1)] kids_ok_child(1)[OF k(2) c(2)] by (simp_all add: node_ok_sub_ok)
  moreover have "hashed sha (fst x) \<subseteq> A" "hashed sha (snd x) \<subseteq> A"
    using hashed_child[OF c(1)] hashed_child[OF c(2)] ok by (simp_all add: pair_ok_def)
  moreover have "keyed sha ty (items (fst x))" "keyed sha ty (items (snd x))"
    using keyed_child[OF k(1) _ c(1)] keyed_child[OF k(2) _ c(2)] ok by (simp_all add: pair_ok_def)
  ultimately show "pair_ok sha A ty x" unfolding pair_ok_def by blast
  show "pair_diff x = diff_set True (child_map (getChild cs i)) (child_map (getChild ds i))"
    using c by (simp add: pair_diff_def)
qed

text \<open>The differences of a branch are recorded at once or are those of the pair that is pushed.\<close>

lemma branch_split:
  assumes k: "kids_ok ty p cs" "kids_ok ty p ds" and ok: "pair_ok sha A ty (InnerNode cs, InnerNode ds)"
    and nc: "no_collision sha A" "is_leaf_type ty"
  shows "diff_set True (child_map (getChild cs i)) (child_map (getChild ds i)) =
    set (one_sided sha cs ds i) \<union> (case child_pair sha cs ds i of None \<Rightarrow> {} | Some x \<Rightarrow> pair_diff x)"
proof (cases "getChildHash sha cs i = getChildHash sha ds i")
  case True
  then show ?thesis using same_hash_same_child[OF assms True] by (simp add: one_sided_def child_pair_def diff_set_def)
next
  case False
  show ?thesis
  proof (cases "child_pair sha cs ds i")
    case None
    then show ?thesis using one_sided_ok(2)[OF k False] by simp
  next
    case (Some x)
    then show ?thesis using one_sided_ok(4)[OF k, of sha i] child_pair_ok(2)[OF k ok Some] by simp
  qed
qed

lemma set_pushed: "set (pushed_pairs sha cs ds) = {x. \<exists>i<16. child_pair sha cs ds i = Some x}"
  by (auto simp: pushed_pairs_def List.map_filter_def image_iff) (metis atLeastLessThan_iff le0 option.distinct(1) option.sel)

lemma inner_pair_diff:
  assumes k: "kids_ok ty p cs" "kids_ok ty p ds" and ok: "pair_ok sha A ty (InnerNode cs, InnerNode ds)"
    and nc: "no_collision sha A" "is_leaf_type ty"
  shows "pair_diff (InnerNode cs, InnerNode ds) =
    set (concat (map (one_sided sha cs ds) [0..<16])) \<union> (\<Union>x\<in>set (pushed_pairs sha cs ds). pair_diff x)"
proof -
  have "pair_diff (InnerNode cs, InnerNode ds) =
      (\<Union>i<16. set (one_sided sha cs ds i) \<union> (case child_pair sha cs ds i of None \<Rightarrow> {} | Some x \<Rightarrow> pair_diff x))"
    using diff_set_kids[OF k] branch_split[OF assms] by (simp add: pair_diff_def)
  also have "\<dots> = (\<Union>i<16. set (one_sided sha cs ds i)) \<union>
      (\<Union>i<16. case child_pair sha cs ds i of None \<Rightarrow> {} | Some x \<Rightarrow> pair_diff x)" by blast
  also have "(\<Union>i<16. case child_pair sha cs ds i of None \<Rightarrow> {} | Some x \<Rightarrow> pair_diff x) =
      (\<Union>x\<in>set (pushed_pairs sha cs ds). pair_diff x)"
    unfolding set_pushed by (force split: option.splits)
  finally show ?thesis by (simp add: atLeast0LessThan)
qed

lemma sorted_wrt_map_filter:
  assumes "distinct is" "\<And>i j x y. i \<noteq> j \<Longrightarrow> f i = Some x \<Longrightarrow> f j = Some y \<Longrightarrow> R x y"
  shows "sorted_wrt R (List.map_filter f is)"
  using assms(1)
proof (induction "is")
  case (Cons i "is")
  have "R x y" if "f i = Some x" "y \<in> set (List.map_filter f is)" for x y
    using that Cons.prems assms(2)[of i _ x y] by (fastforce simp: List.map_filter_def)
  then show ?case using Cons by (cases "f i") (simp_all add: map_filter_simps)
qed (simp add: map_filter_simps)

abbreviation apart :: "(SHAMapNode \<times> SHAMapNode) list \<Rightarrow> bool" where
  "apart st \<equiv> sorted_wrt (\<lambda>x y. pair_dom x \<inter> pair_dom y = {}) st"

lemma pushed_apart:
  assumes k: "kids_ok ty p cs" "kids_ok ty p ds" and st: "apart ((InnerNode cs, InnerNode ds) # stack)"
  shows "apart (pushed_pairs sha cs ds @ stack)"
proof -
  note dom = pair_dom_child[OF k, of sha]
  have "apart (List.map_filter (child_pair sha cs ds) [0..<16])"
    by (rule sorted_wrt_map_filter) (use dom(1) in \<open>auto, blast\<close>)
  then have "apart (pushed_pairs sha cs ds)"
    unfolding pushed_pairs_def sorted_wrt_rev by (simp add: Int_commute)
  moreover have "pair_dom x \<subseteq> pair_dom (InnerNode cs, InnerNode ds)" if "x \<in> set (pushed_pairs sha cs ds)" for x
    using that dom(2) unfolding set_pushed by blast
  ultimately show ?thesis using st by (fastforce simp: sorted_wrt_append)
qed

lemma simple_pair:
  assumes "pair_ok sha A ty x" "\<nexists>cs ds. x = (InnerNode cs, InnerNode ds)"
  shows "\<exists>es. distinct (map fst es) \<and> set es = pair_diff x \<and>
    (\<forall>sha stack s. compare_loop sha (x # stack) s = go_on (feed es s) (compare_loop sha stack))"
proof -
  obtain p n n' where x: "x = (n, n')" "sub_ok ty p n" "sub_ok ty p n'" using assms(1) by (cases x) (auto simp: pair_ok_def)
  show ?thesis
  proof (cases n)
    case (TreeNode it t)
    then show ?thesis using x leaf_pair inner_leaf_pair(2) by (cases n') blast+
  next
    case (InnerNode cs)
    then show ?thesis using x assms(2) inner_leaf_pair(1) by (cases n') blast+
  qed
qed

lemma fst_pair_diffs: "fst ` (\<Union>y\<in>Y. pair_diff y) \<subseteq> (\<Union>y\<in>Y. pair_dom y)"
  unfolding image_UN by (rule UN_mono[OF subset_refl fst_pair_diff])

lemma apart_diff:
  assumes "apart (x # stack)"
  shows "fst ` pair_diff x \<inter> fst ` (\<Union>y\<in>set stack. pair_diff y) = {}"
proof -
  have "pair_dom x \<inter> (\<Union>y\<in>set stack. pair_dom y) = {}" using assms by auto
  then show ?thesis using fst_pair_diff[of x] fst_pair_diffs[of "set stack"] by blast
qed

lemma one_sided_apart:
  assumes k: "kids_ok ty p cs" "kids_ok ty p ds" and st: "apart ((InnerNode cs, InnerNode ds) # stack)"
    and x: "x \<in> set (one_sided sha cs ds i)" "i < 16" and y: "y \<in> set (pushed_pairs sha cs ds @ stack)"
  shows "fst x \<notin> pair_dom y"
proof
  assume m: "fst x \<in> pair_dom y"
  have d: "x \<in> diff_set True (child_map (getChild cs i)) (child_map (getChild ds i))" using one_sided_ok(3)[OF k] x(1) by blast
  note nib = diff_set_nib[OF k d]
  consider j where "child_pair sha cs ds j = Some y" | "y \<in> set stack" using y by (auto simp: set_pushed)
  then show False
  proof cases
    case 1
    then have "i = j" using pair_dom_child(1)[OF k 1 m] nib by simp
    then show False using one_sided_ok(4)[OF k, of sha i] 1 x(1) by simp
  next
    case 2
    have "x \<in> pair_diff (InnerNode cs, InnerNode ds)" using diff_set_kids[OF k] d x(2) by (auto simp: pair_diff_def)
    then have "fst x \<in> pair_dom (InnerNode cs, InnerNode ds)" using fst_pair_diff by blast
    then show False using st 2 m by auto
  qed
qed

lemma inner_step:
  assumes k: "kids_ok ty p cs" "kids_ok ty p ds" and ok: "pair_ok sha A ty (InnerNode cs, InnerNode ds)"
    and nc: "no_collision sha A" "is_leaf_type ty" and st: "apart ((InnerNode cs, InnerNode ds) # stack)"
    and IH: "records (compare_loop sha (pushed_pairs sha cs ds @ stack)) (\<Union>x\<in>set (pushed_pairs sha cs ds @ stack). pair_diff x)"
  shows "records (compare_loop sha ((InnerNode cs, InnerNode ds) # stack))
    (\<Union>x\<in>set ((InnerNode cs, InnerNode ds) # stack). pair_diff x)"
proof -
  let ?es = "concat (map (one_sided sha cs ds) [0..<16])"
  let ?E = "\<Union>x\<in>set (pushed_pairs sha cs ds @ stack). pair_diff x"
  have "distinct (map fst ?es)"
  proof (rule distinct_concat_by)
    show "nib (length p) (fst x) = i" if "x \<in> set (one_sided sha cs ds i)" for i x
      using that one_sided_ok(3)[OF k] diff_set_nib[OF k] by blast
  qed (use one_sided_ok(1)[OF k] in simp_all)
  moreover have "fst x \<notin> (\<Union>y\<in>set (pushed_pairs sha cs ds @ stack). pair_dom y)" if "x \<in> set ?es" for x
    using that one_sided_apart[OF k st, of x sha] by (auto simp del: set_append)
  then have "fst ` set ?es \<inter> fst ` ?E = {}" using fst_pair_diffs[of "set (pushed_pairs sha cs ds @ stack)"] by blast
  ultimately have "records (\<lambda>s. go_on (feed ?es s) (compare_loop sha (pushed_pairs sha cs ds @ stack))) (set ?es \<union> ?E)"
    using IH by (intro records_then) simp_all
  moreover have "(\<lambda>s. go_on (feed ?es s) (compare_loop sha (pushed_pairs sha cs ds @ stack))) =
      compare_loop sha ((InnerNode cs, InnerNode ds) # stack)"
    by (simp add: fun_eq_iff compare_branches_feed)
  moreover have "set ?es \<union> ?E = (\<Union>x\<in>set ((InnerNode cs, InnerNode ds) # stack). pair_diff x)"
    using inner_pair_diff[OF k ok nc] by (simp add: Un_assoc)
  ultimately show ?thesis by simp
qed

lemma compare_records:
  assumes "\<forall>x\<in>set st. pair_ok sha A ty x" "no_collision sha A" "is_leaf_type ty" "apart st"
  shows "records (compare_loop sha st) (\<Union>x\<in>set st. pair_diff x)"
  using assms(1,4)
proof (induction "sum_list (map (Suc \<circ> size \<circ> fst) st)" arbitrary: st rule: less_induct)
  case less
  note IH = less.hyps and prems = less.prems
  show ?case
  proof (cases st)
    case Nil
    then show ?thesis by (simp add: records_def fun_eq_iff exI[of _ "[]"])
  next
    case (Cons x r)
    have x: "pair_ok sha A ty x" using prems Cons by simp
    show ?thesis
    proof (cases "\<exists>cs ds. x = (InnerNode cs, InnerNode ds)")
      case True
      then obtain cs ds where xe: "x = (InnerNode cs, InnerNode ds)" by blast
      then obtain p where k: "kids_ok ty p cs" "kids_ok ty p ds" using x by (auto simp: pair_ok_def sub_ok_def)
      have "sum_list (map (Suc \<circ> size \<circ> fst) (pushed_pairs sha cs ds @ r)) < sum_list (map (Suc \<circ> size \<circ> fst) st)"
        using sum_size_pushed[of sha cs ds] Cons xe by simp
      moreover have "\<forall>y\<in>set (pushed_pairs sha cs ds @ r). pair_ok sha A ty y"
        using child_pair_ok(1)[OF k x[unfolded xe]] prems(1) Cons unfolding set_append set_pushed by auto
      ultimately have "records (compare_loop sha (pushed_pairs sha cs ds @ r)) (\<Union>y\<in>set (pushed_pairs sha cs ds @ r). pair_diff y)"
        using pushed_apart[OF k] prems(2) Cons xe by (intro IH) simp_all
      from inner_step[OF k x[unfolded xe] assms(2,3) _ this] show ?thesis using prems(2) Cons xe by simp
    next
      case False
      from simple_pair[OF x False] obtain es where es: "distinct (map fst es)" "set es = pair_diff x"
        "compare_loop sha (x # r) = (\<lambda>s. go_on (feed es s) (compare_loop sha r))" by (auto simp: fun_eq_iff)
      have "records (compare_loop sha r) (\<Union>y\<in>set r. pair_diff y)" using prems Cons by (intro IH) simp_all
      from records_then[OF es(1,2) this apart_diff] show ?thesis using prems(2) Cons es(3) by simp
    qed
  qed
qed

section \<open>Properties\<close>

definition differences :: "SHAMap \<Rightarrow> SHAMap \<Rightarrow> diff set" where
  "differences m m' = {(k, v). sm_peekItem k m \<noteq> sm_peekItem k m' \<and> v = (sm_peekItem k m, sm_peekItem k m')}"

lemma differences_pair:
  assumes "map_ok ty m" "map_ok ty m'"
  shows "differences m m' = pair_diff (smRoot m, smRoot m')"
  by (auto simp: differences_def pair_diff_def diff_set_def delta_ref_def sm_peekItem_contents[OF assms(1)]
      sm_peekItem_contents[OF assms(2)] sm_contents_def item_map_def)

lemma root_pair_ok:
  assumes "map_ok ty m" "map_ok ty m'" "keyed sha ty (items (smRoot m) \<union> items (smRoot m'))"
  shows "pair_ok sha (hashed sha (smRoot m) \<union> hashed sha (smRoot m')) ty (smRoot m, smRoot m')"
  using assms by (auto simp: map_ok_def pair_ok_def sub_ok_def keyed_def intro!: exI[of _ "[]"])

lemma differences_keys:
  assumes "map_ok ty m" "map_ok ty m'" "x \<in> differences m m'"
  shows "length (fst x) = 32"
proof -
  have "fst x \<in> pair_dom (smRoot m, smRoot m')" using assms differences_pair fst_pair_diff by blast
  moreover have "item_ok it" if m: "map_ok ty n" and it: "it \<in> items (smRoot n)" for n it
  proof -
    obtain cs where "smRoot n = InnerNode cs" "kids_ok ty [] cs" using m by (auto simp: map_ok_def)
    then show ?thesis using it kids_ok_items(1) by (fastforce simp: items_inner)
  qed
  ultimately show ?thesis using assms by (auto simp: pair_dom_def item_ok_def)
qed

lemma delta_sorted_length: "delta_sorted d \<Longrightarrow> length d = card (set d)"
proof -
  assume "delta_sorted d"
  then have "sorted_wrt by_key (map (\<lambda>x. \<lparr>tag = fst x, idata = []\<rparr>) d)" by (simp add: delta_sorted_def sorted_wrt_map)
  from sorted_by_key_tags[OF this] have "distinct d" by (simp add: comp_def distinct_map)
  then show ?thesis by (simp add: distinct_card)
qed

text \<open>
  C36. \<^const>\<open>sm_compare\<close> records exactly the keys at which two maps differ, each with its item in
  the first and in the second map, in increasing order of the keys.  Of more than
  \<open>maxCount\<close> differences it records \<open>maxCount\<close>; it answers true exactly if there are fewer
  than \<open>maxCount\<close>, and then the table is complete.  The hypotheses on the hash function are
  those under which equal root hashes mean equal maps.
\<close>

theorem compare_exact:
  assumes "map_ok (node_type isT hasM) m" "map_ok (node_type isT hasM) m'"
    and "no_collision sha (hashed sha (smRoot m) \<union> hashed sha (smRoot m'))"
    and "keyed sha (node_type isT hasM) (items (smRoot m) \<union> items (smRoot m'))"
    and "1 \<le> maxCount"
  shows "\<exists>d. sm_compare sha m m' maxCount = (int (card (differences m m')) < maxCount, d) \<and>
    sorted_wrt bu_less (map fst d) \<and> set d \<subseteq> differences m m' \<and>
    int (length d) = min maxCount (int (card (differences m m'))) \<and>
    (int (card (differences m m')) \<le> maxCount \<longrightarrow> set d = differences m m')"
proof (cases "getHash sha m = getHash sha m'")
  case True
  from map_hash_inj[OF assms(1,2) is_leaf_node_type assms(3,4) this]
  have "differences m m' = {}" by (simp add: differences_def sm_peekItem_def findKey_def walkTowardsKey_def)
  then show ?thesis using True assms(5) by (simp add: sm_compare_def)
next
  case False
  let ?D = "differences m m'"
  from compare_records[of "[(smRoot m, smRoot m')]", OF _ assms(3) is_leaf_node_type[of isT hasM]] root_pair_ok[OF assms(1,2,4)]
  obtain es where es: "compare_loop sha [(smRoot m, smRoot m')] = feed es" "distinct (map fst es)" "set es = ?D"
    using differences_pair[OF assms(1,2)] by (auto simp: records_def)
  have "\<forall>k\<in>fst ` set es. length k = 32" using differences_keys[OF assms(1,2)] es(3) by auto
  from feed_ok[OF _ es(2) this, of "[]" maxCount] assms(5) obtain d where d:
    "feed es ([], maxCount) = (int (length es) < maxCount, d, maxCount - int (length (take (nat maxCount) es)))"
    "delta_sorted d" "set d = set (take (nat maxCount) es)" by (auto simp: delta_sorted_def)
  have de: "distinct es" using es(2) by (simp add: distinct_map)
  then have card: "card ?D = length es" using distinct_card es(3) by metis
  have "length d = length (take (nat maxCount) es)"
    using delta_sorted_length[OF d(2)] d(3) distinct_card[OF distinct_take[OF de]] by simp
  then have "int (length d) = min maxCount (int (card ?D))" using card assms(5) by (simp add: min_def) linarith
  moreover have "set d = ?D" if "int (card ?D) \<le> maxCount" using that card d(3) es(3) by simp
  moreover have "set d \<subseteq> ?D" using set_take_subset[of "nat maxCount" es] by (simp only: d(3) es(3))
  moreover have "sm_compare sha m m' maxCount = (int (card ?D) < maxCount, d)"
    using False d(1) es(1) card by (simp add: sm_compare_def)
  moreover have "sorted_wrt bu_less (map fst d)" using d(2) by (simp add: delta_sorted_def)
  ultimately show ?thesis by (intro exI[of _ d] conjI impI)
qed

theorem compare_exact_witness:
  "\<exists>d. sm_compare toy_sha (state_map item_a) (state_map item_b2) 5 =
      (int (card (differences (state_map item_a) (state_map item_b2))) < 5, d) \<and>
    set d \<subseteq> differences (state_map item_a) (state_map item_b2)"
proof -
  have "nib 0 (tag item_a) = 1" "nib 0 (tag item_b2) = 1" by code_simp+
  then have m: "map_ok (node_type False False) (state_map item_a)" "map_ok (node_type False False) (state_map item_b2)"
    using state_map_ok by (simp_all add: node_type_def)
  have nc: "no_collision toy_sha (hashed toy_sha (smRoot (state_map item_a)) \<union> hashed toy_sha (smRoot (state_map item_b2)))"
    by code_simp
  have kd: "keyed toy_sha (node_type False False) (items (smRoot (state_map item_a)) \<union> items (smRoot (state_map item_b2)))"
    by (simp add: keyed_def node_type_def)
  from compare_exact[OF m nc kd, of 5] show ?thesis by auto
qed

end
