(* ===== verification/Spec2Isabelle.thy ===== *)
theory Spec2Isabelle
  imports Consensus_Safety LedgerTrie_Preferred STAmount_Arith SHAMap_Delta
begin

text \<open>
  A verification library for the consensus code of rippled.
\<close>

end
